(* ===== verification/ArosPrelude.thy ===== *)
theory ArosPrelude
  imports Main "HOL-Library.Word"
begin

text \<open>
  Shared vocabulary of the development: the machine integer types of the C code, the
  pointer-cell heap of the exec structures, big-endian byte encodings, and the lemma
  collections that the component theories fill.
\<close>

unbundle bit_operations_syntax

type_synonym u8 = "8 word"
type_synonym u16 = "16 word"
type_synonym u32 = "32 word"
type_synonym u64 = "64 word"

text \<open>Facts about pointer cells that a structure operation leaves alone.\<close>
named_theorems heap_frame

text \<open>Refinement facts: a concrete operation on a represented structure.\<close>
named_theorems heap_refine

text \<open>
  The exec structures (nodes, lists, memory chunks) are linked by pointer-sized fields.
  An address is the byte address of a field; a heap maps the address of each such field
  to its content. Two field expressions alias exactly when their byte addresses agree.
\<close>

type_synonym addr = nat
type_synonym heap = "addr \<Rightarrow> addr"

definition same_off :: "addr set \<Rightarrow> heap \<Rightarrow> heap \<Rightarrow> bool" where
  "same_off S h h' \<longleftrightarrow> (\<forall>a. a \<notin> S \<longrightarrow> h' a = h a)"

lemma same_offI: "(\<And>a. a \<notin> S \<Longrightarrow> h' a = h a) \<Longrightarrow> same_off S h h'"
  by (simp add: same_off_def)

lemma same_offD: "same_off S h h' \<Longrightarrow> a \<notin> S \<Longrightarrow> h' a = h a"
  by (simp add: same_off_def)

lemma same_off_refl [simp]: "same_off S h h"
  by (simp add: same_off_def)

lemma same_off_mono: "same_off S h h' \<Longrightarrow> S \<subseteq> T \<Longrightarrow> same_off T h h'"
  by (auto simp: same_off_def)

lemma same_off_trans: "same_off S h h' \<Longrightarrow> same_off T h' h'' \<Longrightarrow> same_off (S \<union> T) h h''"
  by (auto simp: same_off_def)

lemma same_off_upd [intro]: "a \<in> S \<Longrightarrow> same_off S h h' \<Longrightarrow> same_off S h (h'(a := v))"
  by (auto simp: same_off_def)

subsection \<open>Lists\<close>

lemma split_at: "i < length xs \<Longrightarrow> \<exists>ys x zs. xs = ys @ x # zs \<and> length ys = i"
  by (metis id_take_nth_drop length_take min.absorb4)

lemma takeWhile_dropWhile_set:
  "set (takeWhile P xs @ n # dropWhile P xs) = insert n (set xs)"
  by (metis Un_insert_right list.set(2) set_append takeWhile_dropWhile_id)

subsection \<open>Rounding on words\<close>

lemma unat_take_bit: "unat (take_bit n (x :: 'a::len word)) = unat x mod 2 ^ n"
proof -
  have "unat (take_bit n x) = take_bit n (unat x)" by (rule unsigned_take_bit_eq)
  also have "\<dots> = unat x mod 2 ^ n" by (rule take_bit_eq_mod)
  finally show ?thesis .
qed

lemma word_and_not_mask: "(x :: 'a::len word) AND NOT (mask n) = x - take_bit n x"
proof -
  have "x AND NOT (mask n) = push_bit n (drop_bit n x)"
    by (rule bit_eqI) (auto simp: bit_simps)
  then show ?thesis using bits_ident [of n x] by (simp add: eq_diff_eq)
qed

lemma unat_and_not_mask:
  "unat ((x :: 'a::len word) AND NOT (mask n)) = unat x - unat x mod 2 ^ n"
proof -
  have "take_bit n x \<le> x" unfolding word_le_nat_alt unat_take_bit by simp
  then show ?thesis by (simp add: word_and_not_mask unat_sub unat_take_bit del: take_bit_eq_mod)
qed

lemma unat_u32: "unat (x :: u32) < 2 ^ 32"
  using unsigned_less [where 'a = nat, of x] by simp

lemma unat_u16: "unat (x :: u16) < 2 ^ 16"
  using unsigned_less [where 'a = nat, of x] by simp

lemma unat_u8: "unat (x :: u8) < 2 ^ 8"
  using unsigned_less [where 'a = nat, of x] by simp

lemma bit_u8: "bit (x :: u8) n \<Longrightarrow> n < 8"
  by (drule bit_imp_le_length) simp

lemma bit_u16: "bit (x :: u16) n \<Longrightarrow> n < 16"
  by (drule bit_imp_le_length) simp

end
