(* ===== verification/ExecList.thy ===== *)
theory ExecList
  imports ArosPrelude
begin

text \<open>
  The exec doubly linked lists of \<open>hosted/exec.c\<close> and \<open>hosted/msgport.c\<close>: \<open>struct Node\<close>
  has \<open>ln_Succ\<close> at byte 0 and \<open>ln_Pred\<close> at byte 8, \<open>struct List\<close> has \<open>lh_Head\<close>, \<open>lh_Tail\<close>,
  \<open>lh_TailPred\<close> at bytes 0, 8, 16. The header doubles as two sentinel nodes, one at the
  header's address and one at \<open>&lh_Tail\<close>; the model keeps that overlay, since both are
  plain addresses into one heap of pointer cells.
\<close>

subsection \<open>The operations\<close>

definition NewList :: "heap \<Rightarrow> addr \<Rightarrow> heap" where
  "NewList h l = h(l := l + 8, l + 8 := 0, l + 16 := l)"

definition IsListEmpty :: "heap \<Rightarrow> addr \<Rightarrow> bool" where
  "IsListEmpty h l = (h (l + 16) = l)"

definition GetHead :: "heap \<Rightarrow> addr \<Rightarrow> addr" where
  "GetHead h l = (if IsListEmpty h l then 0 else h l)"

definition Remove :: "heap \<Rightarrow> addr \<Rightarrow> heap" where
  "Remove h n = (let h1 = h(h (n + 8) := h n) in h1(h1 n + 8 := h1 (n + 8)))"

definition AddTail :: "heap \<Rightarrow> addr \<Rightarrow> addr \<Rightarrow> heap" where
  "AddTail h l n =
     (let h1 = h(n := l + 8);
          h2 = h1(n + 8 := h1 (l + 16));
          h3 = h2(h2 (l + 16) := n)
      in h3(l + 16 := n))"

definition RemHead :: "heap \<Rightarrow> addr \<Rightarrow> heap \<times> addr" where
  "RemHead h l = (let n = GetHead h l in (if n \<noteq> 0 then Remove h n else h, n))"

text \<open>The scan of \<open>Enqueue\<close>: it stops at the tail sentinel or at a lower priority.\<close>

partial_function (option) enq_scan :: "heap \<Rightarrow> (addr \<Rightarrow> u8) \<Rightarrow> addr \<Rightarrow> addr \<Rightarrow> addr option" where
  "enq_scan h pri n p =
     (if h p = 0 then Some p
      else if sint (pri p) < sint (pri n) then Some p
      else enq_scan h pri n (h p))"

declare enq_scan.simps [code]

definition Enqueue :: "heap \<Rightarrow> (addr \<Rightarrow> u8) \<Rightarrow> addr \<Rightarrow> addr \<Rightarrow> heap option" where
  "Enqueue h pri l n =
     (case enq_scan h pri n (h l) of
        None \<Rightarrow> None
      | Some p \<Rightarrow>
          let h1 = h(n + 8 := h (p + 8));
              h2 = h1(n := p);
              h3 = h2(h2 (p + 8) := n)
          in Some (h3(p + 8 := n)))"

subsection \<open>Abstraction to lists of nodes\<close>

fun dchain :: "heap \<Rightarrow> addr list \<Rightarrow> bool" where
  "dchain h (a # b # r) = (h a = b \<and> h (b + 8) = a \<and> dchain h (b # r))"
| "dchain h _ = True"

text \<open>All pointer cells of a list: the header's three and two per node.\<close>

definition list_cells :: "addr \<Rightarrow> addr list \<Rightarrow> addr list" where
  "list_cells l xs = [l, l + 8, l + 16] @ xs @ map (\<lambda>a. a + 8) xs"

definition list_rep :: "heap \<Rightarrow> addr \<Rightarrow> addr list \<Rightarrow> bool" where
  "list_rep h l xs \<longleftrightarrow>
     distinct (list_cells l xs) \<and> 0 \<notin> set (l # xs) \<and>
     dchain h (l # xs @ [l + 8]) \<and> h (l + 8) = 0"

definition linkable :: "addr \<Rightarrow> addr list \<Rightarrow> addr \<Rightarrow> bool" where
  "linkable l xs n \<longleftrightarrow> n \<noteq> 0 \<and> n \<notin> set (list_cells l xs) \<and> n + 8 \<notin> set (list_cells l xs)"

definition abs_enqueue :: "(addr \<Rightarrow> u8) \<Rightarrow> addr \<Rightarrow> addr list \<Rightarrow> addr list" where
  "abs_enqueue pri n xs =
     takeWhile (\<lambda>p. sint (pri n) \<le> sint (pri p)) xs @ n #
     dropWhile (\<lambda>p. sint (pri n) \<le> sint (pri p)) xs"

lemma dchain_append:
  "dchain h (xs @ a # ys) \<longleftrightarrow> dchain h (xs @ [a]) \<and> dchain h (a # ys)"
proof (induction xs)
  case Nil
  show ?case by simp
next
  case (Cons x xs)
  then show ?case by (cases xs) auto
qed

text \<open>A chain reads the successor cells of all but its last node, the predecessor cells of
  all but its first.\<close>

lemma dchain_cong:
  "dchain h ps \<Longrightarrow> (\<And>a. a \<in> set (butlast ps) \<Longrightarrow> h' a = h a) \<Longrightarrow>
   (\<And>a. a \<in> set (tl ps) \<Longrightarrow> h' (a + 8) = h (a + 8)) \<Longrightarrow> dchain h' ps"
  by (induction h ps rule: dchain.induct) (auto split: if_splits)

lemma list_rep_cong [heap_frame]:
  assumes "list_rep h l xs" and "\<And>a. a \<in> set (list_cells l xs) \<Longrightarrow> h' a = h a"
  shows "list_rep h' l xs"
proof -
  have "dchain h' (l # xs @ [l + 8])"
    by (rule dchain_cong [where h = h])
       (use assms in \<open>auto simp: list_rep_def list_cells_def\<close>)
  with assms show ?thesis
    by (auto simp: list_rep_def list_cells_def)
qed

lemma dchain_Cons_append:
  "dchain h (us @ a # b # vs) \<longleftrightarrow>
   dchain h (us @ [a]) \<and> h a = b \<and> h (b + 8) = a \<and> dchain h (b # vs)"
  by (subst dchain_append) auto

text \<open>The neighbours of a position: the header stands before the first node and its
  \<open>lh_Tail\<close> sentinel after the last.\<close>

lemma list_rep_neighbours:
  assumes "list_rep h l (us @ vs)"
  shows "h (last (l # us)) = hd (vs @ [l + 8])"
    and "h (hd (vs @ [l + 8]) + 8) = last (l # us)"
proof -
  have "l # us = butlast (l # us) @ [last (l # us)]"
    by (rule append_butlast_last_id [symmetric]) simp
  moreover have "vs @ [l + 8] = hd (vs @ [l + 8]) # tl (vs @ [l + 8])"
    by (cases vs) auto
  ultimately have "l # (us @ vs) @ [l + 8] =
      butlast (l # us) @ last (l # us) # hd (vs @ [l + 8]) # tl (vs @ [l + 8])"
    by (metis append.assoc append_Cons append_Nil)
  with assms show "h (last (l # us)) = hd (vs @ [l + 8])"
    and "h (hd (vs @ [l + 8]) + 8) = last (l # us)"
    unfolding list_rep_def by (metis dchain_Cons_append)+
qed

lemma last_header_in: "last (l # us) \<in> set (list_cells l (us @ vs))"
  and hd_trailer_in: "hd (vs @ [l + 8]) + 8 \<in> set (list_cells l (us @ vs))"
  by (cases us rule: rev_cases; cases vs; auto simp: list_cells_def)+

lemma ends_ne:
  assumes "distinct (list_cells l (us @ vs))"
  shows "last (l # us) \<noteq> hd (vs @ [l + 8]) + 8"
proof -
  have "last (l # us) = l \<or> last (l # us) \<in> set us" by (cases us) auto
  moreover have "hd (vs @ [l + 8]) + 8 = l + 16 \<or> hd (vs @ [l + 8]) + 8 \<in> (\<lambda>a. a + 8) ` set vs"
    by (cases vs) auto
  moreover have "l \<noteq> l + 16" by simp
  ultimately show ?thesis
    using assms by (auto simp: list_cells_def add.commute [of 16])
qed

lemma distinct_map_add8 [simp]: "distinct (map (\<lambda>a. a + (8::nat)) xs) \<longleftrightarrow> distinct xs"
  by (auto simp: distinct_map intro: inj_onI)

text \<open>Linking a node between its neighbours, whatever the order of the four stores, and
  unlinking one.\<close>

lemma dchain_insert:
  assumes ch: "dchain h (us @ a # b # vs)"
    and d: "distinct (us @ a # butlast (b # vs) @ map (\<lambda>c. c + 8) (tl (us @ [a]) @ b # vs))"
    and n: "n \<notin> set (us @ a # butlast (b # vs) @ map (\<lambda>c. c + 8) (tl (us @ [a]) @ b # vs))"
      "n + 8 \<notin> set (us @ a # butlast (b # vs) @ map (\<lambda>c. c + 8) (tl (us @ [a]) @ b # vs))"
    and upd: "h' n = b" "h' (n + 8) = a" "h' a = n" "h' (b + 8) = n"
    and rest: "\<And>c. c \<notin> {n, n + 8, a, b + 8} \<Longrightarrow> h' c = h c"
  shows "dchain h' (us @ a # n # b # vs)"
proof -
  have l: "dchain h (us @ [a])" and r: "dchain h (b # vs)"
    using ch by (auto simp: dchain_Cons_append)
  have "dchain h' (us @ [a])"
    by (rule dchain_cong [OF l]; rule rest; use d n in auto)
  moreover have "dchain h' (b # vs)"
    by (rule dchain_cong [OF r]; rule rest; use d n in auto)
  ultimately show ?thesis
    using upd by (auto simp: dchain_Cons_append)
qed

lemma dchain_delete:
  assumes ch: "dchain h (us @ a # n # b # vs)"
    and d: "distinct (us @ a # n # butlast (b # vs) @ map (\<lambda>c. c + 8) (tl (us @ [a]) @ n # b # vs))"
    and upd: "h' a = b" "h' (b + 8) = a"
    and rest: "\<And>c. c \<notin> {a, b + 8} \<Longrightarrow> h' c = h c"
  shows "dchain h' (us @ a # b # vs)"
proof -
  have l: "dchain h (us @ [a])" and r: "dchain h (b # vs)"
    using ch by (auto simp: dchain_Cons_append)
  have "dchain h' (us @ [a])"
    by (rule dchain_cong [OF l]; rule rest; use d in auto)
  moreover have "dchain h' (b # vs)"
    by (rule dchain_cong [OF r]; rule rest; use d in auto)
  ultimately show ?thesis
    using upd by (auto simp: dchain_Cons_append)
qed

lemma distinct_chain_cells:
  assumes "l # us = us' @ [a]" and "vs @ [l + 8] = b # vs'"
    and "distinct (list_cells l (us @ vs))"
  shows "distinct (us' @ a # butlast (b # vs') @ map (\<lambda>c. c + 8) (tl (us' @ [a]) @ b # vs'))" (is ?A)
    and "set (us' @ a # butlast (b # vs') @ map (\<lambda>c. c + 8) (tl (us' @ [a]) @ b # vs')) =
         set (list_cells l (us @ vs)) - {l + 8}" (is ?B)
proof -
  have 1: "butlast (b # vs') = vs" by (metis assms(2) butlast_snoc)
  have 2: "tl (us' @ [a]) = us" by (metis assms(1) list.sel(3))
  have 3: "us' @ a # zs = l # us @ zs" for zs using assms(1)
    by (metis append.assoc append_Cons append_Nil)
  have 4: "us' @ a # butlast (b # vs') @ map (\<lambda>c. c + 8) (tl (us' @ [a]) @ b # vs')
     = l # us @ vs @ map (\<lambda>c. c + 8) us @ map (\<lambda>c. c + 8) vs @ [l + 16]"
    unfolding 1 2 3 assms(2) [symmetric] by simp
  show ?A unfolding 4 using assms(3) by (auto simp: list_cells_def)
  show ?B unfolding 4 using assms(3) by (auto simp: list_cells_def)
qed

lemma list_rep_insert:
  assumes rep: "list_rep h l (us @ vs)" and n: "linkable l (us @ vs) n"
    and a: "a = last (l # us)" and b: "b = hd (vs @ [l + 8])"
    and upd: "h' n = b" "h' (n + 8) = a" "h' a = n" "h' (b + 8) = n"
    and rest: "\<And>c. c \<notin> {n, n + 8, a, b + 8} \<Longrightarrow> h' c = h c"
  shows "list_rep h' l (us @ n # vs)"
proof -
  obtain us' where us': "l # us = us' @ [a]"
    using a by (metis append_butlast_last_id list.distinct(1))
  obtain vs' where vs': "vs @ [l + 8] = b # vs'"
    using b by (metis list.exhaust_sel snoc_eq_iff_butlast)
  have d: "distinct (list_cells l (us @ vs))" and nz: "0 \<notin> set (l # us @ vs)" and e: "h (l + 8) = 0"
    and ch: "dchain h (us' @ a # b # vs')"
    using rep us' vs' by (auto simp: list_rep_def) (metis append.assoc append_Cons append_Nil)
  note dc = distinct_chain_cells [OF us' vs' d]
  have "dchain h' (us' @ a # n # b # vs')"
  proof (rule dchain_insert [OF ch dc(1) _ _ upd rest])
  qed (use n dc(2) in \<open>auto simp: linkable_def simp del: set_append\<close>)
  then have "dchain h' (l # (us @ n # vs) @ [l + 8])"
    using us' vs' by (metis append.assoc append_Cons append_Nil)
  moreover have "distinct (list_cells l (us @ n # vs))"
    using d n by (auto simp: list_cells_def linkable_def)
  moreover have "h' (l + 8) = h (l + 8)"
  proof (rule rest)
    have "a = l \<or> a \<in> set us" "b = l + 8 \<or> b \<in> set vs"
      using a b by (cases us; cases vs; auto)+
    then show "l + 8 \<notin> {n, n + 8, a, b + 8}"
      using d n by (auto simp: list_cells_def linkable_def)
  qed
  ultimately show ?thesis
    using e nz n by (auto simp: list_rep_def linkable_def)
qed

lemma list_rep_delete:
  assumes rep: "list_rep h l (us @ n # vs)"
    and a: "a = last (l # us)" and b: "b = hd (vs @ [l + 8])"
    and upd: "h' a = b" "h' (b + 8) = a"
    and rest: "\<And>c. c \<notin> {a, b + 8} \<Longrightarrow> h' c = h c"
  shows "list_rep h' l (us @ vs)"
proof -
  obtain us' where us': "l # us = us' @ [a]"
    using a by (metis append_butlast_last_id list.distinct(1))
  obtain vs' where vs': "vs @ [l + 8] = b # vs'"
    using b by (metis list.exhaust_sel snoc_eq_iff_butlast)
  have d: "distinct (list_cells l (us @ n # vs))" and nz: "0 \<notin> set (l # us @ n # vs)"
    and e: "h (l + 8) = 0" and ch: "dchain h (us' @ a # n # b # vs')"
    using rep us' vs' by (auto simp: list_rep_def) (metis append.assoc append_Cons append_Nil)
  have nv: "(n # vs) @ [l + 8] = n # b # vs'" using vs' by simp
  have "dchain h' (us' @ a # b # vs')"
    by (rule dchain_delete [OF ch _ upd rest])
       (use distinct_chain_cells(1) [OF us' nv d] in simp_all)
  then have "dchain h' (l # (us @ vs) @ [l + 8])"
    using us' vs' by (metis append.assoc append_Cons append_Nil)
  moreover have "distinct (list_cells l (us @ vs))"
    using d by (auto simp: list_cells_def)
  moreover have "h' (l + 8) = h (l + 8)"
  proof (rule rest)
    have "a = l \<or> a \<in> set us" "b = l + 8 \<or> b \<in> set vs"
      using a b by (cases us; cases vs; auto)+
    then show "l + 8 \<notin> {a, b + 8}"
      using d by (auto simp: list_cells_def)
  qed
  ultimately show ?thesis
    using e nz by (auto simp: list_rep_def)
qed

subsection \<open>Each operation refines its list counterpart\<close>

lemma NewList_rep [heap_refine]: "l \<noteq> 0 \<Longrightarrow> list_rep (NewList h l) l []"
  by (simp add: list_rep_def list_cells_def NewList_def)

lemma NewList_frame: "same_off {l, l + 8, l + 16} h (NewList h l)"
  by (auto simp: same_off_def NewList_def)

lemma list_rep_last: "list_rep h l xs \<Longrightarrow> h (l + 16) = last (l # xs)"
  using list_rep_neighbours(2) [of h l xs "[]"] by (simp add: add.commute [of 16])

lemma list_rep_first: "list_rep h l xs \<Longrightarrow> h l = hd (xs @ [l + 8])"
  using list_rep_neighbours(1) [of h l "[]" xs] by simp

lemma IsListEmpty_rep [heap_refine]: "list_rep h l xs \<Longrightarrow> IsListEmpty h l \<longleftrightarrow> xs = []"
  unfolding IsListEmpty_def
  by (cases xs rule: rev_cases) (auto simp: list_rep_last, auto simp: list_rep_def list_cells_def)

lemma GetHead_rep [heap_refine]:
  "list_rep h l xs \<Longrightarrow> GetHead h l = (case xs of [] \<Rightarrow> 0 | x # _ \<Rightarrow> x)"
  by (cases xs) (auto simp: GetHead_def IsListEmpty_rep list_rep_first)

lemma list_rep_node:
  assumes "list_rep h l (us @ n # vs)"
  shows "h n = hd (vs @ [l + 8])" "h (n + 8) = last (l # us)"
  using list_rep_neighbours(1) [of h l "us @ [n]" vs] list_rep_neighbours(2) [of h l us "n # vs"]
    assms by simp_all

lemma Remove_cells:
  assumes "list_rep h l (us @ n # vs)"
  shows "Remove h n = h(last (l # us) := hd (vs @ [l + 8]), hd (vs @ [l + 8]) + 8 := last (l # us))"
proof -
  have "last (l # us) = l \<or> last (l # us) \<in> set us" by (cases us) auto
  then have "last (l # us) \<noteq> n" "last (l # us) \<noteq> n + 8"
    using assms by (auto simp: list_rep_def list_cells_def)
  then show ?thesis
    using list_rep_node [OF assms] by (simp add: Remove_def Let_def)
qed

lemma Remove_rep [heap_refine]:
  assumes "list_rep h l (us @ n # vs)"
  shows "list_rep (Remove h n) l (us @ vs)"
proof (rule list_rep_delete [OF assms refl refl])
  have "distinct (list_cells l (us @ vs))"
    using assms by (auto simp: list_rep_def list_cells_def)
  then have "last (l # us) \<noteq> hd (vs @ [l + 8]) + 8" by (rule ends_ne)
  then show "Remove h n (last (l # us)) = hd (vs @ [l + 8])"
    by (simp add: Remove_cells [OF assms])
qed (auto simp: Remove_cells [OF assms])

lemma Remove_frame:
  assumes "list_rep h l (us @ n # vs)"
  shows "same_off (set (list_cells l (us @ vs))) h (Remove h n)"
  using last_header_in [of l us vs] hd_trailer_in [of vs l us]
  by (auto simp: same_off_def Remove_cells [OF assms])

lemma AddTail_cells:
  assumes "list_rep h l xs" and "linkable l xs n"
  shows "AddTail h l n = h(n := l + 8, n + 8 := last (l # xs), last (l # xs) := n, l + 16 := n)"
proof -
  have "n \<noteq> l + 16" "n + 8 \<noteq> l + 16" using assms(2) by (auto simp: linkable_def list_cells_def)
  then show ?thesis
    by (simp add: AddTail_def Let_def list_rep_last [OF assms(1)])
qed

lemma AddTail_rep [heap_refine]:
  assumes "list_rep h l xs" and n: "linkable l xs n"
  shows "list_rep (AddTail h l n) l (xs @ [n])"
proof -
  have "last (l # xs) = l \<or> last (l # xs) \<in> set xs" by (cases xs) auto
  then have ne: "last (l # xs) \<noteq> l + 16" "last (l # xs) \<noteq> n" "last (l # xs) \<noteq> n + 8"
    "l + 16 \<noteq> n" "l + 16 \<noteq> n + 8"
    using assms by (auto simp: list_rep_def list_cells_def linkable_def)
  note cells = AddTail_cells [OF assms]
  show ?thesis
  proof (rule list_rep_insert [where us = xs and vs = "[]" and h = h])
    show "AddTail h l n n = l + 8" "AddTail h l n (n + 8) = last (l # xs)"
      "AddTail h l n (last (l # xs)) = n" "AddTail h l n (l + 8 + 8) = n"
      using ne by (simp_all only: cells fun_upd_apply if_True if_False if_cancel simp_thms)
        (simp_all add: add.commute [of 16])
    show "AddTail h l n c = h c" if "c \<notin> {n, n + 8, last (l # xs), l + 8 + 8}" for c
      using that by (simp add: cells add.commute [of 16])
  qed (use assms in simp_all)
qed

lemma AddTail_frame:
  assumes "list_rep h l xs" and "linkable l xs n"
  shows "same_off (set (list_cells l xs) \<union> {n, n + 8}) h (AddTail h l n)"
  using last_header_in [of l xs "[]"]
  by (auto simp: same_off_def AddTail_cells [OF assms] list_cells_def)

lemma RemHead_nil [heap_refine]: "list_rep h l [] \<Longrightarrow> RemHead h l = (h, 0)"
  by (simp add: RemHead_def GetHead_rep)

lemma RemHead_cons [heap_refine]:
  "list_rep h l (x # xs) \<Longrightarrow> snd (RemHead h l) = x \<and> list_rep (fst (RemHead h l)) l xs"
  using Remove_rep [of h l "[]" x xs]
  by (auto simp: RemHead_def GetHead_rep Let_def) (auto simp: list_rep_def)

text \<open>The scan always ends on a well-formed list, at the first node of lower priority or at
  the tail sentinel.\<close>

lemma enq_scan_rep:
  assumes "list_rep h l (us @ vs)"
  shows "enq_scan h pri n (hd (vs @ [l + 8])) =
         Some (hd (dropWhile (\<lambda>p. sint (pri n) \<le> sint (pri p)) vs @ [l + 8]))"
  using assms
proof (induction vs arbitrary: us)
  case Nil
  then have "h (l + 8) = 0" by (simp add: list_rep_def)
  then show ?case by (simp add: enq_scan.simps)
next
  case (Cons v vs)
  have succ: "h v = hd (vs @ [l + 8])" by (rule list_rep_node [OF Cons.prems])
  have "hd (vs @ [l + 8]) \<noteq> 0"
    using Cons.prems by (cases vs) (auto simp: list_rep_def)
  moreover have "enq_scan h pri n (hd (vs @ [l + 8])) =
      Some (hd (dropWhile (\<lambda>p. sint (pri n) \<le> sint (pri p)) vs @ [l + 8]))"
    using Cons.IH [of "us @ [v]"] Cons.prems by simp
  ultimately show ?case
    using succ by (simp add: enq_scan.simps [of h pri n v])
qed

lemma Enqueue_refines:
  assumes "list_rep h l xs" and n: "linkable l xs n"
  shows "\<exists>h'. Enqueue h pri l n = Some h' \<and> list_rep h' l (abs_enqueue pri n xs) \<and>
             same_off (set (list_cells l xs) \<union> {n, n + 8}) h h'"
proof -
  define us where "us = takeWhile (\<lambda>p. sint (pri n) \<le> sint (pri p)) xs"
  define vs where "vs = dropWhile (\<lambda>p. sint (pri n) \<le> sint (pri p)) xs"
  define a b where "a = last (l # us)" and "b = hd (vs @ [l + 8])"
  have xs: "xs = us @ vs" by (simp add: us_def vs_def)
  have rep: "list_rep h l (us @ vs)" and lk: "linkable l (us @ vs) n" using assms xs by auto
  have scan: "enq_scan h pri n (h l) = Some b"
    using enq_scan_rep [of h l "[]" xs pri n] assms(1)
    by (simp add: list_rep_first b_def vs_def)
  have pb: "h (b + 8) = a" using list_rep_neighbours(2) [OF rep] by (simp add: a_def b_def)
  have "b = l + 8 \<or> b \<in> set vs" by (cases vs) (auto simp: b_def)
  then have bn: "b + 8 \<noteq> n + 8" "b + 8 \<noteq> n"
    using lk by (auto simp: linkable_def list_cells_def)
  have ab: "a \<in> set (list_cells l xs)" "b + 8 \<in> set (list_cells l xs)"
    using last_header_in hd_trailer_in by (auto simp: a_def b_def xs)
  then have an: "a \<noteq> n" "a \<noteq> n + 8" using n by (auto simp: linkable_def)
  have "a \<noteq> b + 8"
    unfolding a_def b_def by (rule ends_ne) (use rep in \<open>simp add: list_rep_def\<close>)
  let ?h = "h(n + 8 := a, n := b, a := n, b + 8 := n)"
  have "Enqueue h pri l n = Some ?h"
    using bn by (simp add: Enqueue_def scan pb Let_def)
  moreover have "list_rep ?h l (us @ n # vs)"
    by (rule list_rep_insert [OF rep lk a_def b_def]) (use an bn \<open>a \<noteq> b + 8\<close> in auto)
  moreover have "same_off (set (list_cells l xs) \<union> {n, n + 8}) h ?h"
    using ab by (auto simp: same_off_def)
  ultimately show ?thesis by (auto simp: abs_enqueue_def us_def vs_def)
qed

lemma RemHead_frame:
  assumes "list_rep h l xs"
  shows "same_off (set (list_cells l xs)) h (fst (RemHead h l))"
proof (cases xs)
  case Nil
  with assms show ?thesis by (simp add: RemHead_nil)
next
  case (Cons x ys)
  then have "same_off (set (list_cells l ys)) h (Remove h x)"
    using Remove_frame [of h l "[]" x ys] assms by simp
  then have "same_off (set (list_cells l xs)) h (Remove h x)"
    by (rule same_off_mono) (auto simp: list_cells_def Cons)
  then show ?thesis
    using assms by (auto simp: RemHead_def GetHead_rep Cons Let_def)
qed

subsection \<open>Priority order\<close>

definition pri_sorted :: "(addr \<Rightarrow> u8) \<Rightarrow> addr list \<Rightarrow> bool" where
  "pri_sorted pri = sorted_wrt (\<lambda>a b. sint (pri b) \<le> sint (pri a))"

lemma set_abs_enqueue [simp]: "set (abs_enqueue pri n xs) = insert n (set xs)"
  by (simp only: abs_enqueue_def takeWhile_dropWhile_set)

lemma distinct_insert_between:
  "distinct (us @ n # vs) \<longleftrightarrow> n \<notin> set (us @ vs) \<and> distinct (us @ vs)"
  by auto

lemma distinct_abs_enqueue [simp]:
  "distinct (abs_enqueue pri n xs) \<longleftrightarrow> n \<notin> set xs \<and> distinct xs"
  by (simp only: abs_enqueue_def distinct_insert_between takeWhile_dropWhile_id)

lemma abs_enqueue_sorted:
  assumes "pri_sorted pri xs"
  shows "pri_sorted pri (abs_enqueue pri n xs)"
proof -
  let ?P = "\<lambda>p. sint (pri n) \<le> sint (pri p)"
  have split: "pri_sorted pri (takeWhile ?P xs @ dropWhile ?P xs)" using assms by simp
  have low: "sint (pri b) \<le> sint (pri n)" if "b \<in> set (dropWhile ?P xs)" for b
  proof (cases "dropWhile ?P xs")
    case Nil
    with that have "b \<in> set []" by (simp only:)
    then show ?thesis by simp
  next
    case (Cons y ys)
    then have "\<not> ?P y" by (metis hd_dropWhile list.sel(1) list.distinct(1))
    moreover have "sint (pri b) \<le> sint (pri y)"
      using split that unfolding Cons by (auto simp: pri_sorted_def sorted_wrt_append)
    ultimately show ?thesis by simp
  qed
  have high: "sint (pri n) \<le> sint (pri a)" if "a \<in> set (takeWhile ?P xs)" for a
    using that by (auto dest: set_takeWhileD)
  let ?R = "\<lambda>a b. sint (pri b) \<le> sint (pri a)"
  have "sorted_wrt ?R (takeWhile ?P xs)" "sorted_wrt ?R (dropWhile ?P xs)"
    using split unfolding pri_sorted_def sorted_wrt_append by blast+
  moreover have "\<forall>x\<in>set (takeWhile ?P xs). \<forall>y\<in>set (dropWhile ?P xs). ?R x y"
    using low high by (meson order_trans)
  ultimately show ?thesis
    unfolding abs_enqueue_def pri_sorted_def sorted_wrt_append sorted_wrt.simps list.set
    using low high by blast
qed

text \<open>First in, first out among nodes of one priority.\<close>

lemma abs_enqueue_fifo:
  assumes "pri_sorted pri xs"
  shows "filter (\<lambda>p. pri p = k) (abs_enqueue pri n xs) =
         filter (\<lambda>p. pri p = k) xs @ (if pri n = k then [n] else [])"
proof -
  let ?P = "\<lambda>p. sint (pri n) \<le> sint (pri p)"
  have "filter (\<lambda>p. pri p = pri n) (dropWhile ?P xs) = []"
  proof (cases "dropWhile ?P xs")
    case (Cons y ys)
    then have "\<not> ?P y" by (metis hd_dropWhile list.sel(1) list.distinct(1))
    moreover have "pri_sorted pri (takeWhile ?P xs @ y # ys)"
      unfolding Cons [symmetric] takeWhile_dropWhile_id by (rule assms)
    then have "\<forall>z\<in>set ys. sint (pri z) \<le> sint (pri y)"
      unfolding pri_sorted_def sorted_wrt_append sorted_wrt.simps by blast
    ultimately have "\<forall>z\<in>set (y # ys). pri z \<noteq> pri n" by fastforce
    then show ?thesis unfolding Cons filter_empty_conv .
  next
    case Nil
    show ?thesis unfolding Nil by simp
  qed
  moreover have "filter Q xs = filter Q (takeWhile ?P xs) @ filter Q (dropWhile ?P xs)" for Q
    by (metis filter_append takeWhile_dropWhile_id)
  ultimately show ?thesis
    by (auto simp: abs_enqueue_def)
qed

lemma pri_sorted_remove1: "pri_sorted pri (us @ n # vs) \<Longrightarrow> pri_sorted pri (us @ vs)"
  by (auto simp: pri_sorted_def sorted_wrt_append)

subsection \<open>Families of lists over one arena of nodes\<close>

text \<open>
  The kernel keeps several lists in one heap. \<open>N\<close> is the set of node structures, \<open>L\<close> the
  set of list headers; distinct structures do not overlap. \<open>F\<close> gives the contents of each list.
\<close>

definition arena :: "addr set \<Rightarrow> addr set \<Rightarrow> bool" where
  "arena N L \<longleftrightarrow> 0 \<notin> N \<union> L \<and> (\<forall>a\<in>N. \<forall>b\<in>N. a \<noteq> b + 8) \<and>
     (\<forall>l\<in>L. \<forall>a\<in>N. {a, a + 8} \<inter> {l, l + 8, l + 16} = {}) \<and>
     (\<forall>l\<in>L. \<forall>m\<in>L. l \<noteq> m \<longrightarrow> {l, l + 8, l + 16} \<inter> {m, m + 8, m + 16} = {})"

lemma arena_nodes: "arena N L \<Longrightarrow> a \<in> N \<Longrightarrow> b \<in> N \<Longrightarrow> a \<noteq> b + 8"
  by (metis arena_def)

lemma arena_header:
  "arena N L \<Longrightarrow> l \<in> L \<Longrightarrow> a \<in> N \<Longrightarrow> {a, a + 8} \<inter> {l, l + 8, l + 16} = {}"
  by (metis arena_def)

lemma arena_headers:
  "arena N L \<Longrightarrow> l \<in> L \<Longrightarrow> m \<in> L \<Longrightarrow> l \<noteq> m \<Longrightarrow>
   {l, l + 8, l + 16} \<inter> {m, m + 8, m + 16} = {}"
  by (metis arena_def)

lemma arena_nonnull: "arena N L \<Longrightarrow> a \<in> N \<Longrightarrow> a \<noteq> 0"
  by (metis UnI1 arena_def)

definition fam :: "heap \<Rightarrow> addr set \<Rightarrow> addr set \<Rightarrow> (addr \<Rightarrow> addr list) \<Rightarrow> bool" where
  "fam h N L F \<longleftrightarrow> arena N L \<and> (\<forall>l\<in>L. list_rep h l (F l) \<and> set (F l) \<subseteq> N) \<and>
     (\<forall>l\<in>L. \<forall>m\<in>L. l \<noteq> m \<longrightarrow> set (F l) \<inter> set (F m) = {})"

definition unlinked :: "addr set \<Rightarrow> (addr \<Rightarrow> addr list) \<Rightarrow> addr \<Rightarrow> bool" where
  "unlinked L F n \<longleftrightarrow> (\<forall>l\<in>L. n \<notin> set (F l))"

lemma famD:
  assumes "fam h N L F" "l \<in> L"
  shows "list_rep h l (F l)" "set (F l) \<subseteq> N"
  using assms by (auto simp: fam_def)

lemma fam_arena: "fam h N L F \<Longrightarrow> arena N L"
  unfolding fam_def by (elim conjE)

lemma list_cells_memb: "c \<in> set (list_cells l xs) \<longleftrightarrow>
    c \<in> {l, l + 8, l + 16} \<or> c \<in> set xs \<or> (\<exists>a\<in>set xs. c = a + 8)"
  by (auto simp: list_cells_def)

lemma fam_cells_disjoint:
  assumes "fam h N L F" and "l \<in> L" "m \<in> L" "l \<noteq> m"
  shows "set (list_cells l (F l)) \<inter> set (list_cells m (F m)) = {}"
proof -
  have sub: "set (F l) \<subseteq> N" "set (F m) \<subseteq> N" and dj: "set (F l) \<inter> set (F m) = {}"
    using assms unfolding fam_def by blast+
  note ar = fam_arena [OF assms(1)]
  note nn = arena_nodes [OF ar] and hdr = arena_header [OF ar]
  note lm = arena_headers [OF ar assms(2,3,4)]
  show ?thesis
  proof (rule ccontr)
    assume "set (list_cells l (F l)) \<inter> set (list_cells m (F m)) \<noteq> {}"
    then obtain c where c: "c \<in> set (list_cells l (F l))" "c \<in> set (list_cells m (F m))" by auto
    have L: "c \<in> {l, l + 8, l + 16} \<or> (\<exists>a\<in>set (F l). c \<in> {a, a + 8})"
      and M: "c \<in> {m, m + 8, m + 16} \<or> (\<exists>a\<in>set (F m). c \<in> {a, a + 8})"
      using c unfolding list_cells_memb by auto
    have no_l: "\<not> (c \<in> {l, l + 8, l + 16} \<and> (\<exists>a\<in>N. c \<in> {a, a + 8}))"
      and no_m: "\<not> (c \<in> {m, m + 8, m + 16} \<and> (\<exists>a\<in>N. c \<in> {a, a + 8}))"
      using hdr assms(2,3) by blast+
    have "False" if "a \<in> set (F l)" "b \<in> set (F m)" "c \<in> {a, a + 8}" "c \<in> {b, b + 8}" for a b
    proof -
      have "a = b \<or> a = b + 8 \<or> b = a + 8" using that by auto
      then show False using that(1,2) nn sub dj by blast
    qed
    then have "\<not> ((\<exists>a\<in>set (F l). c \<in> {a, a + 8}) \<and> (\<exists>a\<in>set (F m). c \<in> {a, a + 8}))"
      by blast
    then show False using L M lm no_l no_m sub by blast
  qed
qed

lemma fam_linkable:
  assumes "fam h N L F" and "l \<in> L" and "n \<in> N" "unlinked L F n"
  shows "linkable l (F l) n"
proof -
  have sub: "set (F l) \<subseteq> N" and nF: "n \<notin> set (F l)"
    using assms unfolding fam_def unlinked_def by blast+
  note ar = fam_arena [OF assms(1)]
  note nn = arena_nodes [OF ar] and hdr = arena_header [OF ar assms(2,3)]
  have "n \<noteq> 0" by (rule arena_nonnull [OF ar assms(3)])
  moreover have "n \<notin> set (list_cells l (F l))"
    using hdr nF nn [OF assms(3)] sub unfolding list_cells_memb by blast
  moreover have "n + 8 \<notin> set (list_cells l (F l))"
  proof
    assume "n + 8 \<in> set (list_cells l (F l))"
    then consider "n + 8 \<in> {l, l + 8, l + 16}" | "n + 8 \<in> set (F l)" | "n \<in> set (F l)"
      unfolding list_cells_memb by fastforce
    then show False
      by cases (use hdr nF sub nn [of "n + 8" n] assms(3) in blast)+
  qed
  ultimately show ?thesis by (simp add: linkable_def)
qed

text \<open>An update that stays within the cells of one list and of an unlinked node leaves the
  other lists alone.\<close>

lemma fam_update:
  assumes fam: "fam h N L F" and l: "l \<in> L" and n: "n \<in> N" "unlinked L F n"
    and rep: "list_rep h' l xs" and sub: "set xs \<subseteq> insert n (set (F l))"
    and fr: "same_off (set (list_cells l (F l)) \<union> {n, n + 8}) h h'"
  shows "fam h' N L (F(l := xs))"
proof -
  have other: "list_rep h' m (F m)" if m: "m \<in> L" "m \<noteq> l" for m
  proof (rule list_rep_cong)
    show "list_rep h m (F m)" using famD(1) [OF fam] m by simp
    fix a assume a: "a \<in> set (list_cells m (F m))"
    have "a \<notin> set (list_cells l (F l))"
      using fam_cells_disjoint [OF fam m(1) l m(2)] a by auto
    moreover have "n \<noteq> a" "n + 8 \<noteq> a"
      using fam_linkable [OF fam m(1) n] a by (auto simp: linkable_def)
    ultimately show "h' a = h a"
      using fr by (auto simp: same_off_def)
  qed
  have dj: "set xs \<inter> set (F m) = {}" if "m \<in> L" "m \<noteq> l" for m
    using fam l n sub that unfolding fam_def unlinked_def by blast
  have sub': "set xs \<subseteq> N" using sub n famD(2) [OF fam l] by blast
  show ?thesis
    unfolding fam_def
  proof (intro conjI ballI impI)
    show "arena N L" using fam by (simp add: fam_def)
  next
    fix m assume "m \<in> L"
    then show "list_rep h' m ((F(l := xs)) m)" "set ((F(l := xs)) m) \<subseteq> N"
      using rep other sub' famD(2) [OF fam] by auto
  next
    fix m k assume "m \<in> L" "k \<in> L" "m \<noteq> k"
    then show "set ((F(l := xs)) m) \<inter> set ((F(l := xs)) k) = {}"
      using dj fam by (auto simp: fam_def)
  qed
qed

lemma fam_shrink:
  assumes fam: "fam h N L F" and l: "l \<in> L"
    and rep: "list_rep h' l xs" and sub: "set xs \<subseteq> set (F l)"
    and fr: "same_off (set (list_cells l (F l))) h h'"
  shows "fam h' N L (F(l := xs))"
proof -
  have other: "list_rep h' m (F m)" if m: "m \<in> L" "m \<noteq> l" for m
  proof (rule list_rep_cong)
    show "list_rep h m (F m)" using famD(1) [OF fam] m by simp
    fix a assume a: "a \<in> set (list_cells m (F m))"
    have "a \<notin> set (list_cells l (F l))"
      using fam_cells_disjoint [OF fam m(1) l m(2)] a by auto
    then show "h' a = h a"
      using fr by (auto simp: same_off_def)
  qed
  show ?thesis
    unfolding fam_def
  proof (intro conjI ballI impI)
    show "arena N L" by (rule fam_arena [OF fam])
  next
    fix m assume "m \<in> L"
    then show "list_rep h' m ((F(l := xs)) m)" "set ((F(l := xs)) m) \<subseteq> N"
      using rep other sub famD(2) [OF fam] l by auto
  next
    fix m k assume "m \<in> L" "k \<in> L" "m \<noteq> k"
    then have "set (F m) \<inter> set (F k) = {}" using fam unfolding fam_def by blast
    then show "set ((F(l := xs)) m) \<inter> set ((F(l := xs)) k) = {}"
      using sub by auto
  qed
qed

lemma fam_AddTail [heap_refine]:
  assumes "fam h N L F" "l \<in> L" "n \<in> N" "unlinked L F n"
  shows "fam (AddTail h l n) N L (F(l := F l @ [n]))"
proof (rule fam_update [OF assms])
  note lk = fam_linkable [OF assms] and rep = famD(1) [OF assms(1,2)]
  show "list_rep (AddTail h l n) l (F l @ [n])" by (rule AddTail_rep [OF rep lk])
  show "same_off (set (list_cells l (F l)) \<union> {n, n + 8}) h (AddTail h l n)"
    by (rule AddTail_frame [OF rep lk])
qed simp

lemma fam_Enqueue [heap_refine]:
  assumes "fam h N L F" "l \<in> L" "n \<in> N" "unlinked L F n"
  shows "\<exists>h'. Enqueue h pri l n = Some h' \<and> fam h' N L (F(l := abs_enqueue pri n (F l)))"
proof -
  obtain h' where h': "Enqueue h pri l n = Some h'" "list_rep h' l (abs_enqueue pri n (F l))"
    "same_off (set (list_cells l (F l)) \<union> {n, n + 8}) h h'"
    using Enqueue_refines [OF famD(1) [OF assms(1,2)] fam_linkable [OF assms]] by blast
  moreover have "fam h' N L (F(l := abs_enqueue pri n (F l)))"
    by (rule fam_update [OF assms h'(2) _ h'(3)]) simp
  ultimately show ?thesis by blast
qed

lemma fam_Remove [heap_refine]:
  assumes "fam h N L F" "l \<in> L" "F l = us @ n # vs"
  shows "fam (Remove h n) N L (F(l := us @ vs))"
proof (rule fam_shrink [OF assms(1,2)])
  have rep: "list_rep h l (us @ n # vs)" using famD(1) [OF assms(1,2)] assms(3) by simp
  show "list_rep (Remove h n) l (us @ vs)" by (rule Remove_rep [OF rep])
  show "same_off (set (list_cells l (F l))) h (Remove h n)"
    by (rule same_off_mono [OF Remove_frame [OF rep]]) (auto simp: assms(3) list_cells_def)
qed (auto simp: assms(3))

lemma fam_GetHead [heap_refine]:
  "fam h N L F \<Longrightarrow> l \<in> L \<Longrightarrow> GetHead h l = (case F l of [] \<Rightarrow> 0 | x # _ \<Rightarrow> x)"
  by (rule GetHead_rep [OF famD(1)])

lemma fam_IsListEmpty [heap_refine]:
  "fam h N L F \<Longrightarrow> l \<in> L \<Longrightarrow> IsListEmpty h l \<longleftrightarrow> F l = []"
  by (rule IsListEmpty_rep [OF famD(1)])

lemma fam_RemHead_cons [heap_refine]:
  assumes "fam h N L F" "l \<in> L" "F l = x # xs"
  shows "snd (RemHead h l) = x" "fam (fst (RemHead h l)) N L (F(l := xs))"
proof -
  have rep: "list_rep h l (x # xs)" using famD(1) [OF assms(1,2)] assms(3) by simp
  show "snd (RemHead h l) = x" using RemHead_cons [OF rep] by simp
  show "fam (fst (RemHead h l)) N L (F(l := xs))"
  proof (rule fam_shrink [OF assms(1,2)])
    show "list_rep (fst (RemHead h l)) l xs" using RemHead_cons [OF rep] by simp
    show "same_off (set (list_cells l (F l))) h (fst (RemHead h l))"
      using RemHead_frame [OF rep] assms(3) by simp
  qed (auto simp: assms(3))
qed

lemma fam_RemHead_nil [heap_refine]:
  "fam h N L F \<Longrightarrow> l \<in> L \<Longrightarrow> F l = [] \<Longrightarrow> RemHead h l = (h, 0)"
  using RemHead_nil famD(1) by metis

lemma fam_distinct: "fam h N L F \<Longrightarrow> l \<in> L \<Longrightarrow> distinct (F l)"
  by (drule (1) famD(1)) (simp add: list_rep_def list_cells_def)

lemma unlinked_upd:
  "unlinked L (F(l := xs)) n \<longleftrightarrow> (l \<in> L \<longrightarrow> n \<notin> set xs) \<and> (\<forall>m\<in>L. m \<noteq> l \<longrightarrow> n \<notin> set (F m))"
  by (auto simp: unlinked_def)

lemma fam_linked_once:
  assumes "fam h N L F" "l \<in> L" "n \<in> set (F l)" "m \<in> L" "m \<noteq> l"
  shows "n \<notin> set (F m)"
  using assms unfolding fam_def by blast

subsection \<open>The queue contract\<close>

text \<open>
  What a message queue promises its clients, over any state \<open>'h\<close>: putting appends, taking
  yields the oldest element. The port code relies on nothing else of the lists.
\<close>

primrec take_n :: "('h \<Rightarrow> 'h \<times> 'n) \<Rightarrow> nat \<Rightarrow> 'h \<Rightarrow> 'h \<times> 'n list" where
  "take_n get 0 h = (h, [])"
| "take_n get (Suc k) h = (let (h1, n) = get h; (h2, ns) = take_n get k h1 in (h2, n # ns))"

locale fifo_queue =
  fixes rep :: "'h \<Rightarrow> 'n list \<Rightarrow> bool"
    and put :: "'h \<Rightarrow> 'n \<Rightarrow> 'h"
    and get :: "'h \<Rightarrow> 'h \<times> 'n"
    and null :: "'n"
    and may_put :: "'n list \<Rightarrow> 'n \<Rightarrow> bool"
  assumes put_law: "rep h xs \<Longrightarrow> may_put xs n \<Longrightarrow> rep (put h n) (xs @ [n])"
    and get_law: "rep h (x # xs) \<Longrightarrow> snd (get h) = x \<and> rep (fst (get h)) xs"
    and get_null_law: "rep h [] \<Longrightarrow> get h = (h, null)"
begin

lemma put_all:
  assumes "rep h xs" and "\<And>us n vs. ns = us @ n # vs \<Longrightarrow> may_put (xs @ us) n"
  shows "rep (fold (\<lambda>n h. put h n) ns h) (xs @ ns)"
  using assms
proof (induction ns arbitrary: h xs)
  case Nil
  then show ?case by simp
next
  case (Cons n ns)
  have may: "may_put (xs @ us) m" if "n # ns = us @ m # vs" for us m vs
    using Cons.prems(2) that by blast
  have "rep (put h n) (xs @ [n])"
    by (rule put_law [OF Cons.prems(1)]) (use may [of "[]" n ns] in simp)
  then have "rep (fold (\<lambda>n h. put h n) ns (put h n)) ((xs @ [n]) @ ns)"
  proof (rule Cons.IH)
    fix us m vs
    assume "ns = us @ m # vs"
    then show "may_put ((xs @ [n]) @ us) m" using may [of "n # us" m vs] by simp
  qed
  then show ?case by simp
qed

lemma take_all: "rep h (xs @ ys) \<Longrightarrow>
    snd (take_n get (length xs) h) = xs \<and> rep (fst (take_n get (length xs) h)) ys"
proof (induction xs arbitrary: h)
  case Nil
  then show ?case by simp
next
  case (Cons x xs)
  then have "snd (get h) = x" "rep (fst (get h)) (xs @ ys)"
    using get_law by auto
  with Cons.IH show ?case by (auto simp: case_prod_beta Let_def)
qed

text \<open>Everything put on an empty queue comes out, once, in the order it went in.\<close>

lemma put_take_all:
  assumes "rep h []" and "\<And>us n vs. ns = us @ n # vs \<Longrightarrow> may_put us n"
  shows "snd (take_n get (length ns) (fold (\<lambda>n h. put h n) ns h)) = ns"
  using take_all [of "fold (\<lambda>n h. put h n) ns h" ns "[]"] put_all [of h "[]" ns] assms by simp

end

interpretation exec_fifo: fifo_queue "\<lambda>h xs. list_rep h l xs" "\<lambda>h n. AddTail h l n"
    "\<lambda>h. RemHead h l" 0 "linkable l" for l
  by unfold_locales (simp_all add: AddTail_rep RemHead_cons RemHead_nil)

subsection \<open>Properties\<close>

definition demo_list :: heap where
  "demo_list = AddTail (AddTail (NewList (\<lambda>_. 0) 16) 16 64) 16 96"

lemma demo_list_rep: "list_rep demo_list 16 [64, 96]"
proof -
  have "list_rep (AddTail (NewList (\<lambda>_. 0) 16) 16 64) 16 ([] @ [64])"
    by (rule AddTail_rep [OF NewList_rep]) (simp_all add: linkable_def list_cells_def)
  then have "list_rep demo_list 16 ([64] @ [96])"
    unfolding demo_list_def by (intro AddTail_rep) (simp_all add: linkable_def list_cells_def)
  then show ?thesis by simp
qed

text \<open>C8. Enqueue on a list ordered by falling priority terminates, keeps the order, adds exactly the
  node, puts it behind every queued node of the same priority (so equals leave in arrival
  order), and changes no cell outside the list and the node.\<close>

theorem Enqueue_orders:
  assumes "list_rep h l xs" "linkable l xs n" "pri_sorted pri xs"
  shows "\<exists>h' ys. Enqueue h pri l n = Some h' \<and> list_rep h' l ys \<and> pri_sorted pri ys \<and>
           set ys = insert n (set xs) \<and>
           (\<forall>k. filter (\<lambda>p. pri p = k) ys = filter (\<lambda>p. pri p = k) xs @ (if pri n = k then [n] else [])) \<and>
           (\<forall>a. a \<notin> set (list_cells l xs) \<union> {n, n + 8} \<longrightarrow> h' a = h a)"
  using Enqueue_refines [OF assms(1,2), of pri] abs_enqueue_sorted [OF assms(3)] abs_enqueue_fifo [OF assms(3)]
  by (auto simp: same_off_def intro!: exI [of _ "abs_enqueue pri n xs"])

theorem Enqueue_orders_witness:
  "\<exists>h' ys. Enqueue demo_list (\<lambda>a. if a = 64 then 1 else 0) 16 128 = Some h' \<and> list_rep h' 16 ys \<and>
     filter (\<lambda>p. (if p = 64 then 1 else 0 :: u8) = 0) ys = [96, 128]"
proof -
  have "linkable 16 [64, 96] 128" "pri_sorted (\<lambda>a. if a = 64 then 1 else 0) [64, 96]"
    by (simp_all add: linkable_def list_cells_def pri_sorted_def)
  then obtain h' ys where e: "Enqueue demo_list (\<lambda>a. if a = 64 then 1 else 0) 16 128 = Some h'" "list_rep h' 16 ys"
    "\<forall>k. filter (\<lambda>p. (if p = 64 then 1 else 0 :: u8) = k) ys =
         filter (\<lambda>p. (if p = 64 then 1 else 0) = k) [64, 96] @ (if (if (128 :: nat) = 64 then 1 else 0) = k then [128] else [])"
    using Enqueue_orders [OF demo_list_rep, of 128 "\<lambda>a. if a = 64 then 1 else 0"] by blast
  moreover have "filter (\<lambda>p. (if p = 64 then 1 else 0 :: u8) = 0) ys = [96, 128]"
    using e(3) [rule_format, of 0] by simp
  ultimately show ?thesis by blast
qed

text \<open>A message list is first in, first out: nodes appended to an empty list with AddTail come out of
  RemHead once each, in the order they went in, and RemHead of the drained list returns NULL.\<close>

theorem message_fifo:
  assumes "l \<noteq> 0" "\<forall>us n vs. ns = us @ n # vs \<longrightarrow> linkable l us n"
  shows "snd (take_n (\<lambda>h. RemHead h l) (length ns + 1) (fold (\<lambda>n h. AddTail h l n) ns (NewList h l))) = ns @ [0]"
proof -
  let ?h = "fold (\<lambda>n h. AddTail h l n) ns (NewList h l)" and ?get = "\<lambda>h. RemHead h l"
  have rep: "list_rep ?h l ([] @ ns)"
    by (rule exec_fifo.put_all [OF NewList_rep [OF assms(1)]]) (use assms(2) in auto)
  have split: "take_n ?get (k + 1) g = (fst (?get (fst (take_n ?get k g))),
      snd (take_n ?get k g) @ [snd (?get (fst (take_n ?get k g)))])" for k g
    by (induction k arbitrary: g) (auto simp: Let_def case_prod_beta)
  have t: "snd (take_n ?get (length ns) ?h) = ns \<and> list_rep (fst (take_n ?get (length ns) ?h)) l []"
    using exec_fifo.take_all [of ?h l ns "[]"] rep by simp
  then have "?get (fst (take_n ?get (length ns) ?h)) = (fst (take_n ?get (length ns) ?h), 0)"
    using RemHead_nil by blast
  then show ?thesis using t split [of "length ns" ?h] by simp
qed

theorem message_fifo_witness:
  "snd (take_n (\<lambda>h. RemHead h 16) 3 (fold (\<lambda>n h. AddTail h 16 n) [64, 96] (NewList (\<lambda>_. 0) 16))) = [64, 96, 0]"
proof -
  have "\<forall>us n vs. [64, 96] = us @ n # vs \<longrightarrow> linkable 16 us n"
    by (auto simp: Cons_eq_append_conv linkable_def list_cells_def)
  then show ?thesis using message_fifo [of 16 "[64, 96]" "\<lambda>_. 0"]
    by (simp del: take_n.simps fold_simps add: numeral_3_eq_3)
qed

end
