(* ===== verification/ExecMem.thy ===== *)
theory ExecMem
  imports ArosPrelude "HOL-Library.Multiset"
begin

text \<open>
  The exec memory allocator of \<open>hosted/mem.c\<close>: a \<open>MemHeader\<close> over one region, with an
  address-ordered singly linked list of free \<open>MemChunk\<close>s (\<open>mc_Next\<close> at byte 0, \<open>mc_Bytes\<close>
  at byte 8). The list head \<open>mh_First\<close> is itself a pointer cell, so the code can treat its
  address as the chunk before the first one; the model does the same. Sizes are 64-bit
  words, and the rounding wraps as \<open>uintptr_t\<close> does.
\<close>

record mem_header =
  mem_cells :: heap
  mh_First :: addr  \<comment> \<open>the address of the \<open>mh_First\<close> field\<close>
  mh_Lower :: addr
  mh_Upper :: addr
  mh_Free :: nat

definition MEMCHUNK_TOTAL :: u64 where "MEMCHUNK_TOTAL = 16"
definition MEMF_CLEAR :: u64 where "MEMF_CLEAR = push_bit 16 1"
definition MEMF_REVERSE :: u64 where "MEMF_REVERSE = push_bit 18 1"

definition ROUNDUP :: "u64 \<Rightarrow> u64 \<Rightarrow> u64" where
  "ROUNDUP x a = (x + a - 1) AND NOT (a - 1)"

subsection \<open>Allocate\<close>

text \<open>The search loop: \<open>mc\<close> is the predecessor of the chunk found so far, 0 for none.\<close>

partial_function (option) alloc_scan ::
    "heap \<Rightarrow> nat \<Rightarrow> bool \<Rightarrow> addr \<Rightarrow> addr \<Rightarrow> addr \<Rightarrow> addr option" where
  "alloc_scan h byteSize reverse p1 p2 mc =
     (if p2 = 0 then Some mc
      else if byteSize \<le> h (p2 + 8)
      then (if \<not> reverse then Some p1 else alloc_scan h byteSize reverse p2 (h p2) p1)
      else alloc_scan h byteSize reverse p2 (h p2) mc)"

text \<open>Unlinking or splitting the chunk after \<open>p1\<close>.\<close>

definition alloc_take :: "heap \<Rightarrow> nat \<Rightarrow> addr \<Rightarrow> heap" where
  "alloc_take h byteSize p1 =
     (let p2 = h p1 in
      if h (p2 + 8) = byteSize then h(p1 := h p2)
      else let rem = p2 + byteSize;
               h1 = h(p1 := rem);
               h2 = h1(rem := h1 p2)
           in h2(rem + 8 := h2 (p2 + 8) - byteSize))"

definition mem_zero :: "addr \<Rightarrow> nat \<Rightarrow> heap \<Rightarrow> heap" where
  "mem_zero p n h = (\<lambda>a. if p \<le> a \<and> a < p + n then 0 else h a)"

definition Allocate :: "mem_header \<Rightarrow> u64 \<Rightarrow> u64 \<Rightarrow> (mem_header \<times> addr) option" where
  "Allocate mh sz flags =
     (if sz = 0 then Some (mh, 0)
      else let byteSize = unat (ROUNDUP sz MEMCHUNK_TOTAL); h = mem_cells mh; p1 = mh_First mh in
        if mh_Free mh < byteSize then Some (mh, 0)
        else case alloc_scan h byteSize (flags AND MEMF_REVERSE \<noteq> 0) p1 (h p1) 0 of
          None \<Rightarrow> None
        | Some mc \<Rightarrow>
            if mc = 0 then Some (mh, 0)
            else let r = h mc;
                     h1 = alloc_take h byteSize mc;
                     h2 = (if flags AND MEMF_CLEAR \<noteq> 0 then mem_zero r byteSize h1 else h1)
                 in Some (mh\<lparr>mem_cells := h2, mh_Free := mh_Free mh - byteSize\<rparr>, r))"

subsection \<open>Deallocate\<close>

text \<open>The search for the first chunk above the block; \<open>None\<close> inside is the overlap report.\<close>

partial_function (option) dealloc_scan ::
    "heap \<Rightarrow> addr \<Rightarrow> addr \<Rightarrow> addr \<Rightarrow> addr \<Rightarrow> (addr \<times> addr) option option" where
  "dealloc_scan h p3 p4 p1 p2 =
     (if p3 \<le> p2 then (if p2 < p4 then Some None else Some (Some (p1, p2)))
      else if h p2 = 0 then Some (Some (p2, 0))
      else dealloc_scan h p3 p4 p2 (h p2))"

definition dealloc_merge :: "mem_header \<Rightarrow> addr \<Rightarrow> nat \<Rightarrow> addr \<Rightarrow> addr \<Rightarrow> mem_header \<times> int" where
  "dealloc_merge mh p3 byteSize p1 p2 =
     (let h = mem_cells mh; p4 = p3 + byteSize in
      if p1 \<noteq> mh_First mh \<and> p3 < p1 + h (p1 + 8) then (mh, 0)
      else
        let (h1, p3') = (if p1 \<noteq> mh_First mh \<and> p1 + h (p1 + 8) = p3 then (h, p1) else (h(p1 := p3), p3));
            (p4', p2') = (if p4 = p2 \<and> p2 \<noteq> 0 then (p4 + h1 (p2 + 8), h1 p2) else (p4, p2));
            h2 = h1(p3' := p2');
            h3 = h2(p3' + 8 := p4' - p3')
        in (mh\<lparr>mem_cells := h3, mh_Free := (mh_Free mh + byteSize) mod 2 ^ 64\<rparr>, 1))"

definition Deallocate :: "mem_header \<Rightarrow> addr \<Rightarrow> u64 \<Rightarrow> (mem_header \<times> int) option" where
  "Deallocate mh a sz =
     (if a = 0 \<or> sz = 0 then Some (mh, 1)
      else let byteSize = unat (ROUNDUP (sz + of_nat (a mod 16)) MEMCHUNK_TOTAL);
               p3 = a - a mod 16;
               h = mem_cells mh; p1 = mh_First mh; p2 = h p1
           in
        if p2 = 0 then
          Some (mh\<lparr>mem_cells := (h(p3 + 8 := byteSize, p3 := 0))(p1 := p3),
                   mh_Free := (mh_Free mh + byteSize) mod 2 ^ 64\<rparr>, 1)
        else case dealloc_scan h p3 (p3 + byteSize) p1 p2 of
          None \<Rightarrow> None
        | Some None \<Rightarrow> Some (mh, 0)
        | Some (Some (q1, q2)) \<Rightarrow> Some (dealloc_merge mh p3 byteSize q1 q2))"

definition mh_Init :: "mem_header \<Rightarrow> addr \<Rightarrow> u64 \<Rightarrow> mem_header" where
  "mh_Init mh base len =
     (let len' = unat (len AND NOT (MEMCHUNK_TOTAL - 1)) in
      mh\<lparr>mh_Lower := base, mh_Upper := base + len',
         mem_cells := (mem_cells mh)(mh_First mh := base, base := 0, base + 8 := len'),
         mh_Free := len'\<rparr>)"

subsection \<open>Rounding\<close>

lemma unat_and_not15: "unat (x AND NOT (15 :: u64)) = unat x - unat x mod 16"
  using unat_and_not_mask [of x 4] by (simp add: mask_eq_exp_minus_1)

lemma unat_ROUNDUP:
  "unat (ROUNDUP x MEMCHUNK_TOTAL) = (unat x + 15) mod 2 ^ 64 - (unat x + 15) mod 2 ^ 64 mod 16"
proof -
  have e: "x + 16 - 1 = x + 15" "(16 :: u64) - 1 = 15" by simp_all
  have "unat (x + 15) = (unat x + 15) mod 2 ^ 64"
    by (simp add: unat_word_ariths)
  then show ?thesis
    unfolding ROUNDUP_def MEMCHUNK_TOTAL_def e unat_and_not15 by (simp only:)
qed

text \<open>Short of the top 15 sizes, rounding is up to the next multiple of 16.\<close>

lemma ROUNDUP_16:
  assumes "unat x + 15 < 2 ^ 64"
  shows "16 dvd unat (ROUNDUP x MEMCHUNK_TOTAL)" "unat x \<le> unat (ROUNDUP x MEMCHUNK_TOTAL)"
    "unat (ROUNDUP x MEMCHUNK_TOTAL) < unat x + 16"
proof -
  have e: "unat (ROUNDUP x MEMCHUNK_TOTAL) = (unat x + 15) - (unat x + 15) mod 16"
    unfolding unat_ROUNDUP using assms by simp
  show "16 dvd unat (ROUNDUP x MEMCHUNK_TOTAL)" unfolding e by (rule dvd_minus_mod)
  show "unat x \<le> unat (ROUNDUP x MEMCHUNK_TOTAL)" unfolding e
    using mod_less_divisor [of 16 "unat x + 15"] by linarith
  show "unat (ROUNDUP x MEMCHUNK_TOTAL) < unat x + 16" unfolding e by linarith
qed

subsection \<open>The free list as chunks\<close>

type_synonym chunk = "nat \<times> nat"

fun chpath :: "heap \<Rightarrow> addr \<Rightarrow> chunk list \<Rightarrow> bool" where
  "chpath h p [] = True"
| "chpath h p ((a, s) # cs) = (h p = a \<and> h (a + 8) = s \<and> a \<noteq> 0 \<and> chpath h a cs)"

definition lastp :: "addr \<Rightarrow> chunk list \<Rightarrow> addr" where
  "lastp p cs = last (p # map fst cs)"

definition chunks :: "heap \<Rightarrow> addr \<Rightarrow> chunk list \<Rightarrow> bool" where
  "chunks h p cs \<longleftrightarrow> chpath h p cs \<and> h (lastp p cs) = 0"

text \<open>Address order, 16-byte granularity, a gap after every chunk (full coalescing).\<close>

fun ok_chunks :: "nat \<Rightarrow> nat \<Rightarrow> chunk list \<Rightarrow> bool" where
  "ok_chunks lo hi [] = True"
| "ok_chunks lo hi ((a, s) # cs) =
     (lo \<le> a \<and> 16 dvd a \<and> 16 dvd s \<and> 0 < s \<and> a + s \<le> hi \<and> ok_chunks (a + s + 1) hi cs)"

definition free_bytes :: "chunk list \<Rightarrow> nat set" where
  "free_bytes cs = (\<Union>(a, s)\<in>set cs. {a..<a + s})"

definition mem_rep :: "mem_header \<Rightarrow> chunk list \<Rightarrow> bool" where
  "mem_rep mh cs \<longleftrightarrow>
     chunks (mem_cells mh) (mh_First mh) cs \<and> ok_chunks (mh_Lower mh) (mh_Upper mh) cs \<and>
     mh_Free mh = sum_list (map snd cs) \<and> 0 < mh_Lower mh \<and> mh_First mh \<noteq> 0 \<and>
     mh_First mh \<notin> {mh_Lower mh..<mh_Upper mh} \<and> mh_Upper mh < 2 ^ 64"

lemma lastp_simps [simp]:
  "lastp p [] = p" "lastp p ((a, s) # cs) = lastp a cs"
  by (auto simp: lastp_def)

lemma lastp_snoc [simp]: "lastp p (cs @ [c]) = fst c"
  by (simp add: lastp_def)

lemma chpath_append:
  "chpath h p (us @ vs) \<longleftrightarrow> chpath h p us \<and> chpath h (lastp p us) vs"
  by (induction h p us rule: chpath.induct) auto

lemma lastp_append: "lastp p (us @ vs) = lastp (lastp p us) vs"
  by (cases vs rule: rev_cases) (simp_all add: lastp_def)

lemma chunks_append:
  "chunks h p (us @ vs) \<longleftrightarrow> chpath h p us \<and> chunks h (lastp p us) vs"
  by (simp add: chunks_def chpath_append lastp_append)

lemma chunks_Cons:
  "chunks h p ((a, s) # cs) \<longleftrightarrow> h p = a \<and> h (a + 8) = s \<and> a \<noteq> 0 \<and> chunks h a cs"
  by (auto simp: chunks_def)

lemma chunks_next: "chunks h p cs \<Longrightarrow> h p = (case cs of [] \<Rightarrow> 0 | (a, s) # _ \<Rightarrow> a)"
  by (auto simp: chunks_def split: list.splits)

lemma chpath_cong:
  "chpath h p cs \<Longrightarrow> (\<And>a. a \<in> set (butlast (p # map fst cs)) \<Longrightarrow> h' a = h a) \<Longrightarrow>
   (\<And>a. a \<in> fst ` set cs \<Longrightarrow> h' (a + 8) = h (a + 8)) \<Longrightarrow> chpath h' p cs"
proof (induction cs arbitrary: p)
  case (Cons c cs)
  obtain a s where c: "c = (a, s)" by (cases c)
  have "chpath h' a cs"
  proof (rule Cons.IH)
    show "chpath h a cs" using Cons.prems(1) by (simp add: c)
    show "h' x = h x" if "x \<in> set (butlast (a # map fst cs))" for x
      by (rule Cons.prems(2)) (use that in \<open>simp add: c\<close>)
    show "h' (x + 8) = h (x + 8)" if "x \<in> fst ` set cs" for x
      by (rule Cons.prems(3)) (use that in \<open>simp add: c\<close>)
  qed
  moreover have "h' p = h p" by (rule Cons.prems(2)) (simp add: c)
  moreover have "h' (a + 8) = h (a + 8)" by (rule Cons.prems(3)) (simp add: c)
  ultimately show ?case using Cons.prems(1) by (simp add: c)
qed simp

lemma chunks_cong:
  assumes "chunks h p cs" and "\<And>a. a \<in> insert p (fst ` set cs) \<Longrightarrow> h' a = h a"
    and "\<And>a. a \<in> fst ` set cs \<Longrightarrow> h' (a + 8) = h (a + 8)"
  shows "chunks h' p cs"
proof -
  have "chpath h' p cs"
    by (rule chpath_cong [where h = h])
       (use assms in \<open>auto simp: chunks_def dest!: in_set_butlastD split: if_splits\<close>)
  moreover have "lastp p cs \<in> insert p (fst ` set cs)"
    by (cases cs rule: rev_cases) auto
  then have "h' (lastp p cs) = h (lastp p cs)" by (rule assms(2))
  ultimately show ?thesis using assms(1) by (simp add: chunks_def)
qed

subsection \<open>Ordered, coalesced chunk lists\<close>

lemma ok_chunks_mono: "ok_chunks lo hi cs \<Longrightarrow> lo' \<le> lo \<Longrightarrow> ok_chunks lo' hi cs"
  by (cases cs) auto

lemma ok_chunks_bound:
  "ok_chunks lo hi cs \<Longrightarrow> (a, s) \<in> set cs \<Longrightarrow>
   lo \<le> a \<and> 16 dvd a \<and> 16 dvd s \<and> 16 \<le> s \<and> a + s \<le> hi"
proof (induction lo hi cs rule: ok_chunks.induct)
  case (2 lo hi b t cs)
  then show ?case by (auto dest: dvd_imp_le)
qed simp

lemma ok_chunks_append:
  "ok_chunks lo hi (us @ vs) \<longleftrightarrow>
   ok_chunks lo hi us \<and> ok_chunks (if us = [] then lo else fst (last us) + snd (last us) + 1) hi vs"
  by (induction us arbitrary: lo) (auto split: prod.splits)

lemma ok_chunks_before:
  assumes "ok_chunks lo hi (us @ (a, s) # vs)" "(b, t) \<in> set us"
  shows "b + t < a"
  using assms
proof (induction us arbitrary: lo)
  case (Cons c us)
  obtain d r where c: "c = (d, r)" by (cases c)
  show ?case
  proof (cases "c = (b, t)")
    case True
    then have "ok_chunks (b + t + 1) hi (us @ (a, s) # vs)" using Cons.prems by simp
    then show ?thesis by (auto dest: ok_chunks_bound [where a = a and s = s])
  next
    case False
    then show ?thesis using Cons c by auto
  qed
qed simp

lemma ok_chunks_after:
  assumes "ok_chunks lo hi (us @ (a, s) # vs)" "(b, t) \<in> set vs"
  shows "a + s < b"
  using assms ok_chunks_bound [of "a + s + 1" hi vs b t] by (auto simp: ok_chunks_append)

lemma free_bytes_simps [simp]:
  "free_bytes [] = {}" "free_bytes ((a, s) # cs) = {a..<a + s} \<union> free_bytes cs"
  "free_bytes (us @ vs) = free_bytes us \<union> free_bytes vs"
  by (auto simp: free_bytes_def)

lemma free_bytes_lower: "ok_chunks lo hi cs \<Longrightarrow> x \<in> free_bytes cs \<Longrightarrow> lo \<le> x \<and> x < hi"
  by (fastforce simp: free_bytes_def dest: ok_chunks_bound)

text \<open>A set of free bytes has one coalesced, ordered description.\<close>

lemma ok_chunks_unique:
  "ok_chunks lo hi cs \<Longrightarrow> ok_chunks lo' hi' ds \<Longrightarrow> free_bytes cs = free_bytes ds \<Longrightarrow> cs = ds"
proof (induction cs arbitrary: lo lo' ds)
  case Nil
  then show ?case by (cases ds) auto
next
  case (Cons c cs)
  obtain a s where c: "c = (a, s)" by (cases c)
  have "free_bytes ds \<noteq> {}" using Cons.prems c by auto
  then obtain b t ds' where ds: "ds = (b, t) # ds'" by (cases ds) auto
  have cs: "x \<in> free_bytes cs \<Longrightarrow> a + s < x" for x
    using Cons.prems(1) free_bytes_lower [of "a + s + 1" hi cs x] by (auto simp: c)
  have ds': "x \<in> free_bytes ds' \<Longrightarrow> b + t < x" for x
    using Cons.prems(2) free_bytes_lower [of "b + t + 1" hi' ds' x] by (auto simp: ds)
  have eq: "{a..<a + s} \<union> free_bytes cs = {b..<b + t} \<union> free_bytes ds'"
    using Cons.prems(3) by (simp add: c ds)
  have pos: "0 < s" "0 < t" using Cons.prems by (auto simp: c ds)
  have "a \<in> {b..<b + t} \<union> free_bytes ds'" "b \<in> {a..<a + s} \<union> free_bytes cs"
    using pos unfolding eq [symmetric] by auto (use eq pos in auto)
  then have "a = b" using cs [of b] ds' [of a] by fastforce
  have "a + s \<notin> {b..<b + t} \<union> free_bytes ds'" "b + t \<notin> {a..<a + s} \<union> free_bytes cs"
    using cs [of "a + s"] ds' [of "b + t"] unfolding eq [symmetric] by auto (use eq ds' in auto)
  moreover have "x \<in> {a..<a + s} \<union> free_bytes cs \<longleftrightarrow> x \<in> {b..<b + t} \<union> free_bytes ds'" for x
    using eq by blast
  ultimately have "s = t"
    using \<open>a = b\<close> cs ds' by (metis UnI1 atLeastLessThan_iff le_add1 linorder_neqE_nat
        nat_add_left_cancel_less)
  then have "free_bytes cs = free_bytes ds'"
    using eq \<open>a = b\<close> cs ds' by (auto simp: set_eq_iff) (metis atLeastLessThan_iff not_less_iff_gr_or_eq)+
  then have "cs = ds'"
    using Cons.IH [of "a + s + 1" "b + t + 1" ds'] Cons.prems by (simp add: c ds)
  then show ?case using \<open>a = b\<close> \<open>s = t\<close> by (simp add: c ds)
qed

subsection \<open>Changing the cells around a chunk list\<close>

lemma chunk_cells:
  assumes "ok_chunks lo hi cs" "(a, s) \<in> set cs"
  shows "a \<in> free_bytes cs" "a + 8 \<in> free_bytes cs" "8 + a \<in> free_bytes cs"
proof -
  have "16 \<le> s" using ok_chunks_bound [OF assms] by simp
  then have "{a, a + 8} \<subseteq> {a..<a + s}" by auto
  also have "\<dots> \<subseteq> free_bytes cs" using assms(2) by (auto simp: free_bytes_def)
  finally show "a \<in> free_bytes cs" "a + 8 \<in> free_bytes cs" "8 + a \<in> free_bytes cs"
    by (auto simp: add.commute)
qed

lemma ok_chunks_distinct: "ok_chunks lo hi cs \<Longrightarrow> distinct (map fst cs)"
proof (induction lo hi cs rule: ok_chunks.induct)
  case (2 lo hi a s cs)
  then have "(a, t) \<notin> set cs" for t
    using ok_chunks_bound [of "a + s + 1" hi cs a t] by auto
  then show ?case using 2 by auto
qed simp

lemma chpath_prefix:
  assumes "chpath h p us" and ok: "ok_chunks lo hi us" and p: "p \<notin> free_bytes us"
    and h': "\<And>x. x \<in> insert p (free_bytes us) \<Longrightarrow> x \<noteq> lastp p us \<Longrightarrow> h' x = h x"
  shows "chpath h' p us"
proof (rule chpath_cong [OF assms(1)])
  have "distinct (p # map fst us)"
    using ok_chunks_distinct [OF ok] chunk_cells(1) [OF ok] p by (auto simp: image_iff)
  then have l: "lastp p us \<notin> set (butlast (p # map fst us))"
    unfolding lastp_def using append_butlast_last_id [of "p # map fst us"]
    by (metis distinct_append disjoint_iff list.distinct(1) list.set_intros(1))
  show "h' x = h x" if "x \<in> set (butlast (p # map fst us))" for x
  proof (rule h')
    show "x \<noteq> lastp p us" using l that by auto
    show "x \<in> insert p (free_bytes us)"
      using in_set_butlastD [OF that] chunk_cells(1) [OF ok] by auto
  qed
next
  show "h' (x + 8) = h (x + 8)" if xin: "x \<in> fst ` set us" for x
  proof (rule h')
    obtain c where "c \<in> set us" "x = fst c" using xin by blast
    then have xs: "(x, snd c) \<in> set us" by simp
    show "x + 8 \<in> insert p (free_bytes us)" using chunk_cells(2) [OF ok xs] by simp
    show "x + 8 \<noteq> lastp p us"
    proof (cases us rule: rev_cases)
      case Nil
      then show ?thesis using xin by simp
    next
      case (snoc vs c)
      then have "c \<in> set us" by simp
      then have "16 dvd fst c" "16 dvd x"
        using ok_chunks_bound [OF ok, of "fst c" "snd c"] ok_chunks_bound [OF ok xs] by auto
      then have "x + 8 \<noteq> fst c" by presburger
      then show ?thesis by (simp add: snoc)
    qed
  qed
qed

lemma chunks_suffix:
  assumes "chunks h q vs" and ok: "ok_chunks lo hi vs" and "h' q' = h q"
    and "\<And>x. x \<in> free_bytes vs \<Longrightarrow> h' x = h x"
  shows "chunks h' q' vs"
proof (cases vs)
  case Nil
  then show ?thesis using assms by (simp add: chunks_def)
next
  case (Cons c vs')
  obtain a s where c: "c = (a, s)" by (cases c)
  have "chunks h' a vs'"
  proof (rule chunks_cong)
    show "chunks h a vs'" using assms(1) by (simp add: Cons c chunks_Cons)
    have m: "\<exists>t. (x, t) \<in> set vs" if "x \<in> insert a (fst ` set vs')" for x
      using that by (auto simp: Cons c)
    show "h' x = h x" if "x \<in> insert a (fst ` set vs')" for x
      using m [OF that] chunk_cells(1) [OF ok] assms(4) by blast
    show "h' (x + 8) = h (x + 8)" if "x \<in> fst ` set vs'" for x
      using m [of x] that chunk_cells(2) [OF ok] assms(4) by blast
  qed
  moreover have "h' (a + 8) = s" "h' q' = a" "a \<noteq> 0"
    using assms chunk_cells(2) [OF ok, of a s] by (auto simp: Cons c chunks_Cons)
  ultimately show ?thesis by (simp add: Cons c chunks_Cons)
qed

lemma lastp_cases: "lastp p us = p \<and> us = [] \<or> lastp p us \<in> fst ` set us"
  by (cases us rule: rev_cases) auto

subsection \<open>Allocate: the search\<close>

text \<open>The chunk \<open>Allocate\<close> takes: the first that is large enough, or the last for
  \<open>MEMF_REVERSE\<close>, with the chunks before and after it.\<close>

fun pick_fit :: "bool \<Rightarrow> nat \<Rightarrow> chunk list \<Rightarrow> (chunk list \<times> chunk \<times> chunk list) option" where
  "pick_fit r n [] = None"
| "pick_fit r n (c # cs) =
     (if n \<le> snd c \<and> (\<not> r \<or> pick_fit r n cs = None) then Some ([], c, cs)
      else map_option (\<lambda>(us, x, vs). (c # us, x, vs)) (pick_fit r n cs))"

lemma pick_fit_split: "pick_fit r n cs = Some (us, c, vs) \<Longrightarrow> cs = us @ c # vs \<and> n \<le> snd c"
  by (induction cs arbitrary: us) (auto split: if_splits)

lemma pick_fit_None: "pick_fit r n cs = None \<longleftrightarrow> (\<forall>c\<in>set cs. snd c < n)"
  by (induction cs) auto

lemma pick_fit_first: "pick_fit False n cs = Some (us, c, vs) \<Longrightarrow> \<forall>d\<in>set us. snd d < n"
  by (induction cs arbitrary: us) (fastforce split: if_splits)+

lemma pick_fit_last: "pick_fit True n cs = Some (us, c, vs) \<Longrightarrow> \<forall>d\<in>set vs. snd d < n"
  by (induction cs arbitrary: us) (auto simp: pick_fit_None split: if_splits)

lemma alloc_scan_pick:
  "chunks h p cs \<Longrightarrow>
   alloc_scan h n r p (h p) mc = Some (case pick_fit r n cs of None \<Rightarrow> mc | Some (us, _, _) \<Rightarrow> lastp p us)"
proof (induction cs arbitrary: p mc)
  case Nil
  then show ?case by (subst alloc_scan.simps) (simp add: chunks_def)
next
  case (Cons c cs)
  obtain a s where c: "c = (a, s)" by (cases c)
  have ch: "h p = a" "h (a + 8) = s" "a \<noteq> 0" "chunks h a cs"
    using Cons.prems by (auto simp: c chunks_Cons)
  show ?case
    using Cons.IH [OF ch(4)]
    by (subst alloc_scan.simps) (auto simp: c ch split: option.splits)
qed

lemma chunks_same:
  assumes "chunks h p cs" "ok_chunks lo hi cs" "\<And>x. x \<in> insert p (free_bytes cs) \<Longrightarrow> h' x = h x"
  shows "chunks h' p cs"
  by (rule chunks_suffix [OF assms(1,2)]) (use assms(3) in auto)

subsection \<open>Allocate: refinement\<close>

definition carve :: "nat \<Rightarrow> chunk \<Rightarrow> chunk list" where
  "carve n c = (if snd c = n then [] else [(fst c + n, snd c - n)])"

definition abs_alloc :: "bool \<Rightarrow> nat \<Rightarrow> chunk list \<Rightarrow> chunk list \<times> addr" where
  "abs_alloc r n cs = (case pick_fit r n cs of
      None \<Rightarrow> (cs, 0)
    | Some (us, c, vs) \<Rightarrow> (us @ carve n c @ vs, fst c))"

lemma lastp_outside:
  assumes "ok_chunks lo hi (us @ (a, s) # vs)" "p \<notin> {lo..<hi}"
  shows "lastp p us \<notin> {a..<a + s}" "lastp p us \<notin> free_bytes vs"
proof -
  have a: "lo \<le> a" "a + s \<le> hi" using ok_chunks_bound [OF assms(1), of a s] by auto
  have "lastp p us < a \<or> lastp p us \<notin> {lo..<hi}"
    using lastp_cases [of p us] ok_chunks_before [OF assms(1)] assms(2) by fastforce
  moreover have "x \<in> free_bytes vs \<Longrightarrow> a + s < x \<and> x < hi" for x
    using free_bytes_lower [of "a + s + 1" hi vs x] assms(1) by (auto simp: ok_chunks_append)
  ultimately show "lastp p us \<notin> {a..<a + s}" "lastp p us \<notin> free_bytes vs"
    using a by fastforce+
qed

lemma ok_chunks_parts:
  assumes "ok_chunks lo hi (us @ (a, s) # vs)"
  shows "ok_chunks lo hi us" "ok_chunks (a + s + 1) hi vs"
    "free_bytes us \<inter> {a..<a + s} = {}" "free_bytes us \<inter> free_bytes vs = {}"
    "free_bytes vs \<inter> {a..<a + s} = {}"
proof -
  show us: "ok_chunks lo hi us" and vs: "ok_chunks (a + s + 1) hi vs"
    using assms by (auto simp: ok_chunks_append)
  have u: "x \<in> free_bytes us \<Longrightarrow> x < a" for x
    using ok_chunks_before [OF assms] by (fastforce simp: free_bytes_def)
  have v: "x \<in> free_bytes vs \<Longrightarrow> a + s < x" for x
    using free_bytes_lower [OF vs] by force
  show "free_bytes us \<inter> {a..<a + s} = {}" using u by fastforce
  show "free_bytes us \<inter> free_bytes vs = {}" using u v by fastforce
  show "free_bytes vs \<inter> {a..<a + s} = {}" using v by fastforce
qed

lemma chunks_replace:
  assumes ok: "ok_chunks lo hi (us @ (a, s) # vs)" and ch: "chunks h p (us @ (a, s) # vs)"
    and p: "p \<notin> {lo..<hi}"
    and h': "\<And>x. x \<noteq> lastp p us \<Longrightarrow> x \<notin> {a..<a + s} \<Longrightarrow> h' x = h x"
    and ws: "chunks h' (lastp p us) (ws @ vs)"
  shows "chunks h' p (us @ ws @ vs)"
proof -
  note parts = ok_chunks_parts [OF ok]
  have "chpath h' p us"
  proof (rule chpath_prefix [OF _ parts(1)])
    show "chpath h p us" using ch by (simp add: chunks_append)
    show "p \<notin> free_bytes us" using p free_bytes_lower [OF parts(1), of p] by auto
    show "h' x = h x" if "x \<in> insert p (free_bytes us)" "x \<noteq> lastp p us" for x
      using that parts(3) p ok_chunks_bound [OF ok, of a s] by (intro h') auto
  qed
  then show ?thesis using ws by (simp add: chunks_append)
qed

lemma alloc_take_chunks:
  assumes ok: "ok_chunks lo hi (us @ (a, s) # vs)" and ch: "chunks h p (us @ (a, s) # vs)"
    and p: "p \<notin> {lo..<hi}" and n: "16 dvd n" "0 < n" "n \<le> s"
  defines "h' \<equiv> alloc_take h n (lastp p us)"
  shows "chunks h' p (us @ carve n (a, s) @ vs)"
    and "\<And>x. x \<noteq> lastp p us \<Longrightarrow> x \<notin> {a..<a + s} \<Longrightarrow> h' x = h x"
proof -
  note parts = ok_chunks_parts [OF ok] and out = lastp_outside [OF ok p]
  have h: "h (lastp p us) = a" "h (a + 8) = s" "a \<noteq> 0" "chunks h a vs"
    using ch by (auto simp: chunks_append chunks_Cons)
  have s: "16 dvd s" "0 < s" using ok_chunks_bound [OF ok, of a s] by auto
  have big: "n + 16 \<le> s" if "s \<noteq> n"
    using n s that by (metis dvd_diff_nat dvd_imp_le le_neq_implies_less less_diff_conv
        nat_add_left_cancel_le le_add_diff_inverse zero_less_diff)
  have frame: "h' x = h x" if "x \<noteq> lastp p us" "x \<notin> {a..<a + s}" for x
    using that big n h by (auto simp: h'_def alloc_take_def Let_def)
  have "chunks h' (lastp p us) (carve n (a, s) @ vs)"
  proof (cases "s = n")
    case True
    have "chunks h' (lastp p us) vs"
    proof (rule chunks_suffix [OF h(4) parts(2)])
      show "h' (lastp p us) = h a" using True by (simp add: h'_def alloc_take_def Let_def h)
      show "h' x = h x" if "x \<in> free_bytes vs" for x
        using that out(2) parts(5) by (intro frame) auto
    qed
    then show ?thesis using True by (simp add: carve_def)
  next
    case False
    then have big: "n + 16 \<le> s" by (rule big)
    have ne: "lastp p us \<noteq> a" "lastp p us \<noteq> a + n" "lastp p us \<noteq> a + n + 8" "lastp p us \<noteq> a + 8"
      using out(1) big n by auto
    have "chunks h' (a + n) vs"
    proof (rule chunks_suffix [OF h(4) parts(2)])
      show "h' (a + n) = h a"
        using False ne by (simp add: h'_def alloc_take_def Let_def h)
      show "h' x = h x" if "x \<in> free_bytes vs" for x
        using that out(2) parts(5) by (intro frame) auto
    qed
    moreover have "h' (lastp p us) = a + n" "h' (a + n + 8) = s - n"
      using False ne n h by (auto simp: h'_def alloc_take_def Let_def)
    ultimately show ?thesis using False h(3) by (simp add: carve_def chunks_Cons)
  qed
  with frame show "chunks h' p (us @ carve n (a, s) @ vs)"
    by (intro chunks_replace [OF ok ch p])
  show "\<And>x. x \<noteq> lastp p us \<Longrightarrow> x \<notin> {a..<a + s} \<Longrightarrow> h' x = h x" by (rule frame)
qed

lemma ok_chunks_carve:
  assumes "ok_chunks lo hi (us @ (a, s) # vs)" "16 dvd n" "0 < n" "n \<le> s"
  shows "ok_chunks lo hi (us @ carve n (a, s) @ vs)"
    and "free_bytes (us @ carve n (a, s) @ vs) = free_bytes (us @ (a, s) # vs) - {a..<a + n}"
    and "sum_list (map snd (us @ carve n (a, s) @ vs)) = sum_list (map snd (us @ (a, s) # vs)) - n"
proof -
  note parts = ok_chunks_parts [OF assms(1)]
  show "ok_chunks lo hi (us @ carve n (a, s) @ vs)"
    using assms ok_chunks_mono [OF parts(2)]
    by (auto simp: ok_chunks_append carve_def dvd_diff_nat split: if_splits)
  have "{a..<a + s} = {a..<a + n} \<union> {a + n..<a + s}" using assms(4) by auto
  then show "free_bytes (us @ carve n (a, s) @ vs) = free_bytes (us @ (a, s) # vs) - {a..<a + n}"
    using parts(3,5) assms(4) by (auto simp: carve_def)
  show "sum_list (map snd (us @ carve n (a, s) @ vs)) = sum_list (map snd (us @ (a, s) # vs)) - n"
    using assms(4) by (simp add: carve_def)
qed

definition mem_wf :: "mem_header \<Rightarrow> bool" where
  "mem_wf mh \<longleftrightarrow> 0 < mh_Lower mh \<and> mh_First mh \<noteq> 0 \<and>
     mh_First mh \<notin> {mh_Lower mh..<mh_Upper mh} \<and> mh_Upper mh < 2 ^ 64"

lemma mem_repI:
  "mem_wf mh \<Longrightarrow> chunks (mem_cells mh) (mh_First mh) cs \<Longrightarrow>
   ok_chunks (mh_Lower mh) (mh_Upper mh) cs \<Longrightarrow> mh_Free mh = sum_list (map snd cs) \<Longrightarrow> mem_rep mh cs"
  by (simp add: mem_rep_def mem_wf_def)

lemma mem_repD:
  assumes "mem_rep mh cs"
  shows "mem_wf mh" "chunks (mem_cells mh) (mh_First mh) cs"
    "ok_chunks (mh_Lower mh) (mh_Upper mh) cs" "mh_Free mh = sum_list (map snd cs)"
  using assms by (auto simp: mem_rep_def mem_wf_def)

lemma pick_fit_Free:
  assumes "sum_list (map snd cs) < n"
  shows "pick_fit r n cs = None"
proof -
  have "snd c \<le> sum_list (map snd cs)" if "c \<in> set cs" for c
    using that by (simp add: member_le_sum_list)
  then show ?thesis using assms by (fastforce simp: pick_fit_None)
qed

definition same_region :: "mem_header \<Rightarrow> mem_header \<Rightarrow> bool" where
  "same_region mh mh' \<longleftrightarrow>
     mh_First mh' = mh_First mh \<and> mh_Lower mh' = mh_Lower mh \<and> mh_Upper mh' = mh_Upper mh"

lemma Allocate_refines:
  fixes flags :: u64
  assumes rep: "mem_rep mh cs" and sz: "sz \<noteq> 0" "unat sz + 15 < 2 ^ 64"
  defines "n \<equiv> unat (ROUNDUP sz MEMCHUNK_TOTAL)"
  defines "ab \<equiv> abs_alloc (flags AND MEMF_REVERSE \<noteq> 0) n cs"
  shows "\<exists>mh'. Allocate mh sz flags = Some (mh', snd ab) \<and> mem_rep mh' (fst ab) \<and> same_region mh mh' \<and>
           (\<forall>x. x \<noteq> mh_First mh \<longrightarrow> x \<notin> free_bytes cs \<longrightarrow> mem_cells mh' x = mem_cells mh x) \<and>
           (snd ab \<noteq> 0 \<longrightarrow> flags AND MEMF_CLEAR \<noteq> 0 \<longrightarrow>
              (\<forall>x\<in>{snd ab..<snd ab + n}. mem_cells mh' x = 0))"
proof -
  note rep' = mem_repD [OF rep]
  note n = ROUNDUP_16 [OF sz(2), folded n_def]
  have n0: "0 < n" using sz(1) n(2) by (metis gr0I le_zero_eq unat_eq_zero)
  let ?h = "mem_cells mh" and ?p = "mh_First mh" and ?r = "flags AND MEMF_REVERSE \<noteq> 0"
  have p: "?p \<notin> {mh_Lower mh..<mh_Upper mh}" using rep'(1) by (simp add: mem_wf_def)
  show ?thesis
  proof (cases "pick_fit ?r n cs")
    case None
    then have "Allocate mh sz flags = Some (mh, 0)"
      using sz(1) by (simp add: Allocate_def n_def [symmetric] Let_def alloc_scan_pick [OF rep'(2)])
    then show ?thesis using None rep by (auto simp: ab_def abs_alloc_def same_region_def)
  next
    case (Some t)
    then obtain us a s vs where pick: "pick_fit ?r n cs = Some (us, (a, s), vs)"
      by (cases t) auto
    have cs: "cs = us @ (a, s) # vs" and fit: "n \<le> s" using pick_fit_split [OF pick] by auto
    note ok = rep'(3)[unfolded cs] and ch = rep'(2)[unfolded cs]
    have free: "\<not> mh_Free mh < n" using pick_fit_Free [of cs n ?r] pick rep'(4) by auto
    let ?m = "lastp ?p us"
    have m: "?h ?m = a" "a \<noteq> 0" using ch by (auto simp: chunks_append chunks_Cons)
    have m0: "?m \<noteq> 0"
      using lastp_cases [of ?p us] rep'(1) ok_chunks_bound [OF ok] by (fastforce simp: mem_wf_def)
    define h1 where "h1 = alloc_take ?h n ?m"
    define h2 where "h2 = (if flags AND MEMF_CLEAR \<noteq> 0 then mem_zero a n h1 else h1)"
    define mh' where "mh' = mh\<lparr>mem_cells := h2, mh_Free := mh_Free mh - n\<rparr>"
    have A: "Allocate mh sz flags = Some (mh', a)"
      using sz(1) free m0
      by (simp add: Allocate_def n_def [symmetric] Let_def alloc_scan_pick [OF rep'(2)] pick m
          h1_def h2_def mh'_def)
    have ab: "ab = (us @ carve n (a, s) @ vs, a)" by (simp add: ab_def abs_alloc_def pick)
    note t = alloc_take_chunks [OF ok ch p n(1) n0 fit, folded h1_def]
    note c = ok_chunks_carve [OF ok n(1) n0 fit]
    have ain: "{a..<a + s} \<subseteq> free_bytes cs" "{a..<a + n} \<subseteq> {a..<a + s}"
      using fit by (auto simp: cs)
    have bnd: "{a..<a + s} \<subseteq> {mh_Lower mh..<mh_Upper mh}" using ok_chunks_bound [OF ok, of a s] by auto
    have h2: "h2 x = h1 x" if "x \<notin> {a..<a + n}" for x
      using that by (auto simp: h2_def mem_zero_def)
    have "chunks h2 ?p (us @ carve n (a, s) @ vs)"
    proof (rule chunks_same [OF t(1) c(1)])
      show "h2 x = h1 x" if "x \<in> insert ?p (free_bytes (us @ carve n (a, s) @ vs))" for x
        using that p bnd ain(2) unfolding c(2) by (intro h2) auto
    qed
    then have "mem_rep mh' (fst ab)"
      using rep'(1,4) c(1,3) by (intro mem_repI) (auto simp: mh'_def mem_wf_def ab cs)
    moreover have "mem_cells mh' x = ?h x" if "x \<noteq> ?p" "x \<notin> free_bytes cs" for x
    proof -
      have "x \<noteq> ?m"
        using lastp_cases [of ?p us] that chunk_cells(1) [OF ok_chunks_parts(1) [OF ok]] by (auto simp: cs)
      moreover have "x \<notin> {a..<a + s}" "x \<notin> {a..<a + n}" using that(2) ain by blast+
      ultimately show ?thesis using t(2) [of x] h2 [of x] by (simp add: mh'_def)
    qed
    moreover have "\<forall>x\<in>{a..<a + n}. mem_cells mh' x = 0" if "flags AND MEMF_CLEAR \<noteq> 0"
      using that by (simp add: mh'_def h2_def mem_zero_def)
    ultimately show ?thesis using A by (auto simp: ab same_region_def mh'_def)
  qed
qed

lemma abs_alloc_cases:
  assumes "ok_chunks lo hi cs" "0 < lo" "16 dvd n" "0 < n"
  obtains "\<forall>c\<in>set cs. snd c < n" "abs_alloc r n cs = (cs, 0)"
  | ds a where "abs_alloc r n cs = (ds, a)" "a \<noteq> 0" "16 dvd a" "lo \<le> a" "a + n \<le> hi"
      "{a..<a + n} \<subseteq> free_bytes cs" "ok_chunks lo hi ds" "free_bytes ds = free_bytes cs - {a..<a + n}"
proof (cases "pick_fit r n cs")
  case None
  then have "abs_alloc r n cs = (cs, 0)" by (simp add: abs_alloc_def)
  with None show ?thesis using that(1) by (simp add: pick_fit_None)
next
  case (Some t)
  then obtain us a s vs where pick: "pick_fit r n cs = Some (us, (a, s), vs)" by (cases t) auto
  have cs: "cs = us @ (a, s) # vs" and fit: "n \<le> s" using pick_fit_split [OF pick] by auto
  have b: "lo \<le> a" "16 dvd a" "a + s \<le> hi" using ok_chunks_bound [OF assms(1), of a s] by (auto simp: cs)
  note c = ok_chunks_carve [OF assms(1)[unfolded cs] assms(3,4) fit]
  have ab: "abs_alloc r n cs = (us @ carve n (a, s) @ vs, a)" by (simp add: abs_alloc_def pick)
  have a: "a \<noteq> 0" "a + n \<le> hi" "{a..<a + n} \<subseteq> free_bytes cs" using b assms(2) fit by (auto simp: cs)
  show ?thesis by (rule that(2) [OF ab a(1) b(2,1) a(2,3) c(1) c(2)[folded cs]])
qed

subsection \<open>Deallocate: the search\<close>

definition below :: "addr \<Rightarrow> chunk list \<Rightarrow> chunk list" where
  "below p3 cs = takeWhile (\<lambda>c. fst c < p3) cs"

definition above :: "addr \<Rightarrow> chunk list \<Rightarrow> chunk list" where
  "above p3 cs = dropWhile (\<lambda>c. fst c < p3) cs"

definition head_addr :: "chunk list \<Rightarrow> addr" where
  "head_addr cs = (case cs of [] \<Rightarrow> 0 | c # _ \<Rightarrow> fst c)"

lemma chunks_head: "chunks h p cs \<Longrightarrow> h p = head_addr cs"
  by (auto simp: chunks_def head_addr_def split: list.splits)

lemma dealloc_scan_split:
  "chunks h p1 cs \<Longrightarrow> cs \<noteq> [] \<Longrightarrow>
   dealloc_scan h p3 p4 p1 (h p1) =
     Some (if above p3 cs \<noteq> [] \<and> head_addr (above p3 cs) < p4 then None
           else Some (lastp p1 (below p3 cs), head_addr (above p3 cs)))"
proof (induction cs arbitrary: p1)
  case (Cons c cs)
  obtain a s where c: "c = (a, s)" by (cases c)
  have ch: "h p1 = a" "a \<noteq> 0" "chunks h a cs" using Cons.prems(1) by (auto simp: c chunks_Cons)
  show ?case
  proof (cases "p3 \<le> a")
    case True
    then show ?thesis
      by (subst dealloc_scan.simps) (auto simp: c ch below_def above_def head_addr_def)
  next
    case lt: False
    show ?thesis
    proof (cases cs)
      case Nil
      then show ?thesis using lt ch
        by (subst dealloc_scan.simps) (auto simp: c ch below_def above_def head_addr_def chunks_def)
    next
      case (Cons d ds)
      then have "h a \<noteq> 0" using ch(3) by (cases d) (auto simp: chunks_Cons)
      then show ?thesis using lt ch Cons.IH [OF ch(3)] Cons
        by (subst dealloc_scan.simps) (auto simp: c below_def above_def)
    qed
  qed
qed simp

subsection \<open>Deallocate: the coalescing insert\<close>

definition join_left :: "addr \<Rightarrow> chunk list \<Rightarrow> chunk list \<times> addr" where
  "join_left p3 us = (if us \<noteq> [] \<and> fst (last us) + snd (last us) = p3
                      then (butlast us, fst (last us)) else (us, p3))"

definition join_right :: "addr \<Rightarrow> chunk list \<Rightarrow> addr \<times> chunk list" where
  "join_right p4 vs = (case vs of [] \<Rightarrow> (p4, [])
                       | c # vs' \<Rightarrow> if fst c = p4 then (p4 + snd c, vs') else (p4, vs))"

definition abs_insert :: "addr \<Rightarrow> nat \<Rightarrow> chunk list \<Rightarrow> chunk list" where
  "abs_insert p3 n cs =
     (let (us', a) = join_left p3 (below p3 cs); (e, vs') = join_right (p3 + n) (above p3 cs)
      in us' @ (a, e - a) # vs')"

definition clear_of :: "addr \<Rightarrow> nat \<Rightarrow> chunk list \<Rightarrow> bool" where
  "clear_of p3 n cs \<longleftrightarrow> {p3..<p3 + n} \<inter> free_bytes cs = {}"

lemma below_above: "below p3 cs @ above p3 cs = cs"
  by (simp add: below_def above_def)

lemma below_mem: "c \<in> set (below p3 cs) \<Longrightarrow> fst c < p3"
  by (auto simp: below_def dest: set_takeWhileD)

lemma above_head: "above p3 cs = c # vs \<Longrightarrow> p3 \<le> fst c"
  using hd_dropWhile [of "\<lambda>c. fst c < p3" cs] by (auto simp: above_def)

lemma clear_of_bounds:
  assumes ok: "ok_chunks lo hi cs" and n: "0 < n"
  shows "clear_of p3 n cs \<longleftrightarrow>
     (below p3 cs \<noteq> [] \<longrightarrow> fst (last (below p3 cs)) + snd (last (below p3 cs)) \<le> p3) \<and>
     (above p3 cs \<noteq> [] \<longrightarrow> p3 + n \<le> head_addr (above p3 cs))" (is "?l \<longleftrightarrow> ?r")
proof
  assume ?l
  have cs: "below p3 cs @ above p3 cs = cs" by (rule below_above)
  have fb: "free_bytes cs = free_bytes (below p3 cs) \<union> free_bytes (above p3 cs)"
    by (metis cs free_bytes_simps(3))
  show ?r
  proof (intro conjI impI)
    assume ne: "below p3 cs \<noteq> []"
    obtain a s where l: "last (below p3 cs) = (a, s)" by (cases "last (below p3 cs)")
    then have in_us: "(a, s) \<in> set (below p3 cs)" using ne by (metis last_in_set)
    then have "a < p3" "{a..<a + s} \<subseteq> free_bytes cs"
      using below_mem [OF in_us] unfolding fb by (auto simp: free_bytes_def)
    moreover have "p3 \<in> {p3..<p3 + n}" using n by simp
    ultimately have "p3 \<notin> {a..<a + s}" using \<open>?l\<close> unfolding clear_of_def by blast
    then have "\<not> p3 < a + s" using \<open>a < p3\<close> by simp
    then show "fst (last (below p3 cs)) + snd (last (below p3 cs)) \<le> p3" by (simp add: l)
  next
    assume "above p3 cs \<noteq> []"
    then obtain a s vs where v: "above p3 cs = (a, s) # vs" by (cases "above p3 cs") auto
    have "p3 \<le> a" using above_head [OF v] by simp
    moreover have "(a, s) \<in> set cs" using arg_cong [OF cs, of set] by (auto simp: v)
    then have "a \<in> free_bytes cs" by (rule chunk_cells(1) [OF ok])
    ultimately show "p3 + n \<le> head_addr (above p3 cs)"
      using \<open>?l\<close> by (auto simp: clear_of_def disjoint_iff v head_addr_def)
  qed
next
  assume ?r
  have cs: "below p3 cs @ above p3 cs = cs" by (rule below_above)
  have "x \<notin> {p3..<p3 + n}" if "x \<in> free_bytes cs" for x
  proof -
    consider "x \<in> free_bytes (below p3 cs)" | "x \<in> free_bytes (above p3 cs)"
      using \<open>x \<in> free_bytes cs\<close> by (metis cs free_bytes_simps(3) UnE)
    then show ?thesis
    proof cases
      case 1
      then obtain us a s where us: "below p3 cs = us @ [(a, s)]"
        by (cases "below p3 cs" rule: rev_cases) auto
      then have "a + s \<le> p3" using \<open>?r\<close> by auto
      moreover have "ok_chunks lo hi (us @ [(a, s)])" using ok cs us by (metis ok_chunks_append)
      then have "x < a + s" using 1 ok_chunks_before [of lo hi us a s "[]"]
        unfolding us free_bytes_def by fastforce
      ultimately show ?thesis by simp
    next
      case 2
      then obtain a s vs where v: "above p3 cs = (a, s) # vs" by (cases "above p3 cs") auto
      then have "p3 + n \<le> a" using \<open>?r\<close> by (auto simp: head_addr_def)
      moreover have "ok_chunks lo hi (below p3 cs @ (a, s) # vs)" using ok cs v by metis
      then have "ok_chunks a hi ((a, s) # vs)" by (auto simp: ok_chunks_append)
      then have "a \<le> x" using 2 free_bytes_lower unfolding v by blast
      ultimately show ?thesis by simp
    qed
  qed
  then show ?l by (auto simp: clear_of_def)
qed

lemma join_left_cases:
  obtains us' where "join_left p3 us = (us', p3)" "us' = us"
      "us \<noteq> [] \<Longrightarrow> fst (last us) + snd (last us) \<noteq> p3"
  | us' a s where "join_left p3 us = (us', a)" "us = us' @ [(a, s)]" "a + s = p3"
proof (cases "us \<noteq> [] \<and> fst (last us) + snd (last us) = p3")
  case True
  then have "us = butlast us @ [(fst (last us), snd (last us))]" by simp
  then show ?thesis using that(2) [of "butlast us" "fst (last us)" "snd (last us)"] True
    by (simp add: join_left_def)
next
  case False
  show ?thesis by (rule that(1) [of us]) (use False in \<open>auto simp: join_left_def\<close>)
qed

lemma join_right_cases:
  obtains "join_right p4 vs = (p4, vs)" "vs \<noteq> [] \<Longrightarrow> head_addr vs \<noteq> p4"
  | t vs' where "join_right p4 vs = (p4 + t, vs')" "vs = (p4, t) # vs'"
proof (cases vs)
  case Nil
  then show ?thesis using that(1) by (simp add: join_right_def)
next
  case (Cons c vs')
  show ?thesis
  proof (cases "fst c = p4")
    case True
    then show ?thesis using that(2) [of "snd c" vs'] Cons by (cases c) (simp add: join_right_def)
  next
    case False
    then show ?thesis using that(1) Cons by (simp add: join_right_def head_addr_def)
  qed
qed

lemma ok_chunks_drop: "ok_chunks lo hi (us @ vs) \<Longrightarrow> ok_chunks lo hi vs"
  by (induction lo hi us rule: ok_chunks.induct) (auto intro: ok_chunks_mono)

text \<open>The inserted list is again ordered and coalesced and describes the old free bytes
  together with the block.\<close>

lemma abs_insert_ok:
  assumes ok: "ok_chunks lo hi cs" and cl: "clear_of p3 n cs"
    and b: "lo \<le> p3" "p3 + n \<le> hi" "16 dvd p3" "16 dvd n" "0 < n"
  shows "ok_chunks lo hi (abs_insert p3 n cs)"
    and "free_bytes (abs_insert p3 n cs) = free_bytes cs \<union> {p3..<p3 + n}"
    and "sum_list (map snd (abs_insert p3 n cs)) = sum_list (map snd cs) + n"
proof -
  define us where "us = below p3 cs"
  define vs where "vs = above p3 cs"
  have cs: "cs = us @ vs" by (simp add: us_def vs_def below_above)
  have le: "us \<noteq> [] \<Longrightarrow> fst (last us) + snd (last us) \<le> p3"
      "vs \<noteq> [] \<Longrightarrow> p3 + n \<le> head_addr vs"
    using clear_of_bounds [OF ok b(5), THEN iffD1, OF cl] unfolding us_def vs_def by blast+
  have okuv: "ok_chunks lo hi us" "ok_chunks lo hi vs"
    using ok ok_chunks_drop [OF ok [unfolded cs]] unfolding cs by (auto simp: ok_chunks_append)
  have L: "ok_chunks lo hi (us' @ [(a, p3 + n - a)]) \<and> free_bytes (us' @ [(a, p3 + n - a)]) = free_bytes us \<union> {p3..<p3 + n}
      \<and> sum_list (map snd (us' @ [(a, p3 + n - a)])) = sum_list (map snd us) + n \<and> a \<le> p3"
    if "join_left p3 us = (us', a)" for us' a
    using that
  proof (cases rule: join_left_cases [of p3 us])
    case (1 us'')
    then have "us' = us" "a = p3" using that by auto
    then show ?thesis using okuv(1) le(1) b 1(3) by (auto simp: ok_chunks_append)
  next
    case (2 us'' a' s)
    then have e: "us = us' @ [(a, s)]" "a + s = p3" using that by auto
    then have "{a..<p3 + n} = {a..<a + s} \<union> {p3..<p3 + n}" by auto
    then show ?thesis using okuv(1) b e by (auto simp: ok_chunks_append dvd_diff_nat)
  qed
  obtain us' a where jl: "join_left p3 us = (us', a)" by (cases "join_left p3 us")
  obtain e vs' where jr: "join_right (p3 + n) vs = (e, vs')" by (cases "join_right (p3 + n) vs")
  have new: "abs_insert p3 n cs = us' @ (a, e - a) # vs'"
    by (simp add: abs_insert_def us_def [symmetric] vs_def [symmetric] jl jr)
  note L = L [OF jl]
  have R: "p3 + n \<le> e \<and> e \<le> hi \<and> 16 dvd e \<and> ok_chunks (e + 1) hi vs' \<and>
      {p3 + n..<e} \<union> free_bytes vs' = free_bytes vs \<and>
      sum_list (map snd vs') + e = sum_list (map snd vs) + p3 + n"
  proof (cases rule: join_right_cases [of "p3 + n" vs])
    case 1
    then have e: "e = p3 + n" "vs' = vs" using jr by auto
    have "ok_chunks (p3 + n + 1) hi vs"
      using 1(2) le(2) okuv(2) by (cases vs) (auto simp: head_addr_def)
    then show ?thesis using b by (auto simp: e)
  next
    case (2 t ws)
    then have "e = p3 + n + t" "vs' = ws" using jr by auto
    then show ?thesis using okuv(2) 2 b by auto
  qed
  have cs2: "free_bytes cs = free_bytes us \<union> free_bytes vs"
    "sum_list (map snd cs) = sum_list (map snd us) + sum_list (map snd vs)" by (simp_all add: cs)
  have split: "{a..<e} = {a..<p3 + n} \<union> {p3 + n..<e}" using L R b by auto
  show "ok_chunks lo hi (abs_insert p3 n cs)"
    using L R b unfolding new by (auto simp: ok_chunks_append dvd_diff_nat split: if_splits)
  show "free_bytes (abs_insert p3 n cs) = free_bytes cs \<union> {p3..<p3 + n}"
    using L R split b unfolding new cs2 by auto
  show "sum_list (map snd (abs_insert p3 n cs)) = sum_list (map snd cs) + n"
    using L R b unfolding new cs2 by auto
qed

lemma dealloc_merge_eq:
  assumes ch: "chunks h p (us @ vs)" and ok: "ok_chunks lo hi (us @ vs)" and p: "p \<notin> {lo..<hi}"
    and h: "h = mem_cells mh" "p = mh_First mh"
    and jl: "join_left p3 us = (us', a)" and jr: "join_right (p3 + n) vs = (e, vs')"
    and le: "us \<noteq> [] \<Longrightarrow> fst (last us) + snd (last us) \<le> p3" "0 < p3"
    and q: "q \<notin> {a..<e}" "q = lastp p us'" and ae: "a \<le> p3" "p3 + n + 16 \<le> e \<or> vs = vs'"
  defines "x \<equiv> if vs = vs' then lastp p us else head_addr vs"
  defines "h3 \<equiv> (h(q := a))(a := h x, a + 8 := e - a)"
  shows "dealloc_merge mh p3 n (lastp p us) (head_addr vs) =
           (mh\<lparr>mem_cells := h3, mh_Free := (mh_Free mh + n) mod 2 ^ 64\<rparr>, 1)"
proof -
  have us: "lastp p us = p \<longleftrightarrow> us = []"
  proof
    assume l: "lastp p us = p"
    show "us = []"
    proof (rule ccontr)
      assume "us \<noteq> []"
      then obtain s where "(p, s) \<in> set us" using l lastp_cases [of p us] by auto
      then show False using ok_chunks_bound [OF ok, of p s] p by simp
    qed
  qed simp
  have last: "h (lastp p us + 8) = snd (last us) \<and> fst (last us) = lastp p us" if ne: "us \<noteq> []"
  proof -
    obtain ws a s where "us = ws @ [(a, s)]" using ne by (cases us rule: rev_cases) auto
    then show ?thesis using ch by (simp add: chunks_append chpath_append chunks_Cons)
  qed
  have hd: "h (lastp p us) = head_addr vs" using ch by (auto simp: chunks_append dest: chunks_head)
  define h1 where "h1 = h(q := a)"
  have left: "(if lastp p us \<noteq> p \<and> lastp p us + h (lastp p us + 8) = p3 then (h, lastp p us)
               else (h(lastp p us := p3), p3)) = (h1, a)"
  proof (cases rule: join_left_cases [of p3 us])
    case (1 us'')
    then have "us' = us" "a = p3" using jl by auto
    then show ?thesis using us last 1(3) q(2) by (auto simp: h1_def)
  next
    case (2 us'' a' s)
    then have e: "us = us' @ [(a, s)]" "a + s = p3" using jl by auto
    moreover have "h q = a" using ch e q(2) by (simp add: chunks_append chpath_append chunks_Cons)
    ultimately show ?thesis using us last by (auto simp: h1_def fun_upd_idem)
  qed
  have right: "(if p3 + n = head_addr vs \<and> head_addr vs \<noteq> 0
                then (p3 + n + h1 (head_addr vs + 8), h1 (head_addr vs))
                else (p3 + n, head_addr vs)) = (e, h x)"
  proof (cases rule: join_right_cases [of "p3 + n" vs])
    case 1
    then have "e = p3 + n" "vs' = vs" using jr by auto
    then show ?thesis using 1(2) hd by (cases vs) (auto simp: x_def head_addr_def)
  next
    case (2 t ws)
    then have e: "e = p3 + n + t" "vs = (p3 + n, t) # vs'" using jr by auto
    then have "h (p3 + n + 8) = t" using ch by (simp add: chunks_append chunks_Cons)
    moreover have "q \<noteq> p3 + n" "q \<noteq> p3 + n + 8" using q(1) ae e by auto
    ultimately show ?thesis using e le(2) by (auto simp: x_def head_addr_def h1_def)
  qed
  have guard: "(lastp p us \<noteq> p \<and> p3 < lastp p us + h (lastp p us + 8)) = False"
    using us last le(1) by auto
  show ?thesis
    by (simp only: dealloc_merge_def h(1) [symmetric] h(2) [symmetric] Let_def guard prod.case if_False
        left [unfolded h1_def] right [unfolded h1_def] h3_def)
qed

lemma sum_chunks_le: "ok_chunks lo hi cs \<Longrightarrow> cs = [] \<or> lo + sum_list (map snd cs) \<le> hi"
  by (induction lo hi cs rule: ok_chunks.induct) auto

lemma dealloc_insert:
  assumes rep: "mem_rep mh cs" and cl: "clear_of p3 n cs"
    and b: "mh_Lower mh \<le> p3" "p3 + n \<le> mh_Upper mh" "16 dvd p3" "16 dvd n" "0 < n"
  shows "\<exists>mh'. dealloc_merge mh p3 n (lastp (mh_First mh) (below p3 cs)) (head_addr (above p3 cs)) = (mh', 1) \<and>
           mem_rep mh' (abs_insert p3 n cs) \<and> same_region mh mh' \<and>
           (\<forall>x. x \<noteq> mh_First mh \<longrightarrow> x \<notin> free_bytes cs \<union> {p3..<p3 + n} \<longrightarrow> mem_cells mh' x = mem_cells mh x)"
proof -
  note rep' = mem_repD [OF rep]
  let ?h = "mem_cells mh" and ?p = "mh_First mh" and ?lo = "mh_Lower mh" and ?hi = "mh_Upper mh"
  define us where "us = below p3 cs"
  define vs where "vs = above p3 cs"
  have cs: "cs = us @ vs" by (simp add: us_def vs_def below_above)
  note ok = rep'(3) and new = abs_insert_ok [OF rep'(3) cl b]
  have p: "?p \<notin> {?lo..<?hi}" "0 < ?lo" using rep'(1) by (auto simp: mem_wf_def)
  obtain us' a where jl: "join_left p3 us = (us', a)" by (cases "join_left p3 us")
  obtain e vs' where jr: "join_right (p3 + n) vs = (e, vs')" by (cases "join_right (p3 + n) vs")
  have ab: "abs_insert p3 n cs = us' @ (a, e - a) # vs'"
    by (simp add: abs_insert_def us_def [symmetric] vs_def [symmetric] jl jr)
  note ok' = new(1)[unfolded ab]
  have le: "us \<noteq> [] \<Longrightarrow> fst (last us) + snd (last us) \<le> p3" "vs \<noteq> [] \<Longrightarrow> p3 + n \<le> head_addr vs"
    using clear_of_bounds [OF ok b(5), THEN iffD1, OF cl] unfolding us_def vs_def by blast+
  have L: "a \<le> p3 \<and> (us' = us \<or> us = us' @ [(a, p3 - a)])"
    by (cases rule: join_left_cases [of p3 us]) (use jl in auto)
  have R: "(e = p3 + n \<and> vs' = vs) \<or> (\<exists>t. 16 \<le> t \<and> e = p3 + n + t \<and> vs = (p3 + n, t) # vs')"
  proof (cases rule: join_right_cases [of "p3 + n" vs])
    case 1
    then show ?thesis using jr by simp
  next
    case (2 t ws)
    moreover have "16 \<le> t" using ok_chunks_bound [OF ok [unfolded cs], of "p3 + n" t] 2 by simp
    ultimately show ?thesis using jr by simp
  qed
  define q where "q = lastp ?p us'"
  have q: "q \<notin> {a..<e}" "q \<notin> free_bytes vs'"
    using lastp_outside [OF ok' p(1)] L R b(5) by (auto simp: q_def)
  define x where "x = (if vs = vs' then lastp ?p us else head_addr vs)"
  define h3 where "h3 = (?h(q := a))(a := ?h x, a + 8 := e - a)"
  define mh' where "mh' = mh\<lparr>mem_cells := h3, mh_Free := (mh_Free mh + n) mod 2 ^ 64\<rparr>"
  have ch: "chunks ?h ?p (us @ vs)" using rep'(2) by (simp add: cs)
  have merge: "dealloc_merge mh p3 n (lastp ?p us) (head_addr vs) = (mh', 1)"
    unfolding mh'_def h3_def x_def
    by (rule dealloc_merge_eq [OF ch ok [unfolded cs] p(1) refl refl jl jr le(1) _ q(1) q_def])
       (use L R b p in auto)
  have big: "a + 16 \<le> e" using ok_chunks_bound [OF ok', of a "e - a"] by auto
  have frame: "h3 y = ?h y" if "y \<noteq> q" "y \<notin> {a..<e}" for y
    using that big by (auto simp: h3_def)
  have "chunks ?h x vs'" using ch R by (auto simp: x_def chunks_append chunks_Cons head_addr_def)
  then have "chunks h3 a vs'"
  proof (rule chunks_suffix)
    show "ok_chunks (a + (e - a) + 1) ?hi vs'" using ok_chunks_parts(2) [OF ok'] .
    show "h3 a = ?h x" using big by (simp add: h3_def)
    show "h3 y = ?h y" if "y \<in> free_bytes vs'" for y
      using that q(2) ok_chunks_parts(5) [OF ok'] big by (intro frame) auto
  qed
  moreover have "h3 q = a" "h3 (a + 8) = e - a" "a \<noteq> 0"
    using q(1) big p(2) ok_chunks_bound [OF ok', of a "e - a"] by (auto simp: h3_def)
  ultimately have "chunks h3 q ((a, e - a) # vs')" by (simp add: chunks_Cons)
  moreover have "chpath h3 ?p us'"
  proof (rule chpath_prefix [OF _ ok_chunks_parts(1) [OF ok']])
    show "chpath ?h ?p us'" using L ch by (auto simp: chunks_append chpath_append)
    show "?p \<notin> free_bytes us'" using p(1) free_bytes_lower [OF ok_chunks_parts(1) [OF ok'], of ?p] by auto
    show "h3 y = ?h y" if "y \<in> insert ?p (free_bytes us')" "y \<noteq> lastp ?p us'" for y
      using that ok_chunks_parts(3) [OF ok'] p(1) ok_chunks_bound [OF ok', of a "e - a"] big
      by (intro frame) (auto simp: q_def)
  qed
  ultimately have "chunks h3 ?p (us' @ (a, e - a) # vs')" by (simp add: chunks_append q_def)
  moreover have "mh_Free mh' = sum_list (map snd (abs_insert p3 n cs))"
    using sum_chunks_le [OF new(1)] new(3) rep'(1,4) by (auto simp: mh'_def mem_wf_def ab)
  ultimately have "mem_rep mh' (abs_insert p3 n cs)"
    using rep'(1) new(1) by (intro mem_repI) (auto simp: mh'_def mem_wf_def ab)
  moreover have "mem_cells mh' y = ?h y" if "y \<noteq> ?p" "y \<notin> free_bytes cs \<union> {p3..<p3 + n}" for y
  proof -
    have "y \<notin> free_bytes (us' @ (a, e - a) # vs')" using that(2) new(2) by (simp add: ab)
    moreover have "q \<in> insert ?p (free_bytes us')"
      using lastp_cases [of ?p us'] chunk_cells(1) [OF ok_chunks_parts(1) [OF ok']] by (auto simp: q_def)
    ultimately have "y \<noteq> q" "y \<notin> {a..<e}" using that(1) big by auto
    then show ?thesis using frame by (simp add: mh'_def)
  qed
  ultimately show ?thesis using merge
    by (auto simp: us_def [symmetric] vs_def [symmetric] same_region_def mh'_def)
qed

lemma Deallocate_refines:
  assumes rep: "mem_rep mh cs" and a: "a \<noteq> 0" "sz \<noteq> 0" "unat sz + a mod 16 + 15 < 2 ^ 64"
  defines "n \<equiv> unat (ROUNDUP (sz + of_nat (a mod 16)) MEMCHUNK_TOTAL)"
  defines "p3 \<equiv> a - a mod 16"
  assumes b: "mh_Lower mh \<le> p3" "p3 + n \<le> mh_Upper mh"
  shows "if clear_of p3 n cs
         then \<exists>mh'. Deallocate mh a sz = Some (mh', 1) \<and> mem_rep mh' (abs_insert p3 n cs) \<and> same_region mh mh'
         else Deallocate mh a sz = Some (mh, 0)"
proof -
  note rep' = mem_repD [OF rep]
  let ?h = "mem_cells mh" and ?p = "mh_First mh"
  have "a mod 16 < 16" by simp
  then have am: "a mod 16 < 2 ^ 64" by simp
  have u: "unat (sz + of_nat (a mod 16)) = unat sz + a mod 16"
    using am a(3) by (subst unat_word_ariths) (simp add: unat_of_nat)
  have n: "16 dvd n" "0 < n"
    using ROUNDUP_16 [of "sz + of_nat (a mod 16)"] a u unfolding n_def
    by (simp, metis add_is_0 bot_nat_0.not_eq_extremum le_zero_eq unat_eq_zero)
  have p3: "16 dvd p3" "p3 \<noteq> 0" using b(1) rep'(1) by (auto simp: p3_def mem_wf_def dvd_minus_mod)
  note defs = Deallocate_def Let_def n_def [symmetric] p3_def [symmetric]
  show ?thesis
  proof (cases "cs = []")
    case True
    then have c: "clear_of p3 n cs" by (simp add: clear_of_def)
    have h0: "?h ?p = 0" using rep'(2) True by (simp add: chunks_def)
    have "?p \<noteq> p3" "?p \<noteq> p3 + 8" using rep'(1) b n by (auto simp: mem_wf_def dest!: dvd_imp_le)
    then have "dealloc_merge mh p3 n ?p 0 =
        (mh\<lparr>mem_cells := (?h(p3 + 8 := n, p3 := 0))(?p := p3),
            mh_Free := (mh_Free mh + n) mod 2 ^ 64\<rparr>, 1)"
      by (auto simp: dealloc_merge_def Let_def fun_upd_twist)
    then show ?thesis
      using dealloc_insert [OF rep c b p3(1) n] c a h0
      by (auto simp: defs True below_def above_def head_addr_def)
  next
    case False
    then have h0: "?h ?p \<noteq> 0" using rep'(2) by (cases cs) (auto simp: chunks_Cons)
    let ?us = "below p3 cs" and ?vs = "above p3 cs"
    note scan = dealloc_scan_split [OF rep'(2) False, of p3 "p3 + n"]
    note cl = clear_of_bounds [OF rep'(3) n(2), of p3]
    show ?thesis
    proof (cases "clear_of p3 n cs")
      case True
      then have "\<not> (?vs \<noteq> [] \<and> head_addr ?vs < p3 + n)" using cl by auto
      then show ?thesis
        using dealloc_insert [OF rep True b p3(1) n] True a h0 scan by (auto simp: defs)
    next
      case ncl: False
      have ch: "chunks ?h ?p (?us @ ?vs)" using rep'(2) by (simp add: below_above)
      have "Deallocate mh a sz = Some (mh, 0)"
      proof (cases "?vs \<noteq> [] \<and> head_addr ?vs < p3 + n")
        case True
        then show ?thesis using a h0 scan by (simp add: defs)
      next
        case False
        then have us: "?us \<noteq> []" "p3 < fst (last ?us) + snd (last ?us)" using ncl cl by auto
        then obtain ws c s where w: "?us = ws @ [(c, s)]" by (cases ?us rule: rev_cases) auto
        have "(c, s) \<in> set cs" using arg_cong [OF below_above [of p3 cs], of set] by (auto simp: w)
        then have "c \<noteq> ?p" using ok_chunks_bound [OF rep'(3), of c s] rep'(1) by (auto simp: mem_wf_def)
        moreover have "?h (c + 8) = s" using ch by (simp add: w chunks_append chpath_append chunks_Cons)
        ultimately have "dealloc_merge mh p3 n (lastp ?p ?us) (head_addr ?vs) = (mh, 0)"
          using us(2) by (simp add: dealloc_merge_def Let_def w)
        then show ?thesis using False a h0 scan by (auto simp: defs)
      qed
      then show ?thesis using ncl by simp
    qed
  qed
qed

subsection \<open>The header, its checks and the system entry points\<close>

fun chunk_count_from :: "nat \<Rightarrow> heap \<Rightarrow> addr \<Rightarrow> nat option" where
  "chunk_count_from 0 h c = (if c = 0 then Some 0 else None)"
| "chunk_count_from (Suc f) h c = (if c = 0 then Some 0 else map_option Suc (chunk_count_from f h (h c)))"

fun free_sum_from :: "nat \<Rightarrow> heap \<Rightarrow> addr \<Rightarrow> nat option" where
  "free_sum_from 0 h c = (if c = 0 then Some 0 else None)"
| "free_sum_from (Suc f) h c =
     (if c = 0 then Some 0 else map_option (\<lambda>s. h (c + 8) + s) (free_sum_from f h (h c)))"

fun sane_from :: "nat \<Rightarrow> heap \<Rightarrow> nat \<Rightarrow> nat \<Rightarrow> nat \<Rightarrow> addr \<Rightarrow> bool option" where
  "sane_from 0 h lo hi prev_end c = (if c = 0 then Some True else None)"
| "sane_from (Suc f) h lo hi prev_end c =
     (if c = 0 then Some True
      else if c < lo \<or> hi < c + h (c + 8) then Some False
      else if c < prev_end then Some False
      else sane_from f h lo hi (c + h (c + 8)) (h c))"

definition freelist_sane :: "nat \<Rightarrow> mem_header \<Rightarrow> bool option" where
  "freelist_sane fuel mh =
     sane_from fuel (mem_cells mh) (mh_Lower mh) (mh_Upper mh) (mh_Lower mh) (mem_cells mh (mh_First mh))"

definition free_sum :: "nat \<Rightarrow> mem_header \<Rightarrow> nat option" where
  "free_sum fuel mh = free_sum_from fuel (mem_cells mh) (mem_cells mh (mh_First mh))"

definition chunk_count :: "nat \<Rightarrow> mem_header \<Rightarrow> nat option" where
  "chunk_count fuel mh = chunk_count_from fuel (mem_cells mh) (mem_cells mh (mh_First mh))"

lemma walk_checks:
  "chunks h p cs \<Longrightarrow> length cs \<le> f \<Longrightarrow> chunk_count_from f h (h p) = Some (length cs)"
  "chunks h p cs \<Longrightarrow> length cs \<le> f \<Longrightarrow> free_sum_from f h (h p) = Some (sum_list (map snd cs))"
  "chunks h p cs \<Longrightarrow> length cs \<le> f \<Longrightarrow> ok_chunks prev hi cs \<Longrightarrow> lo \<le> prev \<Longrightarrow>
   sane_from f h lo hi prev (h p) = Some True"
proof (induction cs arbitrary: p f prev)
  case Nil
  {
    case 1 then show ?case by (cases f) (auto simp: chunks_def)
  next
    case 2 then show ?case by (cases f) (auto simp: chunks_def)
  next
    case 3 then show ?case by (cases f) (auto simp: chunks_def)
  }
next
  case (Cons c cs)
  obtain a s where c: "c = (a, s)" by (cases c)
  {
    case 1 then show ?case by (cases f) (auto simp: c chunks_Cons Cons.IH(1))
  next
    case 2 then show ?case by (cases f) (auto simp: c chunks_Cons Cons.IH(2))
  next
    case 3
    then have ok: "ok_chunks (a + s) hi cs" by (auto simp: c intro: ok_chunks_mono)
    from 3 show ?case
      by (cases f) (use ok in \<open>auto simp: c chunks_Cons intro!: Cons.IH(3)\<close>)
  }
qed

lemma mh_Init_rep:
  fixes len :: u64
  defines "len' \<equiv> unat (len AND NOT 15)"
  assumes b: "16 dvd base" "0 < base" "mh_First mh \<noteq> 0" "mh_First mh \<notin> {base..<base + len'}"
    "base + len' < 2 ^ 64" "16 \<le> unat len"
  shows "mem_rep (mh_Init mh base len) [(base, len')]"
proof -
  have l: "len' = unat len - unat len mod 16" unfolding len'_def by (rule unat_and_not15)
  then have "16 dvd len'" "16 \<le> len'" using b(6) by (auto simp: dvd_minus_mod) presburger
  moreover have e: "(16 :: u64) - 1 = 15" by simp
  have "mh_Init mh base len = mh\<lparr>mh_Lower := base, mh_Upper := base + len',
      mem_cells := (mem_cells mh)(mh_First mh := base, base := 0, base + 8 := len'), mh_Free := len'\<rparr>"
    unfolding mh_Init_def MEMCHUNK_TOTAL_def e Let_def len'_def ..
  ultimately show ?thesis
    using b by (auto simp: mem_rep_def chunks_Cons chunks_def)
qed

subsection \<open>The allocator as an interface\<close>

text \<open>A run of requests (the ones that return 0 yield no block) and a run of releases.\<close>

fun alloc_seq :: "('s \<Rightarrow> u64 \<Rightarrow> ('s \<times> addr) option) \<Rightarrow> 's \<Rightarrow> u64 list \<Rightarrow> ('s \<times> (addr \<times> u64) list) option" where
  "alloc_seq al s [] = Some (s, [])"
| "alloc_seq al s (sz # szs) = (case al s sz of None \<Rightarrow> None
     | Some (s1, r) \<Rightarrow> map_option (\<lambda>(s2, bs). (s2, if r = 0 then bs else (r, sz) # bs)) (alloc_seq al s1 szs))"

fun free_seq :: "('s \<Rightarrow> addr \<Rightarrow> u64 \<Rightarrow> ('s \<times> int) option) \<Rightarrow> 's \<Rightarrow> (addr \<times> u64) list \<Rightarrow> ('s \<times> bool) option" where
  "free_seq de s [] = Some (s, True)"
| "free_seq de s ((r, sz) # bs) = (case de s r sz of None \<Rightarrow> None
     | Some (s1, ok) \<Rightarrow> map_option (\<lambda>(s2, b). (s2, ok = 1 \<and> b)) (free_seq de s1 bs))"

definition block :: "(u64 \<Rightarrow> nat) \<Rightarrow> addr \<times> u64 \<Rightarrow> nat set" where
  "block rnd b = {fst b..<fst b + rnd (snd b)}"

definition blocks :: "(u64 \<Rightarrow> nat) \<Rightarrow> (addr \<times> u64) list \<Rightarrow> nat set" where
  "blocks rnd bs = (\<Union>b\<in>set bs. block rnd b)"

fun disjoint_blocks :: "(u64 \<Rightarrow> nat) \<Rightarrow> (addr \<times> u64) list \<Rightarrow> bool" where
  "disjoint_blocks rnd [] = True"
| "disjoint_blocks rnd (b # bs) \<longleftrightarrow> block rnd b \<inter> blocks rnd bs = {} \<and> disjoint_blocks rnd bs"

lemma blocks_simps [simp]: "blocks rnd [] = {}" "blocks rnd (b # bs) = block rnd b \<union> blocks rnd bs"
  by (auto simp: blocks_def)

lemma disjoint_blocks_remove:
  assumes "disjoint_blocks rnd bs" "b \<in> set bs"
  shows "disjoint_blocks rnd (remove1 b bs) \<and> block rnd b \<inter> blocks rnd (remove1 b bs) = {} \<and>
         blocks rnd bs = block rnd b \<union> blocks rnd (remove1 b bs)"
  using assms
proof (induction bs)
  case (Cons c bs)
  show ?case
  proof (cases "c = b")
    case True
    then show ?thesis using Cons.prems by simp
  next
    case False
    then have "b \<in> set bs" using Cons.prems(2) by simp
    then show ?thesis using Cons False by auto
  qed
qed simp

lemma disjoint_blocks_perm:
  "disjoint_blocks rnd bs \<Longrightarrow> mset bs' = mset bs \<Longrightarrow> disjoint_blocks rnd bs'"
proof (induction bs' arbitrary: bs)
  case (Cons b bs')
  have b: "b \<in> set bs" using Cons.prems(2) by (metis list.set_intros(1) mset_eq_setD)
  then have m: "mset bs' = mset (remove1 b bs)" using Cons.prems(2)
    by (metis add_mset_remove_trivial mset.simps(2) mset_remove1)
  note r = disjoint_blocks_remove [OF Cons.prems(1) b]
  have "blocks rnd bs' = blocks rnd (remove1 b bs)"
    using mset_eq_setD [OF m] by (simp add: blocks_def)
  then show ?case using Cons.IH [OF _ m] r by simp
qed simp

locale allocator =
  fixes repr :: "'s \<Rightarrow> nat set \<Rightarrow> bool"
    and al :: "'s \<Rightarrow> u64 \<Rightarrow> ('s \<times> addr) option"
    and de :: "'s \<Rightarrow> addr \<Rightarrow> u64 \<Rightarrow> ('s \<times> int) option"
    and rnd :: "u64 \<Rightarrow> nat" and valid :: "u64 \<Rightarrow> bool" and owned :: "addr \<times> u64 \<Rightarrow> bool"
  assumes alloc_law: "repr s F \<Longrightarrow> valid sz \<Longrightarrow>
      \<exists>s' r. al s sz = Some (s', r) \<and>
        (if r = 0 then repr s' F
         else owned (r, sz) \<and> block rnd (r, sz) \<subseteq> F \<and> repr s' (F - block rnd (r, sz)))"
    and free_law: "repr s F \<Longrightarrow> owned (r, sz) \<Longrightarrow> block rnd (r, sz) \<inter> F = {} \<Longrightarrow>
      \<exists>s'. de s r sz = Some (s', 1) \<and> repr s' (F \<union> block rnd (r, sz))"
begin

lemma alloc_all:
  "repr s F \<Longrightarrow> \<forall>sz\<in>set szs. valid sz \<Longrightarrow>
   \<exists>s' bs. alloc_seq al s szs = Some (s', bs) \<and> repr s' (F - blocks rnd bs) \<and>
     blocks rnd bs \<subseteq> F \<and> disjoint_blocks rnd bs \<and> (\<forall>b\<in>set bs. owned b)"
proof (induction szs arbitrary: s F)
  case (Cons sz szs)
  obtain s1 r where a: "al s sz = Some (s1, r)"
    and ar: "if r = 0 then repr s1 F
             else owned (r, sz) \<and> block rnd (r, sz) \<subseteq> F \<and> repr s1 (F - block rnd (r, sz))"
    using alloc_law [OF Cons.prems(1)] Cons.prems(2) by fastforce
  show ?case
  proof (cases "r = 0")
    case True
    then show ?thesis using Cons.IH [of s1 F] Cons.prems(2) ar a by auto
  next
    case False
    let ?G = "F - block rnd (r, sz)"
    obtain s' bs where "alloc_seq al s1 szs = Some (s', bs)" "repr s' (?G - blocks rnd bs)"
      "blocks rnd bs \<subseteq> ?G" "disjoint_blocks rnd bs" "\<forall>b\<in>set bs. owned b"
      using Cons.IH [of s1 ?G] Cons.prems(2) ar False by auto
    moreover have "?G - blocks rnd bs = F - (block rnd (r, sz) \<union> blocks rnd bs)" by blast
    ultimately show ?thesis using a ar False by auto
  qed
qed simp

lemma free_all:
  "repr s F \<Longrightarrow> \<forall>b\<in>set bs. owned b \<Longrightarrow> disjoint_blocks rnd bs \<Longrightarrow> blocks rnd bs \<inter> F = {} \<Longrightarrow>
   \<exists>s'. free_seq de s bs = Some (s', True) \<and> repr s' (F \<union> blocks rnd bs)"
proof (induction bs arbitrary: s F)
  case (Cons b bs)
  obtain r sz where b: "b = (r, sz)" by (cases b)
  obtain s1 where s1: "de s r sz = Some (s1, 1)" "repr s1 (F \<union> block rnd b)"
    using free_law [OF Cons.prems(1), of r sz] Cons.prems(2,4) by (auto simp: b)
  obtain s' where "free_seq de s1 bs = Some (s', True)" "repr s' ((F \<union> block rnd b) \<union> blocks rnd bs)"
    using Cons.IH [OF s1(2)] Cons.prems(2-4) by auto
  moreover have "(F \<union> block rnd b) \<union> blocks rnd bs = F \<union> blocks rnd (b # bs)" by auto
  ultimately show ?case using s1 by (auto simp: b)
qed simp

end

text \<open>The law of a released block, for a block that is aligned and inside the region.\<close>

definition rounded :: "u64 \<Rightarrow> nat" where
  "rounded sz = unat (ROUNDUP sz MEMCHUNK_TOTAL)"

definition request_ok :: "u64 \<Rightarrow> bool" where
  "request_ok sz \<longleftrightarrow> sz \<noteq> 0 \<and> unat sz + 15 < 2 ^ 64"

definition mem_repr :: "nat \<Rightarrow> nat \<Rightarrow> addr \<Rightarrow> mem_header \<Rightarrow> nat set \<Rightarrow> bool" where
  "mem_repr lo hi p mh F \<longleftrightarrow>
     mh_Lower mh = lo \<and> mh_Upper mh = hi \<and> mh_First mh = p \<and> (\<exists>cs. mem_rep mh cs \<and> free_bytes cs = F)"

definition owned_block :: "nat \<Rightarrow> nat \<Rightarrow> addr \<times> u64 \<Rightarrow> bool" where
  "owned_block lo hi b \<longleftrightarrow> request_ok (snd b) \<and> 16 dvd fst b \<and> fst b \<noteq> 0 \<and> lo \<le> fst b \<and>
     fst b + rounded (snd b) \<le> hi"

lemma rounded_pos: "request_ok sz \<Longrightarrow> 16 dvd rounded sz \<and> 0 < rounded sz"
  unfolding request_ok_def rounded_def using ROUNDUP_16 [of sz]
  by (metis le_zero_eq neq0_conv unat_eq_zero)

lemma Allocate_law:
  assumes "mem_repr lo hi p mh F" "request_ok sz"
  shows "\<exists>mh' r. Allocate mh sz flags = Some (mh', r) \<and>
    (if r = 0 then mem_repr lo hi p mh' F
     else owned_block lo hi (r, sz) \<and> block rounded (r, sz) \<subseteq> F \<and> mem_repr lo hi p mh' (F - block rounded (r, sz)))"
proof -
  obtain cs where cs: "mem_rep mh cs" "free_bytes cs = F" and reg: "mh_Lower mh = lo" "mh_Upper mh = hi" "mh_First mh = p"
    using assms(1) by (auto simp: mem_repr_def)
  note rep' = mem_repD [OF cs(1)]
  have lo: "0 < lo" using rep'(1) reg by (simp add: mem_wf_def)
  have ok: "ok_chunks lo hi cs" using rep'(3) reg by simp
  have sz: "sz \<noteq> 0" "unat sz + 15 < 2 ^ 64" using assms(2) by (auto simp: request_ok_def)
  note n = rounded_pos [OF assms(2)]
  let ?r = "flags AND MEMF_REVERSE \<noteq> 0"
  obtain mh' where A: "Allocate mh sz flags = Some (mh', snd (abs_alloc ?r (rounded sz) cs))"
      "mem_rep mh' (fst (abs_alloc ?r (rounded sz) cs))" "same_region mh mh'"
    using Allocate_refines [OF cs(1) sz, of flags] unfolding rounded_def by blast
  show ?thesis
  proof (cases rule: abs_alloc_cases [OF ok lo n [THEN conjunct1] n [THEN conjunct2], of ?r])
    case 1
    then have "mem_repr lo hi p mh' F" using A cs reg by (auto simp: mem_repr_def same_region_def)
    then show ?thesis using A(1) 1 by auto
  next
    case (2 ds a)
    then have "mem_repr lo hi p mh' (F - {a..<a + rounded sz})"
      using A cs reg by (auto simp: mem_repr_def same_region_def)
    then show ?thesis using A(1) 2 cs(2) assms(2)
      by (auto simp: owned_block_def block_def simp del: mem_repr_def)
  qed
qed

lemma Deallocate_law:
  assumes "mem_repr lo hi p mh F" "owned_block lo hi (r, sz)" "block rounded (r, sz) \<inter> F = {}"
  shows "\<exists>mh'. Deallocate mh r sz = Some (mh', 1) \<and> mem_repr lo hi p mh' (F \<union> block rounded (r, sz))"
proof -
  obtain cs where cs: "mem_rep mh cs" "free_bytes cs = F" and reg: "mh_Lower mh = lo" "mh_Upper mh = hi" "mh_First mh = p"
    using assms(1) by (auto simp: mem_repr_def)
  have b: "request_ok sz" "16 dvd r" "r \<noteq> 0" "lo \<le> r" "r + rounded sz \<le> hi"
    using assms(2) by (auto simp: owned_block_def)
  then have m: "r mod 16 = 0" by simp
  note n = rounded_pos [OF b(1)]
  have cl: "clear_of r (rounded sz) cs" using assms(3) cs(2) by (simp add: clear_of_def block_def)
  have ok: "ok_chunks lo hi cs" using mem_repD(3) [OF cs(1)] reg by simp
  have "\<exists>mh'. Deallocate mh r sz = Some (mh', 1) \<and> mem_rep mh' (abs_insert r (rounded sz) cs) \<and> same_region mh mh'"
    using Deallocate_refines [OF cs(1) b(3), of sz] b m cl
    by (simp add: request_ok_def rounded_def reg)
  then show ?thesis
    using abs_insert_ok(2) [OF ok cl b(4,5,2) n [THEN conjunct1] n [THEN conjunct2]] reg cs(2)
    by (auto simp: mem_repr_def same_region_def block_def)
qed

interpretation exec_mem: allocator "mem_repr lo hi p" "\<lambda>mh sz. Allocate mh sz flags" Deallocate
    rounded request_ok "owned_block lo hi" for lo hi p flags
  by unfold_locales (rule Allocate_law Deallocate_law; assumption)+

subsection \<open>Properties\<close>

definition demo_mem :: mem_header where
  "demo_mem = mh_Init \<lparr>mem_cells = (\<lambda>_. 0), mh_First = 8, mh_Lower = 0, mh_Upper = 0, mh_Free = 0\<rparr> 4096 1024"

lemma demo_mem_rep: "mem_rep demo_mem [(4096, 1024)]"
  using mh_Init_rep [of 4096 "\<lparr>mem_cells = (\<lambda>_. 0), mh_First = 8, mh_Lower = 0, mh_Upper = 0, mh_Free = 0\<rparr>" 1024]
  by (simp add: demo_mem_def)

lemma demo_request: "request_ok 100" "rounded 100 = 112" "mh_Lower demo_mem = 4096" "mh_Upper demo_mem = 5120"
  by (simp_all add: request_ok_def rounded_def ROUNDUP_def MEMCHUNK_TOTAL_def demo_mem_def mh_Init_def Let_def)

text \<open>C5. Allocate returns a block exactly when some free chunk is large enough: 16-byte aligned,
  inside the region, made of free bytes, taken from the first (or, for MEMF_REVERSE, last) fitting
  chunk, cleared on request; the free list stays ordered, coalesced and counted, and describes
  the remaining bytes. Otherwise it returns NULL and changes nothing.\<close>

theorem Allocate_correct:
  assumes "mem_rep mh cs" "request_ok sz"
  shows "\<exists>mh' r. Allocate mh sz flags = Some (mh', r) \<and>
    (case pick_fit (flags AND MEMF_REVERSE \<noteq> 0) (rounded sz) cs of
       None \<Rightarrow> r = 0 \<and> mh' = mh \<and> (\<forall>c\<in>set cs. snd c < rounded sz)
     | Some (us, c, vs) \<Rightarrow>
         cs = us @ c # vs \<and> rounded sz \<le> snd c \<and> r = fst c \<and> r \<noteq> 0 \<and> 16 dvd r \<and>
         mh_Lower mh \<le> r \<and> r + rounded sz \<le> mh_Upper mh \<and>
         mem_rep mh' (us @ carve (rounded sz) c @ vs) \<and>
         free_bytes (us @ carve (rounded sz) c @ vs) = free_bytes cs - {r..<r + rounded sz} \<and>
         mh_Free mh' = mh_Free mh - rounded sz \<and>
         (flags AND MEMF_CLEAR \<noteq> 0 \<longrightarrow> (\<forall>x\<in>{r..<r + rounded sz}. mem_cells mh' x = 0)))"
proof -
  note rep' = mem_repD [OF assms(1)]
  let ?p = "pick_fit (flags AND MEMF_REVERSE \<noteq> 0) (rounded sz) cs"
  have sz: "sz \<noteq> 0" "unat sz + 15 < 2 ^ 64" using assms(2) by (auto simp: request_ok_def)
  note n = rounded_pos [OF assms(2)]
  note A = Allocate_refines [OF assms(1) sz, of flags, folded rounded_def]
  show ?thesis
  proof (cases ?p)
    case None
    then have "Allocate mh sz flags = Some (mh, 0)"
      using sz(1) by (simp add: Allocate_def rounded_def [symmetric] Let_def alloc_scan_pick [OF rep'(2)])
    moreover have "\<forall>c\<in>set cs. snd c < rounded sz" using None by (simp add: pick_fit_None)
    ultimately show ?thesis using None by simp
  next
    case (Some t)
    then obtain us a s vs where pick: "?p = Some (us, (a, s), vs)" by (cases t) auto
    have cs: "cs = us @ (a, s) # vs" and fit: "rounded sz \<le> s" using pick_fit_split [OF pick] by auto
    note c = ok_chunks_carve [OF rep'(3)[unfolded cs] n [THEN conjunct1] n [THEN conjunct2] fit]
    have b: "mh_Lower mh \<le> a" "16 dvd a" "a + s \<le> mh_Upper mh" "0 < mh_Lower mh"
      using ok_chunks_bound [OF rep'(3), of a s] rep'(1) by (auto simp: cs mem_wf_def)
    obtain mh' where A: "Allocate mh sz flags = Some (mh', a)" "mem_rep mh' (us @ carve (rounded sz) (a, s) @ vs)"
        "flags AND MEMF_CLEAR \<noteq> 0 \<longrightarrow> (\<forall>x\<in>{a..<a + rounded sz}. mem_cells mh' x = 0)"
      using A b by (auto simp: abs_alloc_def pick)
    have f: "mh_Free mh' = mh_Free mh - rounded sz"
      using c(3) rep'(4) mem_repD(4) [OF A(2)] by (simp add: cs)
    show ?thesis
      unfolding pick using A f c(2) b fit cs by (intro exI [of _ mh'] exI [of _ a]) simp
  qed
qed

theorem Allocate_correct_witness:
  "\<exists>mh'. Allocate demo_mem 100 0 = Some (mh', 4096) \<and> mem_rep mh' [(4208, 912)]"
  using Allocate_correct [OF demo_mem_rep demo_request(1), of 0] demo_request
  by (auto simp: carve_def)

text \<open>C6. Deallocate of a block inside the region, at any alignment, succeeds exactly when no byte of
  the rounded block is free already; then the free bytes grow by that block and the list is
  again ordered, coalesced and counted. Otherwise (a double free) it reports 0 and changes
  nothing.\<close>

theorem Deallocate_correct:
  assumes "mem_rep mh cs" "a \<noteq> 0" "request_ok sz" "unat sz + a mod 16 + 15 < 2 ^ 64"
    and "n = rounded (sz + of_nat (a mod 16))" "b = a - a mod 16"
    and "mh_Lower mh \<le> b" "b + n \<le> mh_Upper mh"
  shows "if {b..<b + n} \<inter> free_bytes cs = {}
         then \<exists>mh' ds. Deallocate mh a sz = Some (mh', 1) \<and> mem_rep mh' ds \<and>
                free_bytes ds = free_bytes cs \<union> {b..<b + n} \<and> mh_Free mh' = mh_Free mh + n
         else Deallocate mh a sz = Some (mh, 0)"
proof -
  note rep' = mem_repD [OF assms(1)]
  have sz: "sz \<noteq> 0" using assms(3) by (simp add: request_ok_def)
  have "a mod 16 < 16" by simp
  then have am: "a mod 16 < 2 ^ 64" by simp
  have u: "unat (sz + of_nat (a mod 16)) = unat sz + a mod 16"
    using am assms(4) by (subst unat_word_ariths) (simp add: unat_of_nat)
  then have "request_ok (sz + of_nat (a mod 16))"
    unfolding request_ok_def using sz assms(4) by (metis add_is_0 unat_eq_zero)
  then have n: "16 dvd n" "0 < n" using rounded_pos assms(5) by auto
  have b: "16 dvd b" by (simp add: assms(6) dvd_minus_mod)
  note D = Deallocate_refines [OF assms(1,2) sz assms(4), folded rounded_def assms(6), folded assms(5),
      OF assms(7,8)]
  show ?thesis
  proof (cases "{b..<b + n} \<inter> free_bytes cs = {}")
    case True
    then have cl: "clear_of b n cs" by (simp add: clear_of_def)
    note new = abs_insert_ok [OF rep'(3) cl assms(7,8) b n]
    obtain mh' where "Deallocate mh a sz = Some (mh', 1)" "mem_rep mh' (abs_insert b n cs)"
      using D cl by auto
    then show ?thesis using new(2,3) rep'(4) True mem_repD(4) [of mh'] by force
  next
    case False
    then show ?thesis using D by (simp add: clear_of_def)
  qed
qed

theorem Deallocate_correct_witness:
  "Deallocate demo_mem 4200 100 = Some (demo_mem, 0)"
  using Deallocate_correct [OF demo_mem_rep, of 4200 100 "rounded (100 + of_nat 8)" 4192]
  by (simp add: demo_request rounded_def ROUNDUP_def MEMCHUNK_TOTAL_def)

text \<open>C7. Whatever the sequence of requests, the blocks handed out are pairwise disjoint parts of the
  free memory, and releasing them in any order coalesces back to exactly the original list of
  free chunks.\<close>

theorem alloc_free_restores:
  assumes "mem_rep mh cs" "\<forall>sz\<in>set szs. request_ok sz"
  shows "\<exists>mh1 bs. alloc_seq (\<lambda>mh sz. Allocate mh sz flags) mh szs = Some (mh1, bs) \<and>
           disjoint_blocks rounded bs \<and> blocks rounded bs \<subseteq> free_bytes cs \<and>
           (\<forall>bs'. mset bs' = mset bs \<longrightarrow>
              (\<exists>mh2. free_seq Deallocate mh1 bs' = Some (mh2, True) \<and> mem_rep mh2 cs))"
proof -
  let ?lo = "mh_Lower mh" and ?hi = "mh_Upper mh" and ?p = "mh_First mh"
  have "mem_repr ?lo ?hi ?p mh (free_bytes cs)" using assms(1) by (auto simp: mem_repr_def)
  then obtain mh1 bs where A: "alloc_seq (\<lambda>mh sz. Allocate mh sz flags) mh szs = Some (mh1, bs)"
    "mem_repr ?lo ?hi ?p mh1 (free_bytes cs - blocks rounded bs)" "blocks rounded bs \<subseteq> free_bytes cs"
    "disjoint_blocks rounded bs" "\<forall>b\<in>set bs. owned_block ?lo ?hi b"
    using exec_mem.alloc_all assms(2) by blast
  have "\<exists>mh2. free_seq Deallocate mh1 bs' = Some (mh2, True) \<and> mem_rep mh2 cs" if m: "mset bs' = mset bs" for bs'
  proof -
    have "set bs' = set bs" using m by (rule mset_eq_setD)
    then have B: "blocks rounded bs' = blocks rounded bs" "\<forall>b\<in>set bs'. owned_block ?lo ?hi b"
      using A(5) by (auto simp: blocks_def)
    have "disjoint_blocks rounded bs'" using A(4) disjoint_blocks_perm m by blast
    then obtain mh2 where F: "free_seq Deallocate mh1 bs' = Some (mh2, True)"
        "mem_repr ?lo ?hi ?p mh2 (free_bytes cs - blocks rounded bs \<union> blocks rounded bs')"
      using exec_mem.free_all [OF A(2) B(2)] B(1) by auto
    then obtain ds where "mem_rep mh2 ds" "free_bytes ds = free_bytes cs"
      using A(3) B(1) by (auto simp: mem_repr_def Un_absorb2)
    then have "mem_rep mh2 cs" using ok_chunks_unique mem_repD(3) assms(1) by blast
    then show ?thesis using F(1) by blast
  qed
  then show ?thesis using A by blast
qed

theorem alloc_free_restores_witness:
  "\<exists>mh1 bs. alloc_seq (\<lambda>mh sz. Allocate mh sz 0) demo_mem [100, 100] = Some (mh1, bs) \<and>
     disjoint_blocks rounded bs"
  using alloc_free_restores [OF demo_mem_rep, of "[100, 100]" 0] demo_request(1) by auto

text \<open>The free-list self check of the program (order, bounds, sums) passes on every well-formed
  header, with enough fuel to walk the list.\<close>

theorem freelist_checks:
  assumes "mem_rep mh cs" "length cs \<le> fuel"
  shows "freelist_sane fuel mh = Some True \<and> free_sum fuel mh = Some (mh_Free mh) \<and>
         chunk_count fuel mh = Some (length cs)"
  using walk_checks [OF mem_repD(2) [OF assms(1)] assms(2)] mem_repD(3,4) [OF assms(1)]
  by (auto simp: freelist_sane_def free_sum_def chunk_count_def)

theorem freelist_checks_witness: "freelist_sane 1 demo_mem = Some True"
  using freelist_checks [OF demo_mem_rep, of 1] by simp

text \<open>The rounding of a request within 15 bytes of the address space wraps to 0: Allocate returns
  the first free chunk's address and leaves that chunk on the free list, so the same memory is
  handed out again.\<close>

theorem Allocate_wraps:
  assumes "mem_rep mh ((a, s) # cs)" "2 ^ 64 \<le> unat sz + 15"
  shows "Allocate mh sz 0 = Some (mh, a) \<and> a \<noteq> 0"
proof -
  note rep' = mem_repD [OF assms(1)]
  have "unat sz < 2 ^ 64" using unsigned_less [of sz] by simp
  then have "(unat sz + 15) mod 2 ^ 64 = unat sz + 15 - 2 ^ 64" "unat sz + 15 - 2 ^ 64 < 16"
    using assms(2) by (simp_all add: mod_if)
  then have n: "unat (ROUNDUP sz MEMCHUNK_TOTAL) = 0" unfolding unat_ROUNDUP by simp
  have sz: "sz \<noteq> 0" using assms(2) by auto
  have h: "mem_cells mh (mh_First mh) = a" "mem_cells mh (a + 8) = s" "a \<noteq> 0"
    using rep'(2) by (auto simp: chunks_Cons)
  have s: "0 < s" using rep'(3) by simp
  have p: "mh_First mh \<noteq> 0" using rep'(1) by (simp add: mem_wf_def)
  have id: "alloc_take (mem_cells mh) 0 (mh_First mh) = mem_cells mh"
    using h s by (simp add: alloc_take_def Let_def fun_upd_idem)
  have scan: "alloc_scan (mem_cells mh) 0 False (mh_First mh) a 0 = Some (mh_First mh)"
    using alloc_scan_pick [OF rep'(2), of 0 False 0] h by simp
  show ?thesis using sz p h n by (simp add: Allocate_def Let_def scan id)
qed

theorem Allocate_wraps_witness: "Allocate demo_mem 18446744073709551615 0 = Some (demo_mem, 4096)"
  using Allocate_wraps [OF demo_mem_rep, of 18446744073709551615] by simp

end
