(* ===== verification/ExecSched.thy ===== *)
theory ExecSched
  imports ExecList
begin

text \<open>
  The preemptive kernel of \<open>hosted/msgport.c\<close> and \<open>hosted/exec.c\<close>: the task states, the
  priority-ordered \<open>TaskReady\<close> list, the timer interrupt that switches tasks, \<open>Wait\<close> and
  \<open>Signal\<close>, and message ports. A \<open>kern\<close> holds what the C globals and structures hold;
  functions of an address stand for the structure fields at that address. A task runs until
  the timer handler \<open>on_alarm\<close> changes \<open>ThisTask\<close>; between \<open>Forbid\<close> and \<open>Permit\<close> the handler
  does nothing, so every such section is one step.
\<close>

subsection \<open>State\<close>

record mcontext =
  mc_x :: "u64 list"
  mc_pc :: u64
  mc_sp :: u64
  mc_fp :: u64
  mc_lr :: u64

definition TS_INVALID :: u8 where "TS_INVALID = 0"
definition TS_ADDED :: u8 where "TS_ADDED = 1"
definition TS_RUN :: u8 where "TS_RUN = 2"
definition TS_READY :: u8 where "TS_READY = 3"
definition TS_WAIT :: u8 where "TS_WAIT = 4"

lemmas TS_defs = TS_INVALID_def TS_ADDED_def TS_RUN_def TS_READY_def TS_WAIT_def

record kern =
  cells :: heap
  ln_Pri :: "addr \<Rightarrow> u8"
  tc_State :: "addr \<Rightarrow> u8"
  tc_SigRecvd :: "addr \<Rightarrow> u32"
  tc_SigWait :: "addr \<Rightarrow> u32"
  tc_SPReg :: "addr \<Rightarrow> u64"
  tc_SPLower :: "addr \<Rightarrow> u64"
  tc_SPUpper :: "addr \<Rightarrow> u64"
  tc_Context :: "addr \<Rightarrow> mcontext"
  startpc :: "addr \<Rightarrow> u64"
  ThisTask :: addr
  TaskReady :: addr
  TaskWait :: addr
  DispCount :: int
  IdleCount :: int
  boot_task :: addr
  sched_on :: bool
  inited :: bool
  ticks :: int
  forbid_cnt :: int
  mp_Flags :: "addr \<Rightarrow> u8"
  mp_SigBit :: "addr \<Rightarrow> u8"
  mp_SigTask :: "addr \<Rightarrow> addr"
  mn_ReplyPort :: "addr \<Rightarrow> addr"

definition Forbid :: "kern \<Rightarrow> kern" where
  "Forbid k = k\<lparr>forbid_cnt := forbid_cnt k + 1\<rparr>"

definition Permit :: "kern \<Rightarrow> kern" where
  "Permit k = (if forbid_cnt k > 0 then k\<lparr>forbid_cnt := forbid_cnt k - 1\<rparr> else k)"

definition set_state :: "addr \<Rightarrow> u8 \<Rightarrow> kern \<Rightarrow> kern" where
  "set_state t s k = k\<lparr>tc_State := (tc_State k)(t := s)\<rparr>"

definition enqueue_on :: "addr \<Rightarrow> addr \<Rightarrow> kern \<Rightarrow> kern option" where
  "enqueue_on l t k = map_option (\<lambda>h. k\<lparr>cells := h\<rparr>) (Enqueue (cells k) (ln_Pri k) l t)"

subsection \<open>The scheduler\<close>

definition core_Schedule :: "kern \<Rightarrow> bool" where
  "core_Schedule k = (\<not> IsListEmpty (cells k) (TaskReady k))"

definition core_Switch :: "kern \<Rightarrow> kern option" where
  "core_Switch k =
     (let t = ThisTask k in
      if tc_State k t \<noteq> TS_RUN then Some k
      else let k1 = set_state t TS_READY k in
           if t \<noteq> boot_task k then enqueue_on (TaskReady k1) t k1 else Some k1)"

text \<open>The variant of \<open>exec.c\<close> probes the stack pointer first and parks a task that overflowed.\<close>

definition core_Switch_probe :: "kern \<Rightarrow> kern option" where
  "core_Switch_probe k =
     (let t = ThisTask k in
      if tc_State k t \<noteq> TS_RUN then Some k
      else if t \<noteq> boot_task k \<and> (tc_SPReg k t \<le> tc_SPLower k t \<or> tc_SPReg k t > tc_SPUpper k t)
      then Some (set_state t TS_WAIT k)
      else let k1 = set_state t TS_READY k in
           if t \<noteq> boot_task k then enqueue_on (TaskReady k1) t k1 else Some k1)"

definition core_Dispatch :: "kern \<Rightarrow> kern \<times> addr" where
  "core_Dispatch k =
     (let n = GetHead (cells k) (TaskReady k) in
      if n = 0 then (k, 0)
      else (set_state n TS_RUN (k\<lparr>cells := Remove (cells k) n, DispCount := DispCount k + 1, ThisTask := n\<rparr>), n))"

definition core_Dispatch_idle :: "kern \<Rightarrow> kern \<times> addr" where
  "core_Dispatch_idle k =
     (if GetHead (cells k) (TaskReady k) = 0 then (k\<lparr>IdleCount := IdleCount k + 1\<rparr>, 0) else core_Dispatch k)"

definition save_context :: "mcontext \<Rightarrow> kern \<Rightarrow> kern" where
  "save_context m k =
     k\<lparr>tc_Context := (tc_Context k)(ThisTask k := m), tc_SPReg := (tc_SPReg k)(ThisTask k := mc_sp m)\<rparr>"

definition cpu_Switch :: "mcontext \<Rightarrow> kern \<Rightarrow> kern option" where
  "cpu_Switch m k = core_Switch (save_context m k)"

definition cpu_Dispatch :: "mcontext \<Rightarrow> kern \<Rightarrow> kern \<times> mcontext" where
  "cpu_Dispatch m k = (let (k1, nt) = core_Dispatch k in (k1, if nt = 0 then m else tc_Context k1 nt))"

definition core_ExitInterrupt :: "mcontext \<Rightarrow> kern \<Rightarrow> (kern \<times> mcontext) option" where
  "core_ExitInterrupt m k =
     (if core_Schedule k then map_option (cpu_Dispatch m) (cpu_Switch m k) else Some (k, m))"

definition TICK_LIMIT :: int where "TICK_LIMIT = 500"

definition first_frame :: "mcontext \<Rightarrow> kern \<Rightarrow> addr \<Rightarrow> mcontext" where
  "first_frame m k w =
     m\<lparr>mc_x := (replicate (length (mc_x m)) 0)[0 := of_nat w], mc_pc := startpc k w,
       mc_sp := tc_SPReg k w, mc_fp := 0, mc_lr := 0\<rparr>"

definition init_contexts :: "addr list \<Rightarrow> mcontext \<Rightarrow> kern \<Rightarrow> kern" where
  "init_contexts ws m k =
     (let k1 = k\<lparr>tc_Context := (tc_Context k)(boot_task k := m)\<rparr>
      in k1\<lparr>tc_Context := fold (\<lambda>w c. c(w := first_frame m k1 w)) ws (tc_Context k1), inited := True\<rparr>)"

definition on_alarm :: "addr list \<Rightarrow> mcontext \<Rightarrow> kern \<Rightarrow> (kern \<times> mcontext) option" where
  "on_alarm workers m k0 =
     (let k = k0\<lparr>ticks := ticks k0 + 1\<rparr> in
      if \<not> sched_on k then Some (k, m)
      else if \<not> inited k then Some (init_contexts workers m k, m)
      else if forbid_cnt k > 0 then Some (k, m)
      else if ticks k \<ge> TICK_LIMIT
      then let k1 = set_state (boot_task k) TS_RUN (k\<lparr>sched_on := False, ThisTask := boot_task k\<rparr>)
           in Some (k1, tc_Context k1 (boot_task k))
      else core_ExitInterrupt m k)"

text \<open>\<open>AddTask\<close> of \<open>exec.c\<close>, with the stack region that \<open>mmap\<close> returned, and \<open>spawn\<close> of
  \<open>msgport.c\<close>, over a task structure that was just cleared.\<close>

definition AddTask :: "addr \<Rightarrow> u8 \<Rightarrow> u64 \<Rightarrow> u64 \<Rightarrow> u64 \<Rightarrow> kern \<Rightarrow> kern option" where
  "AddTask t pri pc stk len k =
     (let k1 = k\<lparr>ln_Pri := (ln_Pri k)(t := pri), startpc := (startpc k)(t := pc),
                tc_SigRecvd := (tc_SigRecvd k)(t := 0), tc_SigWait := (tc_SigWait k)(t := 0),
                tc_SPLower := (tc_SPLower k)(t := stk), tc_SPUpper := (tc_SPUpper k)(t := stk + len),
                tc_SPReg := (tc_SPReg k)(t := stk + len)\<rparr>
      in map_option (set_state t TS_READY) (enqueue_on (TaskReady k1) t (set_state t TS_ADDED k1)))"

definition spawn :: "addr \<Rightarrow> u64 \<Rightarrow> u64 \<Rightarrow> u64 \<Rightarrow> kern \<Rightarrow> kern option" where
  "spawn t pc stk len k =
     (let k1 = k\<lparr>ln_Pri := (ln_Pri k)(t := 0), startpc := (startpc k)(t := pc),
                tc_SigRecvd := (tc_SigRecvd k)(t := 0), tc_SigWait := (tc_SigWait k)(t := 0),
                tc_SPLower := (tc_SPLower k)(t := stk), tc_SPUpper := (tc_SPUpper k)(t := stk + len),
                tc_SPReg := (tc_SPReg k)(t := stk + len)\<rparr>
      in enqueue_on (TaskReady k1) t (set_state t TS_READY k1))"

subsection \<open>Wait and Signal\<close>

text \<open>\<open>Wait\<close> up to the point where it returns at once (\<open>Some rcvd\<close>) or spins on its state (\<open>None\<close>).\<close>

definition Wait_begin :: "u32 \<Rightarrow> kern \<Rightarrow> (kern \<times> u32 option) option" where
  "Wait_begin sigset k0 =
     (let me = ThisTask k0; k = Forbid k0 in
      if tc_SigRecvd k me AND sigset = 0
      then let k1 = set_state me TS_WAIT (k\<lparr>tc_SigWait := (tc_SigWait k)(me := sigset)\<rparr>)
           in map_option (\<lambda>k2. (Permit k2, None)) (enqueue_on (TaskWait k1) me k1)
      else Some (Permit (k\<lparr>tc_SigRecvd := (tc_SigRecvd k)(me := tc_SigRecvd k me AND NOT sigset)\<rparr>),
                 Some (tc_SigRecvd k me AND sigset)))"

definition Wait_end :: "addr \<Rightarrow> u32 \<Rightarrow> kern \<Rightarrow> kern \<times> u32" where
  "Wait_end me sigset k0 =
     (let k = Forbid k0
      in (Permit (k\<lparr>tc_SigRecvd := (tc_SigRecvd k)(me := tc_SigRecvd k me AND NOT sigset)\<rparr>),
          tc_SigRecvd k me AND sigset))"

definition Signal :: "addr \<Rightarrow> u32 \<Rightarrow> kern \<Rightarrow> kern option" where
  "Signal task sigset k0 =
     (let k = (Forbid k0)\<lparr>tc_SigRecvd := (tc_SigRecvd k0)(task := tc_SigRecvd k0 task OR sigset)\<rparr> in
      map_option Permit
        (if tc_SigRecvd k task AND tc_SigWait k task \<noteq> 0 \<and> tc_State k task = TS_WAIT
         then let k1 = set_state task TS_READY (k\<lparr>cells := Remove (cells k) task\<rparr>)
              in enqueue_on (TaskReady k1) task k1
         else Some k))"

subsection \<open>Message ports\<close>

definition mp_MsgList :: "addr \<Rightarrow> addr" where "mp_MsgList p = p + 48"
definition PA_SIGNAL :: u8 where "PA_SIGNAL = 0"

definition port_sig :: "kern \<Rightarrow> addr \<Rightarrow> u32" where
  "port_sig k p = push_bit (unat (mp_SigBit k p)) 1"

definition NewPort :: "addr \<Rightarrow> addr \<Rightarrow> u8 \<Rightarrow> kern \<Rightarrow> kern" where
  "NewPort p sigtask sigbit k =
     k\<lparr>mp_Flags := (mp_Flags k)(p := PA_SIGNAL), mp_SigTask := (mp_SigTask k)(p := sigtask),
       mp_SigBit := (mp_SigBit k)(p := sigbit), cells := NewList (cells k) (mp_MsgList p)\<rparr>"

definition PutMsg_add :: "addr \<Rightarrow> addr \<Rightarrow> kern \<Rightarrow> kern" where
  "PutMsg_add p msg k0 =
     (let k = Forbid k0 in Permit (k\<lparr>cells := AddTail (cells k) (mp_MsgList p) msg\<rparr>))"

definition PutMsg_signal :: "addr \<Rightarrow> kern \<Rightarrow> kern option" where
  "PutMsg_signal p k =
     (if mp_SigTask k p \<noteq> 0 \<and> mp_Flags k p AND 3 = PA_SIGNAL
      then Signal (mp_SigTask k p) (port_sig k p) k else Some k)"

definition PutMsg :: "addr \<Rightarrow> addr \<Rightarrow> kern \<Rightarrow> kern option" where
  "PutMsg p msg k = PutMsg_signal p (PutMsg_add p msg k)"

definition GetMsg :: "addr \<Rightarrow> kern \<Rightarrow> kern \<times> addr" where
  "GetMsg p k0 =
     (let k = Forbid k0; (h, m) = RemHead (cells k) (mp_MsgList p) in (Permit (k\<lparr>cells := h\<rparr>), m))"

definition ReplyMsg :: "addr \<Rightarrow> kern \<Rightarrow> kern option" where
  "ReplyMsg msg k = PutMsg (mn_ReplyPort k msg) msg k"

subsection \<open>Steps\<close>

text \<open>
  Where each task is inside a blocking call: \<open>TWait\<close> spins in \<open>Wait\<close> (from \<open>WaitPort\<close> of the
  port, if any), \<open>TPort\<close> is at the head of the \<open>WaitPort\<close> loop, \<open>TChecked\<close> has seen the list
  empty and is about to call \<open>Wait\<close>, \<open>TPutSig\<close> has queued a message and is about to signal.
\<close>

datatype pc = TUser | TWait u32 "addr option" | TPort addr | TChecked addr | TPutSig addr

record kenv =
  tasks :: "addr set"
  messages :: "addr set"
  ports :: "addr set"
  workers :: "addr list"

type_synonym world = "kern \<times> (addr \<Rightarrow> pc) \<times> addr set"

definition running :: "kenv \<Rightarrow> kern \<Rightarrow> addr \<Rightarrow> bool" where
  "running E k t \<longleftrightarrow> sched_on k \<and> ThisTask k = t \<and> t \<in> tasks E"

inductive kstep :: "kenv \<Rightarrow> world \<Rightarrow> world \<Rightarrow> bool" for E where
  tick: "on_alarm (workers E) m k = Some (k', m') \<Longrightarrow> kstep E (k, pcs, sent) (k', pcs, sent)"
| spawned: "t \<in> tasks E \<Longrightarrow> tc_State k t = TS_INVALID \<Longrightarrow> pcs t = TUser \<Longrightarrow> spawn t q stk len k = Some k' \<Longrightarrow>
    kstep E (k, pcs, sent) (k', pcs, sent)"
| wait_now: "running E k t \<Longrightarrow> pcs t = TUser \<Longrightarrow> Wait_begin ss k = Some (k', Some r) \<Longrightarrow>
    kstep E (k, pcs, sent) (k', pcs, sent)"
| wait_block: "running E k t \<Longrightarrow> pcs t = TUser \<Longrightarrow> Wait_begin ss k = Some (k', None) \<Longrightarrow>
    kstep E (k, pcs, sent) (k', pcs(t := TWait ss None), sent)"
| wait_return: "running E k t \<Longrightarrow> pcs t = TWait ss None \<Longrightarrow> tc_State k t \<noteq> TS_WAIT \<Longrightarrow>
    Wait_end t ss k = (k', r) \<Longrightarrow> kstep E (k, pcs, sent) (k', pcs(t := TUser), sent)"
| signal: "running E k t \<Longrightarrow> pcs t = TUser \<Longrightarrow> u \<in> tasks E \<Longrightarrow> Signal u ss k = Some k' \<Longrightarrow>
    kstep E (k, pcs, sent) (k', pcs, sent)"
| put: "running E k t \<Longrightarrow> pcs t = TUser \<Longrightarrow> p \<in> ports E \<Longrightarrow> msg \<in> messages E \<Longrightarrow> msg \<notin> sent \<Longrightarrow>
    kstep E (k, pcs, sent) (PutMsg_add p msg k, pcs(t := TPutSig p), insert msg sent)"
| put_signal: "running E k t \<Longrightarrow> pcs t = TPutSig p \<Longrightarrow> PutMsg_signal p k = Some k' \<Longrightarrow>
    kstep E (k, pcs, sent) (k', pcs(t := TUser), sent)"
| get: "running E k t \<Longrightarrow> pcs t = TUser \<Longrightarrow> p \<in> ports E \<Longrightarrow> GetMsg p k = (k', m) \<Longrightarrow>
    kstep E (k, pcs, sent) (k', pcs, sent - {m})"
| port_enter: "running E k t \<Longrightarrow> pcs t = TUser \<Longrightarrow> p \<in> ports E \<Longrightarrow> mp_SigTask k p = t \<Longrightarrow>
    kstep E (k, pcs, sent) (k, pcs(t := TPort p), sent)"
| port_empty: "running E k t \<Longrightarrow> pcs t = TPort p \<Longrightarrow> IsListEmpty (cells k) (mp_MsgList p) \<Longrightarrow>
    kstep E (k, pcs, sent) (k, pcs(t := TChecked p), sent)"
| port_found: "running E k t \<Longrightarrow> pcs t = TPort p \<Longrightarrow> \<not> IsListEmpty (cells k) (mp_MsgList p) \<Longrightarrow>
    kstep E (k, pcs, sent) (k, pcs(t := TUser), sent)"
| port_now: "running E k t \<Longrightarrow> pcs t = TChecked p \<Longrightarrow> Wait_begin (port_sig k p) k = Some (k', Some r) \<Longrightarrow>
    kstep E (k, pcs, sent) (k', pcs(t := TPort p), sent)"
| port_block: "running E k t \<Longrightarrow> pcs t = TChecked p \<Longrightarrow> Wait_begin (port_sig k p) k = Some (k', None) \<Longrightarrow>
    kstep E (k, pcs, sent) (k', pcs(t := TWait (port_sig k p) (Some p)), sent)"
| port_return: "running E k t \<Longrightarrow> pcs t = TWait ss (Some p) \<Longrightarrow> tc_State k t \<noteq> TS_WAIT \<Longrightarrow>
    Wait_end t ss k = (k', r) \<Longrightarrow> kstep E (k, pcs, sent) (k', pcs(t := TPort p), sent)"

inductive reach :: "kenv \<Rightarrow> world \<Rightarrow> world \<Rightarrow> bool" for E where
  start: "reach E w w"
| step: "reach E w w' \<Longrightarrow> kstep E w' w'' \<Longrightarrow> reach E w w''"

subsection \<open>Where every task is\<close>

definition klists :: "kenv \<Rightarrow> kern \<Rightarrow> addr set" where
  "klists E k = {TaskReady k, TaskWait k} \<union> mp_MsgList ` ports E"

definition kstatic :: "kenv \<Rightarrow> kern \<Rightarrow> bool" where
  "kstatic E k \<longleftrightarrow> tasks E \<inter> messages E = {} \<and> boot_task k \<notin> tasks E \<and> TaskReady k \<noteq> TaskWait k \<and>
     TaskReady k \<notin> mp_MsgList ` ports E \<and> TaskWait k \<notin> mp_MsgList ` ports E \<and>
     (\<forall>p\<in>ports E. mp_SigTask k p \<in> tasks E \<and> mp_Flags k p AND 3 = PA_SIGNAL \<and> unat (mp_SigBit k p) < 32)"

definition klist :: "kenv \<Rightarrow> kern \<Rightarrow> (addr \<Rightarrow> addr list) \<Rightarrow> bool" where
  "klist E k F \<longleftrightarrow> fam (cells k) (tasks E \<union> messages E) (klists E k) F \<and>
     (\<forall>p\<in>ports E. set (F (mp_MsgList p)) \<subseteq> messages E) \<and>
     set (F (TaskReady k)) = {t \<in> tasks E. tc_State k t = TS_READY} \<and>
     set (F (TaskWait k)) = {t \<in> tasks E. tc_State k t = TS_WAIT} \<and>
     pri_sorted (ln_Pri k) (F (TaskReady k)) \<and> pri_sorted (ln_Pri k) (F (TaskWait k))"

definition krun :: "kenv \<Rightarrow> kern \<Rightarrow> bool" where
  "krun E k \<longleftrightarrow> ThisTask k \<in> insert (boot_task k) (tasks E) \<and>
     (sched_on k \<longrightarrow> (\<forall>t\<in>tasks E. tc_State k t = TS_RUN \<longrightarrow> t = ThisTask k) \<and>
        (ThisTask k \<in> tasks E \<longrightarrow> tc_State k (ThisTask k) \<in> {TS_RUN, TS_WAIT}))"

definition ksig :: "kenv \<Rightarrow> kern \<Rightarrow> (addr \<Rightarrow> pc) \<Rightarrow> bool" where
  "ksig E k pcs \<longleftrightarrow> (\<forall>t\<in>tasks E.
     (tc_State k t = TS_WAIT \<longrightarrow>
        (\<exists>po. pcs t = TWait (tc_SigWait k t) po) \<and> tc_SigRecvd k t AND tc_SigWait k t = 0) \<and>
     (\<forall>ss po. pcs t = TWait ss po \<longrightarrow> tc_State k t \<noteq> TS_WAIT \<longrightarrow> tc_SigRecvd k t AND ss \<noteq> 0))"

definition in_WaitPort :: "pc \<Rightarrow> addr \<Rightarrow> bool" where
  "in_WaitPort c p \<longleftrightarrow> c = TChecked p \<or> (\<exists>ss. c = TWait ss (Some p))"

definition kport :: "kenv \<Rightarrow> kern \<Rightarrow> (addr \<Rightarrow> pc) \<Rightarrow> addr set \<Rightarrow> (addr \<Rightarrow> addr list) \<Rightarrow> bool" where
  "kport E k pcs sent F \<longleftrightarrow>
     (\<forall>t\<in>tasks E. \<forall>p. (pcs t = TPort p \<or> in_WaitPort (pcs t) p \<longrightarrow> p \<in> ports E \<and> mp_SigTask k p = t) \<and>
        (\<forall>ss. pcs t = TWait ss (Some p) \<longrightarrow> ss = port_sig k p) \<and> (pcs t = TPutSig p \<longrightarrow> p \<in> ports E)) \<and>
     sent = (\<Union>p\<in>ports E. set (F (mp_MsgList p))) \<and>
     (\<forall>p\<in>ports E. in_WaitPort (pcs (mp_SigTask k p)) p \<longrightarrow> F (mp_MsgList p) \<noteq> [] \<longrightarrow>
        tc_SigRecvd k (mp_SigTask k p) AND port_sig k p \<noteq> 0 \<or> (\<exists>t\<in>tasks E. pcs t = TPutSig p))"

definition kinv :: "kenv \<Rightarrow> world \<Rightarrow> bool" where
  "kinv E w \<longleftrightarrow> (case w of (k, pcs, sent) \<Rightarrow>
     kstatic E k \<and> krun E k \<and> ksig E k pcs \<and> (\<exists>F. klist E k F \<and> kport E k pcs sent F))"

lemma TS_distinct [simp]:
  "TS_READY \<noteq> TS_WAIT" "TS_WAIT \<noteq> TS_READY" "TS_RUN \<noteq> TS_READY" "TS_READY \<noteq> TS_RUN"
  "TS_RUN \<noteq> TS_WAIT" "TS_WAIT \<noteq> TS_RUN" "TS_INVALID \<noteq> TS_READY" "TS_INVALID \<noteq> TS_WAIT"
  "TS_INVALID \<noteq> TS_RUN" "TS_READY \<noteq> TS_INVALID" "TS_WAIT \<noteq> TS_INVALID" "TS_RUN \<noteq> TS_INVALID"
  by (simp_all add: TS_defs)

lemma klist_cong:
  assumes "klist E k F" "cells k' = cells k" "ln_Pri k' = ln_Pri k" "TaskReady k' = TaskReady k"
    "TaskWait k' = TaskWait k" "\<And>t. t \<in> tasks E \<Longrightarrow> tc_State k' t = tc_State k t"
  shows "klist E k' F"
  using assms by (auto simp: klist_def klists_def)

lemma pri_sorted_upd: "pri_sorted pri xs \<Longrightarrow> t \<notin> set xs \<Longrightarrow> pri_sorted (pri(t := v)) xs"
  unfolding pri_sorted_def by (erule sorted_wrt_mono_rel [rotated]) (auto simp: fun_upd_other)

lemma kstatic_ne:
  assumes "kstatic E k"
  shows "TaskReady k \<noteq> TaskWait k" "p \<in> ports E \<Longrightarrow> mp_MsgList p \<noteq> TaskReady k"
    "p \<in> ports E \<Longrightarrow> mp_MsgList p \<noteq> TaskWait k"
  using assms unfolding kstatic_def by (auto simp: image_iff)

lemma klist_unlinked:
  assumes "kstatic E k" "klist E k F" "t \<in> tasks E" "tc_State k t \<notin> {TS_READY, TS_WAIT}"
  shows "unlinked (klists E k) F t"
  using assms by (auto simp: unlinked_def klists_def klist_def kstatic_def)

text \<open>Moving a task onto the ready or the wait list.\<close>

lemma klist_enqueue:
  assumes st: "kstatic E k" and kl: "klist E k F" and t: "t \<in> tasks E" "tc_State k t \<notin> {TS_READY, TS_WAIT}"
    and l: "l = TaskReady k \<and> s = TS_READY \<or> l = TaskWait k \<and> s = TS_WAIT"
  shows "\<exists>h'. enqueue_on l t (set_state t s k) = Some ((set_state t s k)\<lparr>cells := h'\<rparr>) \<and>
    klist E ((set_state t s k)\<lparr>cells := h'\<rparr>) (F(l := abs_enqueue (ln_Pri k) t (F l)))"
proof -
  have fam: "fam (cells k) (tasks E \<union> messages E) (klists E k) F" using kl by (simp add: klist_def)
  have lk: "l \<in> klists E k" using l by (auto simp: klists_def)
  obtain h' where h': "Enqueue (cells k) (ln_Pri k) l t = Some h'"
    "fam h' (tasks E \<union> messages E) (klists E k) (F(l := abs_enqueue (ln_Pri k) t (F l)))"
    using fam_Enqueue [OF fam lk _ klist_unlinked [OF st kl t]] t(1) by blast
  have ne: "TaskReady k \<noteq> TaskWait k" "mp_MsgList p \<noteq> TaskReady k" "mp_MsgList p \<noteq> TaskWait k"
    if "p \<in> ports E" for p using kstatic_ne [OF st] that by auto
  have "TaskReady k \<noteq> TaskWait k" using st by (simp add: kstatic_def)
  then have "klist E ((set_state t s k)\<lparr>cells := h'\<rparr>) (F(l := abs_enqueue (ln_Pri k) t (F l)))"
    using kl l t h'(2) ne abs_enqueue_sorted [of "ln_Pri k" "F l" t]
    unfolding klist_def set_state_def klists_def by (auto split: if_splits)
  then show ?thesis using h'(1) by (auto simp: enqueue_on_def set_state_def)
qed

lemma klist_unlink:
  assumes st: "kstatic E k" and kl: "klist E k F" and t: "t \<in> tasks E" "s \<notin> {TS_READY, TS_WAIT}"
    and l: "l = TaskReady k \<and> tc_State k t = TS_READY \<or> l = TaskWait k \<and> tc_State k t = TS_WAIT"
  shows "klist E (set_state t s (k\<lparr>cells := Remove (cells k) t\<rparr>)) (F(l := remove1 t (F l)))"
proof -
  have fam: "fam (cells k) (tasks E \<union> messages E) (klists E k) F" using kl by (simp add: klist_def)
  have lk: "l \<in> klists E k" using l by (auto simp: klists_def)
  have "t \<in> set (F l)" using l kl t(1) by (auto simp: klist_def)
  then obtain us vs where uv: "F l = us @ t # vs" "t \<notin> set us" by (metis split_list_first)
  then have r: "remove1 t (F l) = us @ vs" by (simp add: remove1_append)
  have d: "distinct (F l)" by (rule fam_distinct [OF fam lk])
  have f: "fam (Remove (cells k) t) (tasks E \<union> messages E) (klists E k) (F(l := remove1 t (F l)))"
    unfolding r by (rule fam_Remove [OF fam lk uv(1)])
  have "TaskReady k \<noteq> TaskWait k" "\<And>p. p \<in> ports E \<Longrightarrow> mp_MsgList p \<noteq> TaskReady k \<and> mp_MsgList p \<noteq> TaskWait k"
    using kstatic_ne [OF st] by auto
  moreover have "pri_sorted (ln_Pri k) (F l) \<Longrightarrow> pri_sorted (ln_Pri k) (remove1 t (F l))"
    unfolding r unfolding uv(1) by (rule pri_sorted_remove1)
  moreover have "set (remove1 t (F l)) = set (F l) - {t}" using d by (rule set_remove1_eq)
  ultimately show ?thesis
    using kl l t f unfolding klist_def set_state_def klists_def by (auto split: if_splits)
qed

subsection \<open>What the invariants read\<close>

definition same_config :: "kern \<Rightarrow> kern \<Rightarrow> bool" where
  "same_config k k' \<longleftrightarrow> TaskReady k' = TaskReady k \<and> TaskWait k' = TaskWait k \<and> boot_task k' = boot_task k \<and>
     mp_SigTask k' = mp_SigTask k \<and> mp_Flags k' = mp_Flags k \<and> mp_SigBit k' = mp_SigBit k"

lemma same_config_refl [simp]: "same_config k k"
  by (simp add: same_config_def)

lemma same_config_trans: "same_config k k' \<Longrightarrow> same_config k' k'' \<Longrightarrow> same_config k k''"
  by (simp add: same_config_def)

lemma kstatic_cong: "same_config k k' \<Longrightarrow> kstatic E k \<Longrightarrow> kstatic E k'"
  by (simp add: same_config_def kstatic_def)

lemma port_sig_cong: "same_config k k' \<Longrightarrow> port_sig k' p = port_sig k p"
  by (simp add: same_config_def port_sig_def)

definition same_signals :: "kenv \<Rightarrow> kern \<Rightarrow> kern \<Rightarrow> bool" where
  "same_signals E k k' \<longleftrightarrow> tc_SigRecvd k' = tc_SigRecvd k \<and> tc_SigWait k' = tc_SigWait k \<and>
     (\<forall>t\<in>tasks E. tc_State k' t = TS_WAIT \<longleftrightarrow> tc_State k t = TS_WAIT)"

lemma ksig_cong: "same_signals E k k' \<Longrightarrow> ksig E k pcs \<Longrightarrow> ksig E k' pcs"
  by (simp add: ksig_def same_signals_def)

lemma kport_cong:
  assumes "same_config k k'" "same_signals E k k'" "\<And>p. p \<in> ports E \<Longrightarrow> F' (mp_MsgList p) = F (mp_MsgList p)"
    "kport E k pcs sent F"
  shows "kport E k' pcs sent F'"
  using assms by (simp add: kport_def same_signals_def same_config_def port_sig_def)

subsection \<open>The timer interrupt keeps the invariant\<close>

lemma core_Switch_ok:
  assumes st: "kstatic E k" and kl: "klist E k F" and kr: "krun E k" "sched_on k"
  shows "\<exists>k' F'. core_Switch k = Some k' \<and> klist E k' F' \<and> same_config k k' \<and> same_signals E k k' \<and>
    (\<forall>p\<in>ports E. F' (mp_MsgList p) = F (mp_MsgList p)) \<and> sched_on k' = sched_on k \<and>
    (\<forall>t\<in>tasks E. tc_State k' t \<noteq> TS_RUN) \<and> tc_Context k' = tc_Context k \<and> ln_Pri k' = ln_Pri k \<and>
    F' (TaskReady k) = (if tc_State k (ThisTask k) = TS_RUN \<and> ThisTask k \<noteq> boot_task k
                        then abs_enqueue (ln_Pri k) (ThisTask k) (F (TaskReady k)) else F (TaskReady k))"
proof -
  let ?t = "ThisTask k"
  note ne = kstatic_ne [OF st]
  have nb: "boot_task k \<notin> tasks E" using st by (simp add: kstatic_def)
  have nr: "t \<in> tasks E \<Longrightarrow> t \<noteq> ?t \<Longrightarrow> tc_State k t \<noteq> TS_RUN" for t
    using kr unfolding krun_def by blast
  have "?t \<in> insert (boot_task k) (tasks E)" using kr(1) unfolding krun_def by blast
  then consider (off) "tc_State k ?t \<noteq> TS_RUN" | (boot) "tc_State k ?t = TS_RUN" "?t = boot_task k"
    | (task) "tc_State k ?t = TS_RUN" "?t \<noteq> boot_task k" "?t \<in> tasks E"
    by blast
  then show ?thesis
  proof cases
    case off
    then have "\<forall>t\<in>tasks E. tc_State k t \<noteq> TS_RUN" using nr by metis
    then show ?thesis using kl off
      by (intro exI [of _ k] exI [of _ F]) (simp add: core_Switch_def Let_def same_signals_def)
  next
    case boot
    moreover have "klist E (set_state ?t TS_READY k) F"
      by (rule klist_cong [OF kl]) (use boot nb in \<open>auto simp: set_state_def\<close>)
    moreover have "\<forall>t\<in>tasks E. tc_State k t \<noteq> TS_RUN" using nr boot nb by metis
    ultimately show ?thesis using nb
      by (intro exI [of _ "set_state ?t TS_READY k"] exI [of _ F])
         (auto simp: core_Switch_def Let_def same_signals_def same_config_def set_state_def)
  next
    case task
    then obtain h' where h': "enqueue_on (TaskReady k) ?t (set_state ?t TS_READY k) =
        Some ((set_state ?t TS_READY k)\<lparr>cells := h'\<rparr>)"
      "klist E ((set_state ?t TS_READY k)\<lparr>cells := h'\<rparr>) (F(TaskReady k := abs_enqueue (ln_Pri k) ?t (F (TaskReady k))))"
      using klist_enqueue [OF st kl task(3), of "TaskReady k" TS_READY] by auto
    then show ?thesis using nr ne task
      by (intro exI [of _ "(set_state ?t TS_READY k)\<lparr>cells := h'\<rparr>"]
            exI [of _ "F(TaskReady k := abs_enqueue (ln_Pri k) ?t (F (TaskReady k)))"])
         (auto simp: core_Switch_def Let_def same_signals_def same_config_def set_state_def)
  qed
qed

lemma core_Dispatch_ok:
  assumes st: "kstatic E k" and kl: "klist E k F" and nr: "\<forall>t\<in>tasks E. tc_State k t \<noteq> TS_RUN"
    and hd: "F (TaskReady k) = t # ts"
  shows "\<exists>k'. core_Dispatch k = (k', t) \<and> klist E k' (F(TaskReady k := ts)) \<and> same_config k k' \<and>
    same_signals E k k' \<and> krun E k' \<and> sched_on k' = sched_on k \<and> ThisTask k' = t \<and> t \<in> tasks E \<and>
    tc_State k' t = TS_RUN \<and> tc_Context k' = tc_Context k \<and> ln_Pri k' = ln_Pri k"
proof -
  have fam: "fam (cells k) (tasks E \<union> messages E) (klists E k) F" using kl by (simp add: klist_def)
  have lk: "TaskReady k \<in> klists E k" by (simp add: klists_def)
  have t: "t \<in> tasks E" "tc_State k t = TS_READY" using kl hd by (auto simp: klist_def)
  have t0: "t \<noteq> 0" using arena_nonnull [OF fam_arena [OF fam]] t by auto
  have g: "GetHead (cells k) (TaskReady k) = t" using fam_GetHead [OF fam lk] hd by simp
  define k' where "k' = (set_state t TS_RUN (k\<lparr>cells := Remove (cells k) t\<rparr>))
      \<lparr>DispCount := DispCount k + 1, ThisTask := t\<rparr>"
  have "klist E (set_state t TS_RUN (k\<lparr>cells := Remove (cells k) t\<rparr>)) (F(TaskReady k := ts))"
    using klist_unlink [OF st kl t(1), of TS_RUN "TaskReady k"] t by (simp add: hd)
  then have "klist E k' (F(TaskReady k := ts))"
    by (rule klist_cong) (simp_all add: k'_def set_state_def)
  moreover have "core_Dispatch k = (k', t)"
    using g t0 by (simp add: core_Dispatch_def Let_def k'_def set_state_def)
  ultimately show ?thesis using nr t
    by (intro exI [of _ k'])
       (auto simp: k'_def same_config_def same_signals_def krun_def set_state_def)
qed

lemma save_context_simps [simp]:
  "cells (save_context m k) = cells k" "ln_Pri (save_context m k) = ln_Pri k"
  "tc_State (save_context m k) = tc_State k" "ThisTask (save_context m k) = ThisTask k"
  "TaskReady (save_context m k) = TaskReady k" "TaskWait (save_context m k) = TaskWait k"
  "boot_task (save_context m k) = boot_task k" "sched_on (save_context m k) = sched_on k"
  "tc_Context (save_context m k) = (tc_Context k)(ThisTask k := m)"
  "same_config k (save_context m k)" "same_signals E k (save_context m k)"
  by (simp_all add: save_context_def same_config_def same_signals_def)

lemma krun_save [simp]: "krun E (save_context m k) = krun E k"
  by (simp add: krun_def)

lemma abs_enqueue_ne [simp]: "abs_enqueue pri n xs \<noteq> []"
  by (simp add: abs_enqueue_def)

lemma same_signals_trans: "same_signals E k k' \<Longrightarrow> same_signals E k' k'' \<Longrightarrow> same_signals E k k''"
  by (simp add: same_signals_def)

text \<open>A switch saves the preempted context and resumes the head of the ready queue, as it is
  after the preempted task, if it was running, has gone back into it.\<close>

lemma core_ExitInterrupt_ok:
  assumes st: "kstatic E k" and kl: "klist E k F" and kr: "krun E k" "sched_on k"
    and ne: "F (TaskReady k) \<noteq> []"
  defines "Q \<equiv> (if tc_State k (ThisTask k) = TS_RUN \<and> ThisTask k \<noteq> boot_task k
                then abs_enqueue (ln_Pri k) (ThisTask k) (F (TaskReady k)) else F (TaskReady k))"
  shows "\<exists>k' F'. core_ExitInterrupt m k = Some (k', ((tc_Context k)(ThisTask k := m)) (hd Q)) \<and>
    klist E k' F' \<and> same_config k k' \<and> same_signals E k k' \<and> krun E k' \<and> sched_on k' \<and>
    (\<forall>p\<in>ports E. F' (mp_MsgList p) = F (mp_MsgList p)) \<and> F' (TaskReady k) = tl Q \<and>
    ThisTask k' = hd Q \<and> tc_State k' (hd Q) = TS_RUN \<and> tc_Context k' = (tc_Context k)(ThisTask k := m)"
proof -
  have sch: "core_Schedule k"
    using fam_IsListEmpty [of "cells k" "tasks E \<union> messages E" "klists E k" F "TaskReady k"] kl ne
    by (auto simp: core_Schedule_def klist_def klists_def)
  let ?s = "save_context m k"
  have kl': "klist E ?s F" by (rule klist_cong [OF kl]) auto
  obtain k1 F1 where s1: "core_Switch ?s = Some k1" "klist E k1 F1" "same_config ?s k1" "same_signals E ?s k1"
      "\<forall>p\<in>ports E. F1 (mp_MsgList p) = F (mp_MsgList p)" "sched_on k1 = sched_on k"
      "\<forall>t\<in>tasks E. tc_State k1 t \<noteq> TS_RUN" "tc_Context k1 = (tc_Context k)(ThisTask k := m)" "F1 (TaskReady k) = Q"
    using core_Switch_ok [OF kstatic_cong [OF save_context_simps(10) st] kl'] kr unfolding Q_def by auto
  have rd: "TaskReady k1 = TaskReady k" using s1(3) by (simp add: same_config_def)
  have st1: "kstatic E k1" using kstatic_cong s1(3) st save_context_simps(10) by blast
  have "Q \<noteq> []" using ne by (auto simp: Q_def)
  then have hd: "F1 (TaskReady k1) = hd Q # tl Q" using s1(9) rd by simp
  obtain k2 where s2: "core_Dispatch k1 = (k2, hd Q)" "klist E k2 (F1(TaskReady k1 := tl Q))" "same_config k1 k2"
      "same_signals E k1 k2" "krun E k2" "sched_on k2 = sched_on k1" "ThisTask k2 = hd Q" "hd Q \<in> tasks E"
      "tc_State k2 (hd Q) = TS_RUN" "tc_Context k2 = tc_Context k1"
    using core_Dispatch_ok [OF st1 s1(2,7) hd] by auto
  have "hd Q \<noteq> 0" using arena_nonnull [OF fam_arena, of "cells k" "tasks E \<union> messages E" "klists E k" F] kl s2(8)
    by (auto simp: klist_def)
  then have "core_ExitInterrupt m k = Some (k2, ((tc_Context k)(ThisTask k := m)) (hd Q))"
    using sch s1(1,8) s2(1,10) by (simp add: core_ExitInterrupt_def cpu_Switch_def cpu_Dispatch_def)
  moreover have "same_config k k2" "same_signals E k k2"
    using s1(3,4) s2(3,4) same_config_trans same_signals_trans save_context_simps(10,11) by blast+
  moreover have "\<forall>p\<in>ports E. (F1(TaskReady k1 := tl Q)) (mp_MsgList p) = F (mp_MsgList p)"
    using s1(5) kstatic_ne(2) [OF st] rd by simp
  ultimately show ?thesis using s1 s2 kr rd
    by (intro exI [of _ k2] exI [of _ "F1(TaskReady k1 := tl Q)"]) simp
qed

subsection \<open>Wait, Signal and the ports keep the invariant\<close>

lemma forbid_simps [simp]:
  "cells (Forbid k) = cells k" "ln_Pri (Forbid k) = ln_Pri k" "tc_State (Forbid k) = tc_State k"
  "tc_SigRecvd (Forbid k) = tc_SigRecvd k" "tc_SigWait (Forbid k) = tc_SigWait k"
  "ThisTask (Forbid k) = ThisTask k" "TaskReady (Forbid k) = TaskReady k" "TaskWait (Forbid k) = TaskWait k"
  "boot_task (Forbid k) = boot_task k" "sched_on (Forbid k) = sched_on k" "mp_SigTask (Forbid k) = mp_SigTask k"
  "mp_Flags (Forbid k) = mp_Flags k" "mp_SigBit (Forbid k) = mp_SigBit k"
  by (simp_all add: Forbid_def)

lemma permit_simps [simp]:
  "cells (Permit k) = cells k" "ln_Pri (Permit k) = ln_Pri k" "tc_State (Permit k) = tc_State k"
  "tc_SigRecvd (Permit k) = tc_SigRecvd k" "tc_SigWait (Permit k) = tc_SigWait k"
  "ThisTask (Permit k) = ThisTask k" "TaskReady (Permit k) = TaskReady k" "TaskWait (Permit k) = TaskWait k"
  "boot_task (Permit k) = boot_task k" "sched_on (Permit k) = sched_on k" "mp_SigTask (Permit k) = mp_SigTask k"
  "mp_Flags (Permit k) = mp_Flags k" "mp_SigBit (Permit k) = mp_SigBit k"
  by (simp_all add: Permit_def)

lemma set_state_simps [simp]:
  "cells (set_state t s k) = cells k" "ln_Pri (set_state t s k) = ln_Pri k"
  "tc_State (set_state t s k) = (tc_State k)(t := s)"
  "tc_SigRecvd (set_state t s k) = tc_SigRecvd k" "tc_SigWait (set_state t s k) = tc_SigWait k"
  "ThisTask (set_state t s k) = ThisTask k" "TaskReady (set_state t s k) = TaskReady k"
  "TaskWait (set_state t s k) = TaskWait k" "boot_task (set_state t s k) = boot_task k"
  "sched_on (set_state t s k) = sched_on k" "mp_SigTask (set_state t s k) = mp_SigTask k"
  "mp_Flags (set_state t s k) = mp_Flags k" "mp_SigBit (set_state t s k) = mp_SigBit k"
  by (simp_all add: set_state_def)

lemma ksig_upd:
  assumes "ksig E k pcs"
    and "\<And>u. u \<in> tasks E \<Longrightarrow> u \<noteq> t \<Longrightarrow> tc_State k' u = tc_State k u \<and> tc_SigRecvd k' u = tc_SigRecvd k u \<and>
      tc_SigWait k' u = tc_SigWait k u \<and> pcs' u = pcs u"
    and "tc_State k' t = TS_WAIT \<Longrightarrow> (\<exists>po. pcs' t = TWait (tc_SigWait k' t) po) \<and> tc_SigRecvd k' t AND tc_SigWait k' t = 0"
    and "\<And>ss po. pcs' t = TWait ss po \<Longrightarrow> tc_State k' t \<noteq> TS_WAIT \<Longrightarrow> tc_SigRecvd k' t AND ss \<noteq> 0"
  shows "ksig E k' pcs'"
  unfolding ksig_def
proof
  fix u
  assume u: "u \<in> tasks E"
  show "(tc_State k' u = TS_WAIT \<longrightarrow>
        (\<exists>po. pcs' u = TWait (tc_SigWait k' u) po) \<and> tc_SigRecvd k' u AND tc_SigWait k' u = 0) \<and>
     (\<forall>ss po. pcs' u = TWait ss po \<longrightarrow> tc_State k' u \<noteq> TS_WAIT \<longrightarrow> tc_SigRecvd k' u AND ss \<noteq> 0)"
  proof (cases "u = t")
    case True
    then show ?thesis using assms(3,4) by blast
  next
    case False
    then show ?thesis using assms(1) assms(2) [OF u False] u by (simp add: ksig_def)
  qed
qed

text \<open>A change of one task's program point and received signals.\<close>

lemma kport_upd:
  assumes kp: "kport E k pcs sent F" and cfg: "same_config k k'"
    and oth: "\<And>u. u \<noteq> t \<Longrightarrow> tc_SigRecvd k' u = tc_SigRecvd k u \<and> pcs' u = pcs u"
    and F: "\<And>p. p \<in> ports E \<Longrightarrow> F' (mp_MsgList p) = F (mp_MsgList p)"
    and a: "\<And>p. pcs' t = TPort p \<or> in_WaitPort (pcs' t) p \<Longrightarrow> p \<in> ports E \<and> mp_SigTask k p = t"
    and b: "\<And>ss p. pcs' t = TWait ss (Some p) \<Longrightarrow> ss = port_sig k p" and c: "\<And>p. pcs' t \<noteq> TPutSig p"
    and d: "\<And>p. pcs t \<noteq> TPutSig p"
    and e: "\<And>p. p \<in> ports E \<Longrightarrow> in_WaitPort (pcs' t) p \<Longrightarrow> F (mp_MsgList p) \<noteq> [] \<Longrightarrow>
      tc_SigRecvd k' t AND port_sig k p \<noteq> 0 \<or> (\<exists>u\<in>tasks E. pcs u = TPutSig p)"
  shows "kport E k' pcs' sent F'"
proof -
  have "pcs' u = TPutSig p \<longleftrightarrow> pcs u = TPutSig p" for u p
    by (cases "u = t") (simp_all add: oth c d)
  then have put: "(\<exists>u\<in>tasks E. pcs' u = TPutSig p) \<longleftrightarrow> (\<exists>u\<in>tasks E. pcs u = TPutSig p)" for p
    by simp
  have sg: "port_sig k' p = port_sig k p" "mp_SigTask k' p = mp_SigTask k p" for p
    using cfg port_sig_cong [OF cfg] by (simp_all add: same_config_def)
  have here: "(pcs' u = TPort p \<or> in_WaitPort (pcs' u) p \<longrightarrow> p \<in> ports E \<and> mp_SigTask k p = u) \<and>
      (\<forall>ss. pcs' u = TWait ss (Some p) \<longrightarrow> ss = port_sig k p) \<and> (pcs' u = TPutSig p \<longrightarrow> p \<in> ports E)"
    if u: "u \<in> tasks E" for u p
  proof (cases "u = t")
    case True
    then show ?thesis using a [of p] b [of _ p] c [of p] by blast
  next
    case False
    then have e: "pcs' u = pcs u" using oth by blast
    show ?thesis
      unfolding e by (rule bspec [OF conjunct1 [OF kp [unfolded kport_def]] u, THEN spec])
  qed
  have wake: "tc_SigRecvd k' (mp_SigTask k p) AND port_sig k p \<noteq> 0 \<or> (\<exists>u\<in>tasks E. pcs' u = TPutSig p)"
    if p: "p \<in> ports E" "in_WaitPort (pcs' (mp_SigTask k p)) p" "F (mp_MsgList p) \<noteq> []" for p
  proof (cases "mp_SigTask k p = t")
    case True
    then show ?thesis using e [of p] p put by metis
  next
    case False
    then have q: "pcs' (mp_SigTask k p) = pcs (mp_SigTask k p)"
        "tc_SigRecvd k' (mp_SigTask k p) = tc_SigRecvd k (mp_SigTask k p)" using oth by blast+
    show ?thesis using p(2,3) unfolding put q
      by (rule bspec [OF conjunct2 [OF conjunct2 [OF kp [unfolded kport_def]]] p(1), THEN mp, THEN mp])
  qed
  have "sent = (\<Union>p\<in>ports E. set (F (mp_MsgList p)))" using kp by (simp add: kport_def)
  then have "sent = (\<Union>p\<in>ports E. set (F' (mp_MsgList p)))" using F by simp
  then show ?thesis unfolding kport_def sg using here wake F by simp
qed

lemma running_state:
  assumes "kinv E (k, pcs, sent)" "running E k t" "\<And>ss po. pcs t \<noteq> TWait ss po"
  shows "tc_State k t = TS_RUN"
proof -
  have t: "t \<in> tasks E" "ThisTask k = t" "sched_on k" using assms(2) by (simp_all add: running_def)
  have "krun E k" "ksig E k pcs" using assms(1) by (simp_all add: kinv_def)
  then have "tc_State k t \<in> {TS_RUN, TS_WAIT}" "tc_State k t = TS_WAIT \<longrightarrow> (\<exists>po. pcs t = TWait (tc_SigWait k t) po)"
    using t unfolding krun_def ksig_def by blast+
  then show ?thesis using assms(3) by blast
qed

lemma Wait_begin_block:
  assumes w: "Wait_begin ss k = Some (k', None)" and t: "ThisTask k = t"
  shows "tc_SigRecvd k t AND ss = 0 \<and> (\<exists>k1. enqueue_on (TaskWait k) t
      (set_state t TS_WAIT ((Forbid k)\<lparr>tc_SigWait := (tc_SigWait k)(t := ss)\<rparr>)) = Some k1 \<and> k' = Permit k1)"
  using assms by (auto simp: Wait_begin_def Let_def split: if_splits)

lemma Wait_begin_now:
  assumes "Wait_begin ss k = Some (k', Some r)" "ThisTask k = t"
  shows "tc_SigRecvd k t AND ss \<noteq> 0" "r = tc_SigRecvd k t AND ss"
    "k' = Permit ((Forbid k)\<lparr>tc_SigRecvd := (tc_SigRecvd k)(t := tc_SigRecvd k t AND NOT ss)\<rparr>)"
  using assms by (auto simp: Wait_begin_def Let_def split: if_splits)

lemma kinvI:
  "kstatic E k \<Longrightarrow> krun E k \<Longrightarrow> ksig E k pcs \<Longrightarrow> klist E k F \<Longrightarrow> kport E k pcs sent F \<Longrightarrow> kinv E (k, pcs, sent)"
  by (auto simp: kinv_def)

lemma kinvE:
  assumes "kinv E (k, pcs, sent)"
  obtains F where "kstatic E k" "krun E k" "ksig E k pcs" "klist E k F" "kport E k pcs sent F"
  using assms by (auto simp: kinv_def)

lemma krun_cong:
  assumes "krun E k" "ThisTask k' = ThisTask k" "boot_task k' = boot_task k" "sched_on k' = sched_on k"
    "\<And>t. t \<in> tasks E \<Longrightarrow> tc_State k' t = TS_RUN \<longleftrightarrow> tc_State k t = TS_RUN"
    "\<And>t. t \<in> tasks E \<Longrightarrow> tc_State k' t \<in> {TS_RUN, TS_WAIT} \<longleftrightarrow> tc_State k t \<in> {TS_RUN, TS_WAIT}"
  shows "krun E k'"
  using assms unfolding krun_def by simp

text \<open>Clearing received bits, which \<open>Wait\<close> does as it returns.\<close>

lemma clear_signals_inv:
  assumes inv: "kinv E (k, pcs, sent)" and t: "t \<in> tasks E" "tc_State k t \<noteq> TS_WAIT"
    and k': "k' = Permit ((Forbid k)\<lparr>tc_SigRecvd := (tc_SigRecvd k)(t := v)\<rparr>)"
    and c: "c = TUser \<or> (\<exists>p\<in>ports E. c = TPort p \<and> mp_SigTask k p = t)" and np: "\<And>p. pcs t \<noteq> TPutSig p"
  shows "kinv E (k', pcs(t := c), sent)"
proof -
  obtain F where I: "kstatic E k" "krun E k" "ksig E k pcs" "klist E k F" "kport E k pcs sent F"
    using inv by (rule kinvE)
  have cfg: "same_config k k'" by (simp add: k' same_config_def)
  show ?thesis
  proof (rule kinvI)
    show "kstatic E k'" by (rule kstatic_cong [OF cfg I(1)])
    show "krun E k'" by (rule krun_cong [OF I(2)]) (simp_all add: k')
    show "klist E k' F" by (rule klist_cong [OF I(4)]) (simp_all add: k')
    show "ksig E k' (pcs(t := c))"
      by (rule ksig_upd [OF I(3), where t = t]) (use t c in \<open>auto simp: k'\<close>)
    show "kport E k' (pcs(t := c)) sent F"
      by (rule kport_upd [OF I(5) cfg, where t = t])
         (use c np in \<open>auto simp: k' in_WaitPort_def\<close>)
  qed
qed

text \<open>Blocking: the task joins \<open>TaskWait\<close> with none of its awaited bits received.\<close>

lemma block_inv:
  assumes inv: "kinv E (k, pcs, sent)" and t: "running E k t" and w: "Wait_begin ss k = Some (k', None)"
    and c: "pcs t = TUser \<and> po = None \<or> (\<exists>p. pcs t = TChecked p \<and> po = Some p \<and> ss = port_sig k p)"
  shows "kinv E (k', pcs(t := TWait ss po), sent)"
proof -
  obtain F where I: "kstatic E k" "krun E k" "ksig E k pcs" "klist E k F" "kport E k pcs sent F"
    using inv by (rule kinvE)
  have tt: "t \<in> tasks E" "ThisTask k = t" "sched_on k" using t by (simp_all add: running_def)
  have run: "tc_State k t = TS_RUN" by (rule running_state [OF inv t]) (use c in auto)
  let ?k = "(Forbid k)\<lparr>tc_SigWait := (tc_SigWait k)(t := ss)\<rparr>"
  have cfg0: "same_config k ?k" by (simp add: same_config_def)
  have "klist E ?k F" by (rule klist_cong [OF I(4)]) simp_all
  then obtain h' where h': "enqueue_on (TaskWait k) t (set_state t TS_WAIT ?k) = Some ((set_state t TS_WAIT ?k)\<lparr>cells := h'\<rparr>)"
      "klist E ((set_state t TS_WAIT ?k)\<lparr>cells := h'\<rparr>) (F(TaskWait k := abs_enqueue (ln_Pri k) t (F (TaskWait k))))"
    using klist_enqueue [OF kstatic_cong [OF cfg0 I(1)] _ tt(1), of F "TaskWait k" TS_WAIT] run by auto
  have k': "k' = Permit ((set_state t TS_WAIT ?k)\<lparr>cells := h'\<rparr>)" and z: "tc_SigRecvd k t AND ss = 0"
    using Wait_begin_block [OF w tt(2)] h'(1) by auto
  have cfg: "same_config k k'" by (simp add: k' same_config_def)
  show ?thesis
  proof (rule kinvI)
    show "kstatic E k'" by (rule kstatic_cong [OF cfg I(1)])
    have nr: "u \<in> tasks E \<Longrightarrow> u \<noteq> t \<Longrightarrow> tc_State k u \<noteq> TS_RUN" for u
      using I(2) tt unfolding krun_def by blast
    show "krun E k'" using nr tt unfolding krun_def by (auto simp: k')
    show "klist E k' (F(TaskWait k := abs_enqueue (ln_Pri k) t (F (TaskWait k))))"
      by (rule klist_cong [OF h'(2)]) (simp_all add: k')
    show "ksig E k' (pcs(t := TWait ss po))"
      by (rule ksig_upd [OF I(3), where t = t]) (use z in \<open>auto simp: k'\<close>)
    have cp: "p \<in> ports E \<and> mp_SigTask k p = t" if "pcs t = TChecked p" for p
      using I(5) tt(1) that unfolding kport_def in_WaitPort_def by blast
    have still: "\<exists>u\<in>tasks E. pcs u = TPutSig p"
      if p: "p \<in> ports E" "po = Some p" "F (mp_MsgList p) \<noteq> []" for p
    proof -
      have "pcs t = TChecked p" "ss = port_sig k p" using c p(2) by auto
      then have "tc_SigRecvd k t AND port_sig k p \<noteq> 0 \<or> (\<exists>u\<in>tasks E. pcs u = TPutSig p)"
        using I(5) p cp unfolding kport_def in_WaitPort_def by metis
      then show ?thesis using z \<open>ss = port_sig k p\<close> by simp
    qed
    show "kport E k' (pcs(t := TWait ss po)) sent (F(TaskWait k := abs_enqueue (ln_Pri k) t (F (TaskWait k))))"
      by (rule kport_upd [OF I(5) cfg, where t = t])
         (use c cp still kstatic_ne(3) [OF I(1)] in \<open>auto simp: k' in_WaitPort_def\<close>)
  qed
qed

lemma word_or_and_nz: "(x :: u32) AND s \<noteq> 0 \<Longrightarrow> (x OR y) AND s \<noteq> 0"
  by (auto simp: bit_eq_iff bit_simps)

lemma port_sig_nz: "kstatic E k \<Longrightarrow> p \<in> ports E \<Longrightarrow> (x OR port_sig k p) AND port_sig k p \<noteq> 0"
proof -
  assume "kstatic E k" "p \<in> ports E"
  then have "unat (mp_SigBit k p) < 32" by (simp add: kstatic_def)
  then have "bit ((x OR port_sig k p) AND port_sig k p) (unat (mp_SigBit k p))"
    by (simp add: port_sig_def bit_simps)
  then show ?thesis by (metis bit_0_eq bot_apply bot_bool_def)
qed

lemma Signal_ok:
  assumes st: "kstatic E k" and kl: "klist E k F" and u: "u \<in> tasks E"
  shows "\<exists>k' F'. Signal u ss k = Some k' \<and> klist E k' F' \<and> same_config k k' \<and>
    tc_SigRecvd k' = (tc_SigRecvd k)(u := tc_SigRecvd k u OR ss) \<and> tc_SigWait k' = tc_SigWait k \<and>
    ThisTask k' = ThisTask k \<and> sched_on k' = sched_on k \<and>
    tc_State k' = (tc_State k)(u := if (tc_SigRecvd k u OR ss) AND tc_SigWait k u \<noteq> 0 \<and> tc_State k u = TS_WAIT
                               then TS_READY else tc_State k u) \<and>
    (\<forall>p\<in>ports E. F' (mp_MsgList p) = F (mp_MsgList p))"
proof (cases "(tc_SigRecvd k u OR ss) AND tc_SigWait k u \<noteq> 0 \<and> tc_State k u = TS_WAIT")
  case True
  let ?k = "(Forbid k)\<lparr>tc_SigRecvd := (tc_SigRecvd k)(u := tc_SigRecvd k u OR ss)\<rparr>"
  let ?kz = "set_state u TS_INVALID (?k\<lparr>cells := Remove (cells k) u\<rparr>)"
  let ?kr = "set_state u TS_READY (?k\<lparr>cells := Remove (cells k) u\<rparr>)"
  let ?Fz = "F(TaskWait k := remove1 u (F (TaskWait k)))"
  have cfg: "same_config k ?k" "same_config k ?kz" by (simp_all add: same_config_def)
  have "klist E ?k F" by (rule klist_cong [OF kl]) simp_all
  then have "klist E ?kz ?Fz"
    using klist_unlink [OF kstatic_cong [OF cfg(1) st] _ u, of F TS_INVALID "TaskWait k"] True by simp
  then obtain h' where h': "enqueue_on (TaskReady k) u (set_state u TS_READY ?kz) = Some ((set_state u TS_READY ?kz)\<lparr>cells := h'\<rparr>)"
      "klist E ((set_state u TS_READY ?kz)\<lparr>cells := h'\<rparr>) (?Fz(TaskReady k := abs_enqueue (ln_Pri k) u (?Fz (TaskReady k))))"
    using klist_enqueue [OF kstatic_cong [OF cfg(2) st] _ u, of ?Fz "TaskReady k" TS_READY] by auto
  have e: "set_state u TS_READY ?kz = ?kr" by (simp add: set_state_def)
  have "Signal u ss k = Some (Permit (?kr\<lparr>cells := h'\<rparr>))"
    using True h'(1) unfolding e by (simp add: Signal_def Let_def)
  moreover have "klist E (Permit (?kr\<lparr>cells := h'\<rparr>)) (?Fz(TaskReady k := abs_enqueue (ln_Pri k) u (?Fz (TaskReady k))))"
    by (rule klist_cong [OF h'(2) [unfolded e]]) simp_all
  ultimately show ?thesis using True kstatic_ne [OF st]
    by (intro exI [of _ "Permit (?kr\<lparr>cells := h'\<rparr>)"]
          exI [of _ "?Fz(TaskReady k := abs_enqueue (ln_Pri k) u (?Fz (TaskReady k)))"]) (simp add: same_config_def)
next
  case False
  let ?k' = "Permit ((Forbid k)\<lparr>tc_SigRecvd := (tc_SigRecvd k)(u := tc_SigRecvd k u OR ss)\<rparr>)"
  have "Signal u ss k = Some ?k'" using False by (auto simp: Signal_def Let_def)
  moreover have "klist E ?k' F" by (rule klist_cong [OF kl]) simp_all
  ultimately show ?thesis using False
    by (intro exI [of _ ?k'] exI [of _ F]) (auto simp: same_config_def)
qed

lemma Signal_inv:
  assumes inv: "kinv E (k, pcs, sent)" and t: "running E k t" and u: "u \<in> tasks E" and S: "Signal u ss k = Some k'"
    and c: "pcs t = TUser \<or> (\<exists>p\<in>ports E. pcs t = TPutSig p \<and> u = mp_SigTask k p \<and> ss = port_sig k p)"
  shows "kinv E (k', pcs(t := TUser), sent)"
proof -
  obtain F where I: "kstatic E k" "krun E k" "ksig E k pcs" "klist E k F" "kport E k pcs sent F"
    using inv by (rule kinvE)
  have tt: "t \<in> tasks E" "ThisTask k = t" "sched_on k" using t by (simp_all add: running_def)
  have run: "tc_State k t = TS_RUN" by (rule running_state [OF inv t]) (use c in auto)
  obtain F' where k': "klist E k' F'" "same_config k k'"
      "tc_SigRecvd k' = (tc_SigRecvd k)(u := tc_SigRecvd k u OR ss)" "tc_SigWait k' = tc_SigWait k"
      "ThisTask k' = ThisTask k" "sched_on k' = sched_on k"
      "tc_State k' = (tc_State k)(u := if (tc_SigRecvd k u OR ss) AND tc_SigWait k u \<noteq> 0 \<and> tc_State k u = TS_WAIT
                                 then TS_READY else tc_State k u)"
      "\<forall>p\<in>ports E. F' (mp_MsgList p) = F (mp_MsgList p)"
    using Signal_ok [OF I(1,4) u, of ss] S by (elim exE conjE) (simp del: fun_upd_apply)
  have grow: "tc_SigRecvd k v AND s \<noteq> 0 \<Longrightarrow> tc_SigRecvd k' v AND s \<noteq> 0" for v s
    using word_or_and_nz [of "tc_SigRecvd k u" s ss] by (auto simp: k'(3))
  have nr: "v \<in> tasks E \<Longrightarrow> v \<noteq> t \<Longrightarrow> tc_State k v \<noteq> TS_RUN" for v
    using I(2) tt unfolding krun_def by blast
  have sg: "port_sig k' p = port_sig k p" "mp_SigTask k' p = mp_SigTask k p" for p
    using k'(2) port_sig_cong [OF k'(2)] by (simp_all add: same_config_def)
  have ctt: "\<And>s po. pcs t \<noteq> TWait s po" "\<And>p. pcs t \<noteq> TPort p" using c by auto
  show ?thesis
  proof (rule kinvI)
    show "kstatic E k'" by (rule kstatic_cong [OF k'(2) I(1)])
    show "krun E k'" using nr tt run unfolding krun_def by (auto simp: k'(5-7))
    show "klist E k' F'" by (rule k'(1))
    have "ksig E k' pcs"
    proof (rule ksig_upd [OF I(3), where t = u])
      assume w: "tc_State k' u = TS_WAIT"
      then have "tc_State k u = TS_WAIT" "(tc_SigRecvd k u OR ss) AND tc_SigWait k u = 0"
        by (auto simp: k'(7) split: if_splits)
      then show "(\<exists>po. pcs u = TWait (tc_SigWait k' u) po) \<and> tc_SigRecvd k' u AND tc_SigWait k' u = 0"
        using I(3) u by (simp add: ksig_def k'(3,4))
    next
      fix s po
      assume w: "pcs u = TWait s po" "tc_State k' u \<noteq> TS_WAIT"
      show "tc_SigRecvd k' u AND s \<noteq> 0"
      proof (cases "tc_State k u = TS_WAIT")
        case True
        then have "s = tc_SigWait k u" using I(3) u w(1) by (auto simp: ksig_def)
        then show ?thesis using w(2) True by (auto simp: k'(3,7) split: if_splits)
      next
        case False
        then show ?thesis using grow I(3) u w(1) unfolding ksig_def by blast
      qed
    qed (simp add: k'(3,4,7))
    moreover have "tc_State k' t \<noteq> TS_WAIT" using run by (cases "t = u") (auto simp: k'(7))
    ultimately show "ksig E k' (pcs(t := TUser))" by (simp add: ksig_def)
    have sent: "sent = (\<Union>p\<in>ports E. set (F' (mp_MsgList p)))"
      using I(5) k'(8) by (simp add: kport_def)
    have here: "((pcs(t := TUser)) v = TPort p \<or> in_WaitPort ((pcs(t := TUser)) v) p \<longrightarrow> p \<in> ports E \<and> mp_SigTask k p = v) \<and>
      (\<forall>ss. (pcs(t := TUser)) v = TWait ss (Some p) \<longrightarrow> ss = port_sig k p) \<and> ((pcs(t := TUser)) v = TPutSig p \<longrightarrow> p \<in> ports E)"
      if v: "v \<in> tasks E" for v p
      using bspec [OF conjunct1 [OF I(5) [unfolded kport_def]] v, THEN spec, of p]
      by (auto simp: in_WaitPort_def)
    have wake: "tc_SigRecvd k' (mp_SigTask k p) AND port_sig k p \<noteq> 0 \<or> (\<exists>v\<in>tasks E. (pcs(t := TUser)) v = TPutSig p)"
      if p: "p \<in> ports E" "in_WaitPort ((pcs(t := TUser)) (mp_SigTask k p)) p" "F (mp_MsgList p) \<noteq> []" for p
    proof -
      have "in_WaitPort (pcs (mp_SigTask k p)) p" using p(2) by (auto simp: in_WaitPort_def split: if_splits)
      then consider "tc_SigRecvd k (mp_SigTask k p) AND port_sig k p \<noteq> 0" | v where "v \<in> tasks E" "pcs v = TPutSig p"
        using I(5) p unfolding kport_def by blast
      then show ?thesis
      proof cases
        case 1
        then show ?thesis using grow by blast
      next
        case 2
        then show ?thesis
        proof (cases "v = t")
          case True
          then have "u = mp_SigTask k p" "ss = port_sig k p" using c 2 by auto
          then show ?thesis using port_sig_nz [OF I(1) p(1)] by (simp add: k'(3))
        next
          case False
          then show ?thesis using 2 by auto
        qed
      qed
    qed
    show "kport E k' (pcs(t := TUser)) sent F'"
      unfolding kport_def sg using here sent wake k'(8) by simp
  qed
qed

lemma klist_ports:
  assumes "klist E k F" "p \<in> ports E"
  shows "fam (cells k) (tasks E \<union> messages E) (klists E k) F" "mp_MsgList p \<in> klists E k"
    "set (F (mp_MsgList p)) \<subseteq> messages E"
  using assms by (auto simp: klist_def klists_def)

lemma mp_MsgList_inj [simp]: "mp_MsgList p = mp_MsgList q \<longleftrightarrow> p = q"
  by (simp add: mp_MsgList_def)

lemma klist_msgs:
  assumes kl: "klist E k F" and st: "kstatic E k" and p: "p \<in> ports E"
    and f: "fam h (tasks E \<union> messages E) (klists E k) (F(mp_MsgList p := ms))" and m: "set ms \<subseteq> messages E"
    and k': "cells k' = h" "ln_Pri k' = ln_Pri k" "TaskReady k' = TaskReady k" "TaskWait k' = TaskWait k"
      "tc_State k' = tc_State k"
  shows "klist E k' (F(mp_MsgList p := ms))"
  using kl f m kstatic_ne(2,3) [OF st p] unfolding klist_def klists_def k' by auto

lemma ports_split:
  assumes "p \<in> P"
  shows "(\<Union>q\<in>P. set ((F(mp_MsgList p := ms)) (mp_MsgList q))) = set ms \<union> (\<Union>q\<in>P - {p}. set (F (mp_MsgList q)))"
    "(\<Union>q\<in>P. set (F (mp_MsgList q))) = set (F (mp_MsgList p)) \<union> (\<Union>q\<in>P - {p}. set (F (mp_MsgList q)))"
  using assms by (auto split: if_splits)

lemma put_inv:
  assumes inv: "kinv E (k, pcs, sent)" and t: "running E k t" and c: "pcs t = TUser"
    and p: "p \<in> ports E" and m: "msg \<in> messages E" "msg \<notin> sent"
  shows "kinv E (PutMsg_add p msg k, pcs(t := TPutSig p), insert msg sent)"
proof -
  obtain F where I: "kstatic E k" "krun E k" "ksig E k pcs" "klist E k F" "kport E k pcs sent F"
    using inv by (rule kinvE)
  have tt: "t \<in> tasks E" "ThisTask k = t" using t by (simp_all add: running_def)
  have run: "tc_State k t = TS_RUN" by (rule running_state [OF inv t]) (use c in auto)
  have snt: "sent = (\<Union>p\<in>ports E. set (F (mp_MsgList p)))" using I(5) by (simp add: kport_def)
  have "unlinked (klists E k) F msg"
    using m snt I(1,4) by (auto simp: unlinked_def klists_def klist_def kstatic_def)
  note f = fam_AddTail [OF klist_ports(1,2) [OF I(4) p] _ this]
  let ?F = "F(mp_MsgList p := F (mp_MsgList p) @ [msg])" and ?k = "PutMsg_add p msg k"
  have fs: "tc_State ?k = tc_State k" "tc_SigRecvd ?k = tc_SigRecvd k" "tc_SigWait ?k = tc_SigWait k"
    "ThisTask ?k = ThisTask k" "sched_on ?k = sched_on k" "boot_task ?k = boot_task k"
    by (simp_all add: PutMsg_add_def Let_def)
  have cfg: "same_config k ?k" by (simp add: same_config_def PutMsg_add_def Let_def)
  have sg: "port_sig ?k q = port_sig k q" "mp_SigTask ?k q = mp_SigTask k q" for q
    using cfg port_sig_cong [OF cfg] by (simp_all add: same_config_def)
  show ?thesis
  proof (rule kinvI)
    show "kstatic E ?k" by (rule kstatic_cong [OF cfg I(1)])
    show "krun E ?k" by (rule krun_cong [OF I(2)]) (simp_all add: fs)
    show "klist E ?k ?F"
      by (rule klist_msgs [OF I(4,1) p f])
         (use m klist_ports(3) [OF I(4) p] in \<open>auto simp: PutMsg_add_def Let_def\<close>)
    show "ksig E ?k (pcs(t := TPutSig p))"
      using I(3) run by (simp add: ksig_def fs)
    have here: "((pcs(t := TPutSig p)) v = TPort q \<or> in_WaitPort ((pcs(t := TPutSig p)) v) q \<longrightarrow>
        q \<in> ports E \<and> mp_SigTask k q = v) \<and>
      (\<forall>ss. (pcs(t := TPutSig p)) v = TWait ss (Some q) \<longrightarrow> ss = port_sig k q) \<and>
      ((pcs(t := TPutSig p)) v = TPutSig q \<longrightarrow> q \<in> ports E)"
      if v: "v \<in> tasks E" for v q
      using bspec [OF conjunct1 [OF I(5) [unfolded kport_def]] v, THEN spec, of q] p
      by (auto simp: in_WaitPort_def)
    have sent: "insert msg sent = (\<Union>q\<in>ports E. set (?F (mp_MsgList q)))"
      unfolding snt ports_split [OF p] by simp
    have wake: "tc_SigRecvd k (mp_SigTask k q) AND port_sig k q \<noteq> 0 \<or> (\<exists>v\<in>tasks E. (pcs(t := TPutSig p)) v = TPutSig q)"
      if q: "q \<in> ports E" "in_WaitPort ((pcs(t := TPutSig p)) (mp_SigTask k q)) q" "?F (mp_MsgList q) \<noteq> []" for q
    proof (cases "q = p")
      case True
      then show ?thesis using tt by auto
    next
      case False
      then have "F (mp_MsgList q) \<noteq> []" "in_WaitPort (pcs (mp_SigTask k q)) q"
        using q(2,3) by (auto simp: in_WaitPort_def split: if_splits)
      then consider "tc_SigRecvd k (mp_SigTask k q) AND port_sig k q \<noteq> 0" | v where "v \<in> tasks E" "pcs v = TPutSig q"
        using I(5) q(1) unfolding kport_def by blast
      then show ?thesis
      proof cases
        case 2
        then show ?thesis using c by (intro disjI2 bexI [of _ v]) auto
      qed simp
    qed
    show "kport E ?k (pcs(t := TPutSig p)) (insert msg sent) ?F"
      unfolding kport_def sg fs using here sent wake by blast
  qed
qed

lemma get_inv:
  assumes inv: "kinv E (k, pcs, sent)" and p: "p \<in> ports E" and g: "GetMsg p k = (k', m)"
  shows "kinv E (k', pcs, sent - {m})"
proof -
  obtain F where I: "kstatic E k" "krun E k" "ksig E k pcs" "klist E k F" "kport E k pcs sent F"
    using inv by (rule kinvE)
  note fam = klist_ports(1,2) [OF I(4) p]
  let ?l = "mp_MsgList p"
  define ms where "ms = tl (F ?l)"
  have R: "m = (case F ?l of [] \<Rightarrow> 0 | x # _ \<Rightarrow> x) \<and>
      fam (cells k') (tasks E \<union> messages E) (klists E k) (F(?l := ms))"
  proof (cases "F ?l")
    case Nil
    then have "F(?l := ms) = F" by (auto simp: ms_def)
    then show ?thesis
      using Nil g fam_RemHead_nil [OF fam Nil] fam(1) by (simp add: GetMsg_def Let_def) auto
  next
    case (Cons x xs)
    then show ?thesis
      using g fam_RemHead_cons [OF fam Cons] by (auto simp: GetMsg_def Let_def ms_def split: prod.splits)
  qed
  have fs: "tc_State k' = tc_State k" "tc_SigRecvd k' = tc_SigRecvd k" "tc_SigWait k' = tc_SigWait k"
    "ThisTask k' = ThisTask k" "sched_on k' = sched_on k" "boot_task k' = boot_task k" "ln_Pri k' = ln_Pri k"
    "TaskReady k' = TaskReady k" "TaskWait k' = TaskWait k"
    using g by (auto simp: GetMsg_def Let_def split: prod.splits)
  have cfg: "same_config k k'"
    using g by (auto simp: same_config_def GetMsg_def Let_def split: prod.splits)
  have sg: "port_sig k' q = port_sig k q" "mp_SigTask k' q = mp_SigTask k q" for q
    using cfg port_sig_cong [OF cfg] by (simp_all add: same_config_def)
  have d: "distinct (F ?l)" by (rule fam_distinct [OF fam])
  have oth: "m \<notin> set (F (mp_MsgList q))" if "q \<in> ports E" "q \<noteq> p" for q
  proof (cases "F ?l")
    case Nil
    then have "m = 0" using R by simp
    moreover have "0 \<notin> messages E" using fam_arena [OF fam(1)] by (auto simp: arena_def)
    ultimately show ?thesis using klist_ports(3) [OF I(4) that(1)] by auto
  next
    case (Cons x xs)
    then have "m = x" using R by simp
    then show ?thesis
      using fam_linked_once [OF fam, of m "mp_MsgList q"] klist_ports(2) [OF I(4) that(1)] that(2) Cons by auto
  qed
  have own: "set (F ?l) - {m} = set ms"
  proof (cases "F ?l")
    case Nil
    then show ?thesis by (simp add: ms_def)
  next
    case (Cons x xs)
    then show ?thesis using R d by (auto simp: ms_def)
  qed
  have snt: "sent = (\<Union>q\<in>ports E. set (F (mp_MsgList q)))" using I(5) by (simp add: kport_def)
  have sent: "sent - {m} = (\<Union>q\<in>ports E. set ((F(?l := ms)) (mp_MsgList q)))"
    unfolding snt ports_split [OF p] own [symmetric] using oth by blast
  have ms: "set ms \<subseteq> messages E" using klist_ports(3) [OF I(4) p] own by auto
  show ?thesis
  proof (rule kinvI)
    show "kstatic E k'" by (rule kstatic_cong [OF cfg I(1)])
    show "krun E k'" by (rule krun_cong [OF I(2)]) (simp_all add: fs)
    show "klist E k' (F(?l := ms))"
      by (rule klist_msgs [OF I(4,1) p R [THEN conjunct2] ms]) (simp_all add: fs)
    show "ksig E k' pcs" using I(3) by (simp add: ksig_def fs)
    have ne: "F (mp_MsgList q) \<noteq> []" if "(F(?l := ms)) (mp_MsgList q) \<noteq> []" for q
      using that by (auto simp: ms_def split: if_splits)
    note kp = I(5) [unfolded kport_def]
    have "\<forall>q\<in>ports E. in_WaitPort (pcs (mp_SigTask k q)) q \<longrightarrow> (F(?l := ms)) (mp_MsgList q) \<noteq> [] \<longrightarrow>
        tc_SigRecvd k (mp_SigTask k q) AND port_sig k q \<noteq> 0 \<or> (\<exists>t\<in>tasks E. pcs t = TPutSig q)"
      using conjunct2 [OF conjunct2 [OF kp]] ne by blast
    then show "kport E k' pcs (sent - {m}) (F(?l := ms))"
      unfolding kport_def sg fs using conjunct1 [OF kp] sent by (intro conjI)
  qed
qed

lemma init_simps [simp]:
  "cells (init_contexts ws m k) = cells k" "ln_Pri (init_contexts ws m k) = ln_Pri k"
  "tc_State (init_contexts ws m k) = tc_State k" "ThisTask (init_contexts ws m k) = ThisTask k"
  "TaskReady (init_contexts ws m k) = TaskReady k" "TaskWait (init_contexts ws m k) = TaskWait k"
  "boot_task (init_contexts ws m k) = boot_task k" "sched_on (init_contexts ws m k) = sched_on k"
  "tc_SigRecvd (init_contexts ws m k) = tc_SigRecvd k" "tc_SigWait (init_contexts ws m k) = tc_SigWait k"
  "same_config k (init_contexts ws m k)"
  by (simp_all add: init_contexts_def Let_def same_config_def)

lemma kinv_cong:
  assumes inv: "kinv E (k, pcs, sent)" and cfg: "same_config k k'" and sg: "same_signals E k k'"
    and kr: "krun E k \<Longrightarrow> krun E k'"
    and kl: "\<And>F. klist E k F \<Longrightarrow> \<exists>F'. klist E k' F' \<and> (\<forall>p\<in>ports E. F' (mp_MsgList p) = F (mp_MsgList p))"
  shows "kinv E (k', pcs, sent)"
proof -
  obtain F where I: "kstatic E k" "krun E k" "ksig E k pcs" "klist E k F" "kport E k pcs sent F"
    using inv by (rule kinvE)
  obtain F' where F': "klist E k' F'" "\<And>p. p \<in> ports E \<Longrightarrow> F' (mp_MsgList p) = F (mp_MsgList p)"
    using kl [OF I(4)] by blast
  show ?thesis
    by (rule kinvI [OF kstatic_cong [OF cfg I(1)] kr [OF I(2)] ksig_cong [OF sg I(3)] F'(1)
          kport_cong [OF cfg sg F'(2) I(5)]])
qed

lemma on_alarm_inv:
  assumes inv: "kinv E (k, pcs, sent)" and a: "on_alarm ws m k = Some (k', m')"
  shows "kinv E (k', pcs, sent)"
proof -
  let ?k = "k\<lparr>ticks := ticks k + 1\<rparr>"
  have k1: "kinv E (?k, pcs, sent)"
    by (rule kinv_cong [OF inv])
       (auto simp: same_config_def same_signals_def krun_def intro!: exI elim: klist_cong)
  consider (off) "\<not> sched_on k" | (init) "sched_on k" "\<not> inited k"
    | (forbid) "sched_on k" "inited k" "forbid_cnt k > 0"
    | (stop) "sched_on k" "inited k" "\<not> forbid_cnt k > 0" "ticks k + 1 \<ge> TICK_LIMIT"
    | (switch) "sched_on k" "inited k" "\<not> forbid_cnt k > 0" "\<not> ticks k + 1 \<ge> TICK_LIMIT" by blast
  then show ?thesis
  proof cases
    case off
    then show ?thesis using a k1 by (simp add: on_alarm_def Let_def)
  next
    case init
    have "kinv E (init_contexts ws m ?k, pcs, sent)"
      by (rule kinv_cong [OF k1])
         (auto simp: same_signals_def krun_def intro!: exI elim!: klist_cong)
    then show ?thesis using a init by (auto simp: on_alarm_def Let_def)
  next
    case forbid
    then show ?thesis using a k1 by (simp add: on_alarm_def Let_def)
  next
    case stop
    let ?s = "set_state (boot_task k) TS_RUN (?k\<lparr>sched_on := False, ThisTask := boot_task k\<rparr>)"
    have nb: "boot_task k \<notin> tasks E" using k1 by (auto simp: kinv_def kstatic_def)
    have "kinv E (?s, pcs, sent)"
    proof (rule kinv_cong [OF k1])
      show "same_config ?k ?s" by (simp add: same_config_def)
      show "same_signals E ?k ?s" using nb by (auto simp: same_signals_def)
      show "krun E ?s" by (simp add: krun_def)
      fix F
      assume "klist E ?k F"
      then have "klist E ?s F" by (rule klist_cong) (use nb in auto)
      then show "\<exists>F'. klist E ?s F' \<and> (\<forall>p\<in>ports E. F' (mp_MsgList p) = F (mp_MsgList p))" by blast
    qed
    then show ?thesis using a stop by (simp add: on_alarm_def Let_def)
  next
    case switch
    then have e: "core_ExitInterrupt m ?k = Some (k', m')" using a by (simp add: on_alarm_def Let_def)
    obtain F where I: "kstatic E ?k" "krun E ?k" "klist E ?k F" using k1 by (rule kinvE)
    show ?thesis
    proof (cases "F (TaskReady ?k) = []")
      case True
      then have "\<not> core_Schedule ?k"
        using fam_IsListEmpty [of "cells k" "tasks E \<union> messages E" "klists E k" F "TaskReady k"] I(3)
        by (auto simp: core_Schedule_def klist_def klists_def)
      then show ?thesis using e k1 by (simp add: core_ExitInterrupt_def)
    next
      case False
      have son: "sched_on ?k" using switch by simp
      obtain F' where o: "klist E k' F'" "same_config ?k k'" "same_signals E ?k k'" "krun E k'"
        using core_ExitInterrupt_ok [OF I(1,3,2) son False, of m] e by auto
      show ?thesis
      proof (rule kinv_cong [OF k1 o(2,3)])
        show "krun E k'" by (rule o(4))
        fix G
        assume G: "klist E ?k G"
        show "\<exists>F'. klist E k' F' \<and> (\<forall>p\<in>ports E. F' (mp_MsgList p) = G (mp_MsgList p))"
        proof (cases "G (TaskReady ?k) = []")
          case True
          have "set (G (TaskReady ?k)) = set (F (TaskReady ?k))"
            using G I(3) by (simp add: klist_def)
          then show ?thesis using True False by simp
        next
          case nG: False
          then show ?thesis using core_ExitInterrupt_ok [OF I(1) G I(2) son nG, of m] e by auto
        qed
      qed
    qed
  qed
qed

lemma spawn_inv:
  assumes inv: "kinv E (k, pcs, sent)" and t: "t \<in> tasks E" "tc_State k t = TS_INVALID" "pcs t = TUser"
    and s: "spawn t q stk len k = Some k'"
  shows "kinv E (k', pcs, sent)"
proof -
  obtain F where I: "kstatic E k" "krun E k" "ksig E k pcs" "klist E k F" "kport E k pcs sent F"
    using inv by (rule kinvE)
  define k1 where "k1 = k\<lparr>ln_Pri := (ln_Pri k)(t := 0), startpc := (startpc k)(t := q),
      tc_SigRecvd := (tc_SigRecvd k)(t := 0), tc_SigWait := (tc_SigWait k)(t := 0),
      tc_SPLower := (tc_SPLower k)(t := stk), tc_SPUpper := (tc_SPUpper k)(t := stk + len),
      tc_SPReg := (tc_SPReg k)(t := stk + len)\<rparr>"
  have f1: "cells k1 = cells k" "ln_Pri k1 = (ln_Pri k)(t := 0)" "tc_State k1 = tc_State k"
    "tc_SigRecvd k1 = (tc_SigRecvd k)(t := 0)" "tc_SigWait k1 = (tc_SigWait k)(t := 0)" "ThisTask k1 = ThisTask k"
    "TaskReady k1 = TaskReady k" "TaskWait k1 = TaskWait k" "boot_task k1 = boot_task k" "sched_on k1 = sched_on k"
    "mp_SigTask k1 = mp_SigTask k" "mp_Flags k1 = mp_Flags k" "mp_SigBit k1 = mp_SigBit k"
    by (simp_all add: k1_def)
  have cfg1: "same_config k k1" by (simp add: same_config_def f1)
  have nl: "t \<notin> set (F (TaskReady k))" "t \<notin> set (F (TaskWait k))" using I(4) t by (auto simp: klist_def)
  have "klist E k1 F"
    using I(4) pri_sorted_upd [OF _ nl(1)] pri_sorted_upd [OF _ nl(2)]
    by (simp add: klist_def klists_def f1 del: fun_upd_apply)
  then obtain h' where h': "enqueue_on (TaskReady k1) t (set_state t TS_READY k1) = Some ((set_state t TS_READY k1)\<lparr>cells := h'\<rparr>)"
      "klist E ((set_state t TS_READY k1)\<lparr>cells := h'\<rparr>) (F(TaskReady k1 := abs_enqueue (ln_Pri k1) t (F (TaskReady k1))))"
    using klist_enqueue [OF kstatic_cong [OF cfg1 I(1)] _ t(1), of F "TaskReady k1" TS_READY] t(2) f1(3) by auto
  have k': "k' = (set_state t TS_READY k1)\<lparr>cells := h'\<rparr>"
    using s h'(1) by (simp add: spawn_def k1_def Let_def)
  have cfg: "same_config k k'" by (simp add: k' same_config_def f1)
  show ?thesis
  proof (rule kinvI)
    show "kstatic E k'" by (rule kstatic_cong [OF cfg I(1)])
    have "sched_on k \<Longrightarrow> ThisTask k \<in> tasks E \<Longrightarrow> ThisTask k \<noteq> t"
      using I(2) t unfolding krun_def by auto
    moreover have "u \<in> tasks E \<Longrightarrow> sched_on k \<Longrightarrow> u \<noteq> ThisTask k \<Longrightarrow> tc_State k u \<noteq> TS_RUN" for u
      using I(2) unfolding krun_def by blast
    moreover have "ThisTask k \<in> insert (boot_task k) (tasks E)"
        "sched_on k \<Longrightarrow> ThisTask k \<in> tasks E \<Longrightarrow> tc_State k (ThisTask k) \<in> {TS_RUN, TS_WAIT}"
      using I(2) unfolding krun_def by blast+
    ultimately show "krun E k'" unfolding krun_def k' by (simp add: f1) blast
    show "klist E k' (F(TaskReady k1 := abs_enqueue (ln_Pri k1) t (F (TaskReady k1))))" unfolding k' by (rule h'(2))
    show "ksig E k' pcs"
      by (rule ksig_upd [OF I(3), where t = t]) (use t in \<open>auto simp: k' f1\<close>)
    show "kport E k' pcs sent (F(TaskReady k1 := abs_enqueue (ln_Pri k1) t (F (TaskReady k1))))"
      by (rule kport_upd [OF I(5) cfg, where t = t])
         (use t kstatic_ne(2) [OF I(1)] in \<open>auto simp: k' f1 in_WaitPort_def\<close>)
  qed
qed

lemma not_WaitPort [simp]: "pcs t = TUser \<Longrightarrow> \<not> in_WaitPort (pcs t) p" "\<not> in_WaitPort TUser p" "\<not> in_WaitPort (TPort q) p"
  by (auto simp: in_WaitPort_def)

text \<open>Moves of the program point alone.\<close>

lemma pc_inv:
  assumes inv: "kinv E (k, pcs, sent)" and t: "running E k t"
    and fr: "pcs t = TUser \<or> pcs t = TPort p" and p: "p \<in> ports E" "mp_SigTask k p = t"
    and c: "c = TUser \<or> c = TPort p \<or> c = TChecked p \<and> IsListEmpty (cells k) (mp_MsgList p)"
  shows "kinv E (k, pcs(t := c), sent)"
proof -
  obtain F where I: "kstatic E k" "krun E k" "ksig E k pcs" "klist E k F" "kport E k pcs sent F"
    using inv by (rule kinvE)
  have run: "tc_State k t = TS_RUN" by (rule running_state [OF inv t]) (use fr in auto)
  have empty: "F (mp_MsgList p) = []" if "c = TChecked p"
    using that c fam_IsListEmpty [OF klist_ports(1,2) [OF I(4) p(1)]] by simp
  show ?thesis
  proof (rule kinvI [OF I(1,2) _ I(4)])
    show "ksig E k (pcs(t := c))" by (rule ksig_upd [OF I(3), where t = t]) (use run c in auto)
    show "kport E k (pcs(t := c)) sent F"
      by (rule kport_upd [OF I(5) same_config_refl, where t = t])
         (use fr p c empty in \<open>auto simp: in_WaitPort_def\<close>)
  qed
qed

lemma Wait_now_inv:
  assumes inv: "kinv E (k, pcs, sent)" and t: "running E k t" and w: "Wait_begin ss k = Some (k', Some r)"
    and c: "pcs t = TUser \<and> c = TUser \<or> (\<exists>p. pcs t = TChecked p \<and> c = TPort p)"
  shows "kinv E (k', pcs(t := c), sent)"
proof (rule clear_signals_inv [OF inv])
  have tt: "t \<in> tasks E" "ThisTask k = t" using t by (simp_all add: running_def)
  show "t \<in> tasks E" by (rule tt)
  have "tc_State k t = TS_RUN" by (rule running_state [OF inv t]) (use c in auto)
  then show "tc_State k t \<noteq> TS_WAIT" by simp
  show "k' = Permit ((Forbid k)\<lparr>tc_SigRecvd := (tc_SigRecvd k)(t := tc_SigRecvd k t AND NOT ss)\<rparr>)"
    by (rule Wait_begin_now [OF w tt(2)])
  have "p \<in> ports E \<and> mp_SigTask k p = t" if "pcs t = TChecked p" for p
    using inv tt(1) that unfolding kinv_def kport_def in_WaitPort_def by blast
  then show "c = TUser \<or> (\<exists>p\<in>ports E. c = TPort p \<and> mp_SigTask k p = t)" using c by auto
qed (use c in auto)

lemma Wait_return_inv:
  assumes inv: "kinv E (k, pcs, sent)" and t: "running E k t" "tc_State k t \<noteq> TS_WAIT"
    and w: "Wait_end t ss k = (k', r)"
    and c: "pcs t = TWait ss None \<and> c = TUser \<or> (\<exists>p. pcs t = TWait ss (Some p) \<and> c = TPort p)"
  shows "kinv E (k', pcs(t := c), sent)"
proof (rule clear_signals_inv [OF inv _ t(2)])
  show tt: "t \<in> tasks E" using t by (simp add: running_def)
  show "k' = Permit ((Forbid k)\<lparr>tc_SigRecvd := (tc_SigRecvd k)(t := tc_SigRecvd k t AND NOT ss)\<rparr>)"
    using w by (simp add: Wait_end_def Let_def)
  have "p \<in> ports E \<and> mp_SigTask k p = t" if "pcs t = TWait ss (Some p)" for p
    using inv tt that unfolding kinv_def kport_def in_WaitPort_def by blast
  then show "c = TUser \<or> (\<exists>p\<in>ports E. c = TPort p \<and> mp_SigTask k p = t)" using c by auto
qed (use c in auto)

inductive_cases kstep_cases: "kstep E w w'"

lemma port_here:
  assumes "kinv E (k, pcs, sent)" "running E k t" "pcs t = TPort p"
  shows "p \<in> ports E \<and> mp_SigTask k p = t"
proof -
  have "t \<in> tasks E" using assms(2) by (simp add: running_def)
  then show ?thesis using assms(1,3) unfolding kinv_def kport_def by blast
qed

lemma kstep_inv:
  assumes "kstep E w w'" "kinv E w"
  shows "kinv E w'"
  using assms
proof cases
  case (put_signal k t pcs p k' sent)
  obtain F where I: "kstatic E k" "kport E k pcs sent F"
    using assms(2) put_signal(1) by (auto simp: kinv_def)
  have p: "p \<in> ports E"
    using I(2) put_signal(3,4) unfolding kport_def running_def by blast
  then have c: "mp_SigTask k p \<in> tasks E" "mp_Flags k p AND 3 = PA_SIGNAL" using I(1) by (auto simp: kstatic_def)
  have "Signal (mp_SigTask k p) (port_sig k p) k = Some k' \<or> mp_SigTask k p = 0"
    using put_signal(5) c by (auto simp: PutMsg_signal_def split: if_splits)
  moreover have "mp_SigTask k p \<noteq> 0"
  proof -
    obtain G where "klist E k G" using assms(2) put_signal(1) by (auto simp: kinv_def)
    then have "arena (tasks E \<union> messages E) (klists E k)" using fam_arena by (auto simp: klist_def)
    then show ?thesis using arena_nonnull c(1) by blast
  qed
  ultimately have S: "Signal (mp_SigTask k p) (port_sig k p) k = Some k'" by blast
  show ?thesis
    unfolding put_signal(2)
    by (rule Signal_inv [OF assms(2) [unfolded put_signal(1)] put_signal(3) c(1) S]) (use put_signal(4) p in auto)
next
  case (signal k t pcs u ss k' sent)
  have "kinv E (k', pcs(t := TUser), sent)"
    by (rule Signal_inv [OF assms(2) [unfolded signal(1)] signal(3,5,6)]) (use signal(4) in simp)
  then show ?thesis using signal by (simp add: fun_upd_idem)
next
  case (wait_now k t pcs ss k' r sent)
  have "kinv E (k', pcs(t := TUser), sent)"
    by (rule Wait_now_inv [OF assms(2) [unfolded wait_now(1)] wait_now(3,5)]) (use wait_now(4) in simp)
  then show ?thesis using wait_now by (simp add: fun_upd_idem)
next
  case (port_enter k t pcs p sent)
  show ?thesis unfolding port_enter(2)
    by (rule pc_inv [OF assms(2) [unfolded port_enter(1)] port_enter(3) _ port_enter(5,6)]) (use port_enter in auto)
next
  case (port_empty k t pcs p sent)
  note h = port_here [OF assms(2) [unfolded port_empty(1)] port_empty(3,4)]
  show ?thesis unfolding port_empty(2)
    by (rule pc_inv [OF assms(2) [unfolded port_empty(1)] port_empty(3) _ h [THEN conjunct1] h [THEN conjunct2]])
       (use port_empty in auto)
next
  case (port_found k t pcs p sent)
  note h = port_here [OF assms(2) [unfolded port_found(1)] port_found(3,4)]
  show ?thesis unfolding port_found(2)
    by (rule pc_inv [OF assms(2) [unfolded port_found(1)] port_found(3) _ h [THEN conjunct1] h [THEN conjunct2]])
       (use port_found in auto)
qed (auto intro: on_alarm_inv spawn_inv block_inv put_inv get_inv Wait_now_inv Wait_return_inv)

lemma reach_inv: "reach E w w' \<Longrightarrow> kinv E w \<Longrightarrow> kinv E w'"
  by (induction rule: reach.induct) (auto intro: kstep_inv)

subsection \<open>The start of the kernel\<close>

text \<open>\<open>main\<close> up to arming the scheduler: empty lists, the boot task running, the ports created. The
  \<open>spawn\<close>s that follow are steps.\<close>

fun new_ports :: "(addr \<times> addr \<times> u8) list \<Rightarrow> kern \<Rightarrow> kern" where
  "new_ports [] k = k"
| "new_ports ((p, t, b) # ps) k = new_ports ps (NewPort p t b k)"

definition kernel_start :: "(addr \<times> addr \<times> u8) list \<Rightarrow> kern \<Rightarrow> kern" where
  "kernel_start ps k =
     (let k1 = k\<lparr>cells := NewList (NewList (cells k) (TaskReady k)) (TaskWait k), ThisTask := boot_task k, sched_on := True\<rparr>
      in new_ports ps (set_state (boot_task k) TS_RUN k1))"

definition good_layout :: "kenv \<Rightarrow> (addr \<times> addr \<times> u8) list \<Rightarrow> kern \<Rightarrow> bool" where
  "good_layout E ps k \<longleftrightarrow> arena (tasks E \<union> messages E) (klists E k) \<and> tasks E \<inter> messages E = {} \<and>
     boot_task k \<notin> tasks E \<and> TaskReady k \<noteq> TaskWait k \<and> TaskReady k \<notin> mp_MsgList ` ports E \<and>
     TaskWait k \<notin> mp_MsgList ` ports E \<and> ports E = fst ` set ps \<and> distinct (map fst ps) \<and>
     (\<forall>(p, t, b)\<in>set ps. t \<in> tasks E \<and> unat b < 32) \<and> (\<forall>t\<in>tasks E. tc_State k t = TS_INVALID)"

lemma arena_mono:
  assumes "arena N L" "L' \<subseteq> L"
  shows "arena N L'"
proof -
  have "0 \<notin> N \<union> L" by (rule conjunct1 [OF assms(1) [unfolded arena_def]])
  then have "0 \<notin> N \<union> L'" using assms(2) by blast
  then show ?thesis
    unfolding arena_def [of N L']
    using arena_nodes [OF assms(1)] arena_header [OF assms(1)] arena_headers [OF assms(1)] subsetD [OF assms(2)]
    by (intro conjI ballI impI) simp_all
qed

lemma fam_NewList:
  assumes "fam h N L F" "l \<notin> L" "arena N (insert l L)" "\<And>m. m \<in> L \<Longrightarrow> F m = []"
  shows "fam (NewList h l) N (insert l L) (\<lambda>_. [])"
proof -
  have "list_rep (NewList h l) m []" if m: "m \<in> L" for m
  proof (rule list_rep_cong)
    show "list_rep h m []" using famD(1) [OF assms(1) m] assms(4) [OF m] by simp
    have "{m, m + 8, m + 16} \<inter> {l, l + 8, l + 16} = {}"
      by (rule arena_headers [OF assms(3)]) (use m assms(2) in auto)
    then show "NewList h l a = h a" if "a \<in> set (list_cells m [])" for a
      using that same_offD [OF NewList_frame, of a l h] by (auto simp: list_cells_def)
  qed
  moreover have "l \<noteq> 0" using assms(3) by (auto simp: arena_def)
  ultimately show ?thesis using assms(3) NewList_rep by (simp add: fam_def)
qed

lemma NewPorts_fam:
  assumes "fam (cells k) N L (\<lambda>_. [])" "arena N (L \<union> mp_MsgList ` fst ` set ps)" "distinct (map fst ps)"
    "L \<inter> mp_MsgList ` fst ` set ps = {}"
  shows "fam (cells (new_ports ps k)) N (L \<union> mp_MsgList ` fst ` set ps) (\<lambda>_. [])"
  using assms
proof (induction ps arbitrary: k L)
  case (Cons x ps)
  obtain p t b where x: "x = (p, t, b)" by (cases x) auto
  let ?k = "NewPort p t b k" and ?L = "insert (mp_MsgList p) L"
  have c: "cells ?k = NewList (cells k) (mp_MsgList p)" by (simp add: NewPort_def)
  have "arena N ?L" by (rule arena_mono [OF Cons.prems(2)]) (auto simp: x)
  then have "fam (cells ?k) N ?L (\<lambda>_. [])"
    unfolding c by (intro fam_NewList [OF Cons.prems(1)]) (use Cons.prems(4) in \<open>auto simp: x\<close>)
  moreover have e: "?L \<union> mp_MsgList ` fst ` set ps = L \<union> mp_MsgList ` fst ` set (x # ps)" by (auto simp: x)
  moreover have "?L \<inter> mp_MsgList ` fst ` set ps = {}"
    using Cons.prems(3,4) by (auto simp: x image_iff)
  ultimately show ?case
    using Cons.IH [of ?k ?L] Cons.prems(2,3) by (simp add: x)
qed simp

lemma NewPorts_other:
  "p \<notin> fst ` set ps \<Longrightarrow> mp_SigTask (new_ports ps k) p = mp_SigTask k p \<and>
   mp_SigBit (new_ports ps k) p = mp_SigBit k p \<and> mp_Flags (new_ports ps k) p = mp_Flags k p"
  by (induction ps k rule: new_ports.induct) (simp_all add: NewPort_def)

lemma NewPorts_config:
  "distinct (map fst ps) \<Longrightarrow> (p, t, b) \<in> set ps \<Longrightarrow>
   mp_SigTask (new_ports ps k) p = t \<and> mp_SigBit (new_ports ps k) p = b \<and> mp_Flags (new_ports ps k) p = PA_SIGNAL"
proof (induction ps k rule: new_ports.induct)
  case (2 q u c ps k)
  show ?case
  proof (cases "(p, t, b) = (q, u, c)")
    case True
    then have "p \<notin> fst ` set ps" using 2(2) by simp
    then show ?thesis using True NewPorts_other [of p ps "NewPort q u c k"] by (simp add: NewPort_def)
  next
    case False
    then show ?thesis using 2 by auto
  qed
qed simp

lemma NewPorts_frame:
  "TaskReady (new_ports ps k) = TaskReady k" "TaskWait (new_ports ps k) = TaskWait k"
  "boot_task (new_ports ps k) = boot_task k" "ThisTask (new_ports ps k) = ThisTask k"
  "sched_on (new_ports ps k) = sched_on k" "tc_State (new_ports ps k) = tc_State k"
  by (induction ps k rule: new_ports.induct) (simp_all add: NewPort_def)

lemma kernel_start_inv:
  assumes g: "good_layout E ps k"
  shows "kinv E (kernel_start ps k, \<lambda>_. TUser, {})"
proof -
  let ?h = "NewList (NewList (cells k) (TaskReady k)) (TaskWait k)" and ?N = "tasks E \<union> messages E"
  let ?k1 = "set_state (boot_task k) TS_RUN (k\<lparr>cells := ?h, ThisTask := boot_task k, sched_on := True\<rparr>)"
  let ?k2 = "kernel_start ps k"
  have k2: "?k2 = new_ports ps ?k1" by (simp add: kernel_start_def Let_def)
  have ar: "arena ?N (klists E k)" "ports E = fst ` set ps" "distinct (map fst ps)" "TaskReady k \<noteq> TaskWait k"
    "TaskReady k \<notin> mp_MsgList ` ports E" "TaskWait k \<notin> mp_MsgList ` ports E" "boot_task k \<notin> tasks E"
    using g unfolding good_layout_def by blast+
  have a1: "arena ?N {TaskReady k}" and a2: "arena ?N (insert (TaskWait k) {TaskReady k})"
    by (rule arena_mono [OF ar(1)]; auto simp: klists_def)+
  have "fam (cells k) ?N {} (\<lambda>_. [])" using arena_mono [OF a1, of "{}"] by (simp add: fam_def)
  then have "fam (NewList (cells k) (TaskReady k)) ?N {TaskReady k} (\<lambda>_. [])"
    by (rule fam_NewList) (use a1 in auto)
  then have "fam ?h ?N (insert (TaskWait k) {TaskReady k}) (\<lambda>_. [])"
    by (rule fam_NewList) (use a2 ar(4) in auto)
  then have f: "fam (cells ?k1) ?N {TaskWait k, TaskReady k} (\<lambda>_. [])" by simp
  have L: "{TaskWait k, TaskReady k} \<union> mp_MsgList ` fst ` set ps = klists E k"
    using ar(2) by (auto simp: klists_def)
  have "fam (cells ?k2) ?N (klists E k) (\<lambda>_. [])"
    unfolding k2 L [symmetric]
    by (rule NewPorts_fam [OF f]) (use ar(1,3,5,6) L in \<open>simp_all add: ar(2)\<close>)
  moreover note fr = NewPorts_frame [of ps ?k1, folded k2]
  moreover have st: "tc_State ?k2 t = TS_INVALID" if "t \<in> tasks E" for t
    using fr g that ar(7) by (auto simp: good_layout_def)
  ultimately have "klist E ?k2 (\<lambda>_. [])"
    by (auto simp: klist_def klists_def pri_sorted_def)
  moreover have "krun E ?k2" using fr st ar(7) by (auto simp: krun_def)
  moreover have "ksig E ?k2 (\<lambda>_. TUser)" using st by (simp add: ksig_def)
  moreover have "kport E ?k2 (\<lambda>_. TUser) {} (\<lambda>_. [])" by (simp add: kport_def)
  moreover have "kstatic E ?k2"
  proof -
    have "mp_SigTask ?k2 p \<in> tasks E \<and> mp_Flags ?k2 p AND 3 = PA_SIGNAL \<and> unat (mp_SigBit ?k2 p) < 32"
      if pp: "p \<in> ports E" for p
    proof -
      obtain t b where tb: "(p, t, b) \<in> set ps" using pp ar(2) by auto
      then have "t \<in> tasks E \<and> unat b < 32" using g by (auto simp: good_layout_def)
      then show ?thesis using NewPorts_config [OF ar(3) tb, of ?k1] by (simp add: k2 PA_SIGNAL_def)
    qed
    then show ?thesis using fr g ar by (simp add: kstatic_def good_layout_def)
  qed
  ultimately show ?thesis by (intro kinvI)
qed

lemma dchain_unique:
  "dchain h (a # xs @ [e]) \<Longrightarrow> dchain h (a # ys @ [e]) \<Longrightarrow> e \<notin> set xs \<Longrightarrow> e \<notin> set ys \<Longrightarrow> xs = ys"
proof (induction xs arbitrary: a ys)
  case Nil
  then show ?case by (cases ys) auto
next
  case (Cons x xs)
  then show ?case by (cases ys) auto
qed

lemma list_rep_unique:
  assumes "list_rep h l xs" "list_rep h l ys"
  shows "xs = ys"
  by (rule dchain_unique [of h l xs "l + 8"]) (use assms in \<open>auto simp: list_rep_def list_cells_def\<close>)

subsection \<open>Properties\<close>

definition demo_env :: kenv where
  "demo_env = \<lparr>tasks = {1024, 2048}, messages = {512}, ports = {8192}, workers = [1024, 2048]\<rparr>"

definition demo_ctx :: mcontext where
  "demo_ctx = \<lparr>mc_x = [0, 0], mc_pc = 7, mc_sp = 9, mc_fp = 0, mc_lr = 0\<rparr>"

definition demo_kern :: kern where
  "demo_kern = \<lparr>cells = (\<lambda>_. 0), ln_Pri = (\<lambda>_. 0), tc_State = (\<lambda>_. 0), tc_SigRecvd = (\<lambda>_. 0),
     tc_SigWait = (\<lambda>_. 0), tc_SPReg = (\<lambda>_. 0), tc_SPLower = (\<lambda>_. 0), tc_SPUpper = (\<lambda>_. 0),
     tc_Context = (\<lambda>_. demo_ctx), startpc = (\<lambda>_. 0), ThisTask = 4096, TaskReady = 16, TaskWait = 64,
     DispCount = 0, IdleCount = 0, boot_task = 4096, sched_on = False, inited = False, ticks = 0,
     forbid_cnt = 0, mp_Flags = (\<lambda>_. 0), mp_SigBit = (\<lambda>_. 0), mp_SigTask = (\<lambda>_. 0), mn_ReplyPort = (\<lambda>_. 0)\<rparr>"

lemma demo_layout: "good_layout demo_env [(8192, 1024, 8)] demo_kern"
  by (simp add: good_layout_def demo_env_def demo_kern_def klists_def mp_MsgList_def arena_def TS_INVALID_def)

lemma demo_start: "reach demo_env (kernel_start [(8192, 1024, 8)] demo_kern, \<lambda>_. TUser, {})
    (kernel_start [(8192, 1024, 8)] demo_kern, \<lambda>_. TUser, {})"
  by (rule start)

text \<open>A concrete run: two tasks are spawned, the first waits on its port, the second signals it.\<close>

lemmas demo_defs = kernel_start_def demo_kern_def demo_env_def NewList_def NewPort_def Let_def set_state_def
  mp_MsgList_def fun_upd_def TS_defs PA_SIGNAL_def fun_eq_iff enqueue_on_def Enqueue_def enq_scan.simps
  on_alarm_def init_contexts_def core_ExitInterrupt_def core_Schedule_def IsListEmpty_def cpu_Switch_def
  save_context_def core_Switch_def cpu_Dispatch_def core_Dispatch_def GetHead_def Remove_def TICK_LIMIT_def
  running_def Wait_begin_def Forbid_def Permit_def port_sig_def spawn_def Signal_def

definition demo_cells :: heap where
  "demo_cells = (\<lambda>_. 0)(24 := 0, 64 := 72, 72 := 0, 80 := 64, 8240 := 8248, 8248 := 0, 8256 := 8240)"

definition demo_one :: kern where
  "demo_one = demo_kern\<lparr>cells := demo_cells(16 := 1024, 32 := 1024, 1024 := 24, 1032 := 16),
     tc_State := (\<lambda>_. 0)(1024 := TS_READY, 4096 := TS_RUN), sched_on := True,
     mp_SigTask := (\<lambda>_. 0)(8192 := 1024), mp_SigBit := (\<lambda>_. 0)(8192 := 8)\<rparr>"

definition demo_ready :: kern where
  "demo_ready = demo_one\<lparr>cells := demo_cells(16 := 1024, 32 := 2048, 1024 := 2048, 1032 := 16, 2048 := 24, 2056 := 1024),
     tc_State := (\<lambda>_. 0)(1024 := TS_READY, 2048 := TS_READY, 4096 := TS_RUN)\<rparr>"

definition demo_armed :: kern where
  "demo_armed = init_contexts [1024, 2048] demo_ctx (demo_ready\<lparr>ticks := 1\<rparr>)"

definition demo_run :: kern where
  "demo_run = (save_context demo_ctx demo_armed)\<lparr>
     cells := demo_cells(16 := 2048, 32 := 2048, 1024 := 2048, 1032 := 16, 2048 := 24, 2056 := 16),
     tc_State := (\<lambda>_. 0)(1024 := TS_RUN, 2048 := TS_READY, 4096 := TS_READY), ThisTask := 1024, DispCount := 1, ticks := 2\<rparr>"

definition demo_blocked :: kern where
  "demo_blocked = demo_run\<lparr>
     cells := demo_cells(16 := 2048, 32 := 2048, 1024 := 72, 1032 := 64, 2048 := 24, 2056 := 16, 64 := 1024, 80 := 1024),
     tc_State := (\<lambda>_. 0)(1024 := TS_WAIT, 2048 := TS_READY, 4096 := TS_READY), tc_SigWait := (\<lambda>_. 0)(1024 := 256)\<rparr>"

definition demo_other :: kern where
  "demo_other = (save_context demo_ctx demo_blocked)\<lparr>
     cells := demo_cells(16 := 24, 32 := 16, 1024 := 72, 1032 := 64, 2048 := 24, 2056 := 16, 64 := 1024, 80 := 1024),
     tc_State := (\<lambda>_. 0)(1024 := TS_WAIT, 2048 := TS_RUN, 4096 := TS_READY), ThisTask := 2048, DispCount := 2, ticks := 3\<rparr>"

definition demo_woken :: kern where
  "demo_woken = demo_other\<lparr>
     cells := demo_cells(16 := 1024, 32 := 1024, 1024 := 24, 1032 := 16, 2048 := 24, 2056 := 16),
     tc_State := (\<lambda>_. 0)(1024 := TS_READY, 2048 := TS_RUN, 4096 := TS_READY), tc_SigRecvd := (\<lambda>_. 0)(1024 := 256)\<rparr>"

lemmas demo_states = demo_one_def demo_ready_def demo_armed_def demo_run_def demo_blocked_def demo_other_def
  demo_woken_def demo_cells_def

lemma demo_moves:
  "spawn 1024 0 0 0 (kernel_start [(8192, 1024, 8)] demo_kern) = Some demo_one"
  "spawn 2048 0 0 0 demo_one = Some demo_ready"
  "on_alarm (workers demo_env) demo_ctx demo_ready = Some (demo_armed, demo_ctx)"
  "Wait_begin (port_sig demo_run 8192) demo_run = Some (demo_blocked, None)"
  "Signal 1024 256 demo_other = Some demo_woken"
  by (simp_all add: demo_defs demo_states)

lemma demo_switches:
  "\<exists>m. on_alarm (workers demo_env) demo_ctx demo_armed = Some (demo_run, m)"
  "\<exists>m. on_alarm (workers demo_env) demo_ctx demo_blocked = Some (demo_other, m)"
  by (simp_all add: demo_defs demo_states)

abbreviation demo_from :: "world \<Rightarrow> bool" where
  "demo_from \<equiv> reach demo_env (kernel_start [(8192, 1024, 8)] demo_kern, \<lambda>_. TUser, {})"

lemma demo_reach_armed: "demo_from (demo_armed, \<lambda>_. TUser, {})"
proof -
  have "demo_from (demo_one, \<lambda>_. TUser, {})"
    by (rule step [OF demo_start spawned [OF _ _ _ demo_moves(1)]]) (simp_all add: demo_defs)
  then have "demo_from (demo_ready, \<lambda>_. TUser, {})"
    by (rule step [OF _ spawned [OF _ _ _ demo_moves(2)]]) (simp_all add: demo_defs demo_states)
  then show ?thesis by (rule step [OF _ tick [OF demo_moves(3)]])
qed

lemma demo_reach_blocked:
  "demo_from (demo_blocked, (\<lambda>_. TUser)(1024 := TWait 256 (Some 8192)), {})"
proof -
  have r: "running demo_env demo_run 1024" "port_sig demo_run 8192 = 256"
    by (simp_all add: demo_defs demo_states)
  obtain m where "on_alarm (workers demo_env) demo_ctx demo_armed = Some (demo_run, m)"
    using demo_switches(1) by blast
  then have "demo_from (demo_run, \<lambda>_. TUser, {})" by (rule step [OF demo_reach_armed tick])
  then have "demo_from (demo_run, (\<lambda>_. TUser)(1024 := TPort 8192), {})"
    by (rule step [OF _ port_enter [OF r(1)]]) (simp_all add: demo_defs demo_states)
  then have "demo_from (demo_run, (\<lambda>_. TUser)(1024 := TPort 8192, 1024 := TChecked 8192), {})"
    by (rule step [OF _ port_empty [OF r(1)]]) (simp_all add: demo_defs demo_states)
  then have "demo_from (demo_blocked, (\<lambda>_. TUser)(1024 := TPort 8192, 1024 := TChecked 8192,
      1024 := TWait (port_sig demo_run 8192) (Some 8192)), {})"
    by (rule step [OF _ port_block [OF r(1) _ demo_moves(4)]]) simp
  then show ?thesis by (simp add: r(2))
qed

lemma demo_reach_woken:
  "demo_from (demo_woken, (\<lambda>_. TUser)(1024 := TWait 256 (Some 8192)), {})"
proof -
  obtain m where "on_alarm (workers demo_env) demo_ctx demo_blocked = Some (demo_other, m)"
    using demo_switches(2) by blast
  then have "demo_from (demo_other, (\<lambda>_. TUser)(1024 := TWait 256 (Some 8192)), {})"
    by (rule step [OF demo_reach_blocked tick])
  then show ?thesis
    by (rule step [OF _ signal [where t = 2048, OF _ _ _ demo_moves(5)]]) (simp_all add: demo_defs demo_states)
qed

text \<open>C3. In every state the kernel can reach, under any interleaving of timer ticks and task
  operations, the ready and wait lists are well-formed and ordered by priority, they hold
  exactly the tasks whose state says so (so no task is on two lists or twice on one), and only
  the current task is running.\<close>

theorem tasks_in_place:
  assumes "good_layout E ps k0" "reach E (kernel_start ps k0, \<lambda>_. TUser, {}) (k, pcs, sent)"
  shows "\<exists>R W. list_rep (cells k) (TaskReady k) R \<and> list_rep (cells k) (TaskWait k) W \<and>
           distinct R \<and> distinct W \<and> pri_sorted (ln_Pri k) R \<and> pri_sorted (ln_Pri k) W \<and>
           set R = {t \<in> tasks E. tc_State k t = TS_READY} \<and> set W = {t \<in> tasks E. tc_State k t = TS_WAIT} \<and>
           (sched_on k \<longrightarrow> (\<forall>t\<in>tasks E. tc_State k t = TS_RUN \<longrightarrow> t = ThisTask k))"
proof -
  obtain F where I: "kstatic E k" "krun E k" "ksig E k pcs" "klist E k F" "kport E k pcs sent F"
    using reach_inv [OF assms(2) kernel_start_inv [OF assms(1)]] by (rule kinvE)
  have fam: "fam (cells k) (tasks E \<union> messages E) (klists E k) F" using I(4) by (simp add: klist_def)
  have l: "TaskReady k \<in> klists E k" "TaskWait k \<in> klists E k" by (simp_all add: klists_def)
  have "sched_on k \<longrightarrow> (\<forall>t\<in>tasks E. tc_State k t = TS_RUN \<longrightarrow> t = ThisTask k)"
    using I(2) unfolding krun_def by blast
  then show ?thesis
    using famD(1) [OF fam] fam_distinct [OF fam] l I(4) unfolding klist_def by blast
qed

theorem tasks_in_place_witness:
  "\<exists>R. list_rep (cells (kernel_start [(8192, 1024, 8)] demo_kern)) 16 R \<and> R = []"
proof -
  let ?k = "kernel_start [(8192, 1024, 8)] demo_kern"
  have r: "TaskReady ?k = 16" "\<And>t. t \<in> tasks demo_env \<Longrightarrow> tc_State ?k t = TS_INVALID"
    by (auto simp: kernel_start_def demo_kern_def demo_env_def NewPort_def TS_INVALID_def)
  then have none: "{t \<in> tasks demo_env. tc_State ?k t = TS_READY} = {}" by force
  obtain R where R: "list_rep (cells ?k) (TaskReady ?k) R" "set R = {t \<in> tasks demo_env. tc_State ?k t = TS_READY}"
    using tasks_in_place [OF demo_layout demo_start] by blast
  have "R = []" using R(2) none by simp
  then show ?thesis using R(1) r(1) by auto
qed

text \<open>C2. No wakeup is lost: a task that is blocked (state TS_WAIT) never has a signal pending that it
  is waiting for, and it is on the wait list, where the next Signal finds it.\<close>

theorem no_lost_wakeup:
  assumes "good_layout E ps k0" "reach E (kernel_start ps k0, \<lambda>_. TUser, {}) (k, pcs, sent)"
    and "t \<in> tasks E" "tc_State k t = TS_WAIT"
  shows "tc_SigRecvd k t AND tc_SigWait k t = 0 \<and> (\<exists>W. list_rep (cells k) (TaskWait k) W \<and> t \<in> set W)"
proof -
  obtain F where I: "kstatic E k" "krun E k" "ksig E k pcs" "klist E k F" "kport E k pcs sent F"
    using reach_inv [OF assms(2) kernel_start_inv [OF assms(1)]] by (rule kinvE)
  have fam: "fam (cells k) (tasks E \<union> messages E) (klists E k) F" using I(4) by (simp add: klist_def)
  have "list_rep (cells k) (TaskWait k) (F (TaskWait k))" by (rule famD(1) [OF fam]) (simp add: klists_def)
  moreover have "t \<in> set (F (TaskWait k))" using I(4) assms(3,4) by (simp add: klist_def)
  ultimately show ?thesis using I(3) assms(3,4) unfolding ksig_def by blast
qed

theorem no_lost_wakeup_witness:
  "tc_SigRecvd demo_blocked 1024 AND tc_SigWait demo_blocked 1024 = 0 \<and>
   (\<exists>W. list_rep (cells demo_blocked) (TaskWait demo_blocked) W \<and> 1024 \<in> set W)"
  by (rule no_lost_wakeup [OF demo_layout demo_reach_blocked]) (simp_all add: demo_defs demo_states)

text \<open>Wait returns only with a signal it was asked to wait for: when a blocked task leaves the
  spin, the bits it returns are not 0.\<close>

theorem wait_returns_signal:
  assumes "good_layout E ps k0" "reach E (kernel_start ps k0, \<lambda>_. TUser, {}) (k, pcs, sent)"
    and "t \<in> tasks E" "pcs t = TWait ss po" "tc_State k t \<noteq> TS_WAIT"
  shows "snd (Wait_end t ss k) \<noteq> 0 \<and> tc_SigRecvd (fst (Wait_end t ss k)) t AND ss = 0"
proof -
  have inv: "kinv E (k, pcs, sent)" by (rule reach_inv [OF assms(2) kernel_start_inv [OF assms(1)]])
  then have "tc_SigRecvd k t AND ss \<noteq> 0" using assms(3-5) unfolding kinv_def ksig_def by blast
  moreover have "(tc_SigRecvd k t AND NOT ss) AND ss = 0" by (simp add: bit_eq_iff bit_simps)
  ultimately show ?thesis by (simp add: Wait_end_def Let_def)
qed

theorem wait_returns_signal_witness:
  "snd (Wait_end 1024 256 demo_woken) \<noteq> 0 \<and> tc_SigRecvd (fst (Wait_end 1024 256 demo_woken)) 1024 AND 256 = 0"
  by (rule wait_returns_signal [OF demo_layout demo_reach_woken]) (simp_all add: demo_defs demo_states)

text \<open>C1. No message is lost: if the owner of a port is blocked in WaitPort while no task is between
  queueing a message there and signalling it, the port's message list is empty.\<close>

theorem no_lost_message:
  assumes "good_layout E ps k0" "reach E (kernel_start ps k0, \<lambda>_. TUser, {}) (k, pcs, sent)"
    and "p \<in> ports E" "mp_SigTask k p = t" "pcs t = TWait ss (Some p)" "tc_State k t = TS_WAIT"
    and "\<forall>u\<in>tasks E. pcs u \<noteq> TPutSig p"
  shows "IsListEmpty (cells k) (mp_MsgList p)"
proof -
  obtain F where I: "kstatic E k" "krun E k" "ksig E k pcs" "klist E k F" "kport E k pcs sent F"
    using reach_inv [OF assms(2) kernel_start_inv [OF assms(1)]] by (rule kinvE)
  have t: "t \<in> tasks E" using I(1) assms(3,4) by (auto simp: kstatic_def)
  have "ss = port_sig k p" using I(5) t assms(5) unfolding kport_def by blast
  then have z: "tc_SigRecvd k t AND port_sig k p = 0" using I(3) t assms(5,6) by (auto simp: ksig_def)
  have "in_WaitPort (pcs (mp_SigTask k p)) p" using assms(4,5) by (auto simp: in_WaitPort_def)
  moreover have "in_WaitPort (pcs (mp_SigTask k p)) p \<longrightarrow> F (mp_MsgList p) \<noteq> [] \<longrightarrow>
      tc_SigRecvd k (mp_SigTask k p) AND port_sig k p \<noteq> 0 \<or> (\<exists>t\<in>tasks E. pcs t = TPutSig p)"
    by (rule bspec [OF conjunct2 [OF conjunct2 [OF I(5) [unfolded kport_def]]] assms(3)])
  ultimately have "F (mp_MsgList p) = []" using assms(4,7) z by blast
  then show ?thesis using fam_IsListEmpty [OF klist_ports(1,2) [OF I(4) assms(3)]] by simp
qed

theorem no_lost_message_witness: "IsListEmpty (cells demo_blocked) (mp_MsgList 8192)"
  by (rule no_lost_message [OF demo_layout demo_reach_blocked, of 8192 1024 256])
     (simp_all add: demo_defs demo_states)



end
