(* ===== verification/BigEndian.thy ===== *)
theory BigEndian
  imports ArosPrelude
begin

text \<open>
  Big-endian longwords in a byte memory, as \<open>hosted/jit68k/j4_loader.c\<close> and the 68k interpreters read and
  write them. A memory is a function of the byte offset.
\<close>

type_synonym bytes = "nat \<Rightarrow> u8"

definition be32 :: "u8 \<Rightarrow> u8 \<Rightarrow> u8 \<Rightarrow> u8 \<Rightarrow> u32" where
  "be32 a b c d = push_bit 24 (ucast a) OR push_bit 16 (ucast b) OR push_bit 8 (ucast c) OR ucast d"

definition sb_read_be32 :: "bytes \<Rightarrow> nat \<Rightarrow> u32" where
  "sb_read_be32 m p = be32 (m p) (m (p + 1)) (m (p + 2)) (m (p + 3))"

definition sb_write_be32 :: "bytes \<Rightarrow> nat \<Rightarrow> u32 \<Rightarrow> bytes" where
  "sb_write_be32 m p v =
     m(p := ucast (drop_bit 24 v), p + 1 := ucast (drop_bit 16 v), p + 2 := ucast (drop_bit 8 v), p + 3 := ucast v)"

lemma sb_write_outside: "a \<notin> {p..<p + 4} \<Longrightarrow> sb_write_be32 m p v a = m a"
  by (auto simp: sb_write_be32_def)

lemma be32_bytes [simp]:
  "be32 (ucast (drop_bit 24 v)) (ucast (drop_bit 16 v)) (ucast (drop_bit 8 v)) (ucast v) = (v :: u32)"
proof (rule bit_eqI)
  fix n assume "possible_bit TYPE(u32) n"
  then have "n < 32" by simp
  then consider "n < 8" | "8 \<le> n" "n < 16" | "16 \<le> n" "n < 24" | "24 \<le> n" "n < 32" by linarith
  then show "bit (be32 (ucast (drop_bit 24 v)) (ucast (drop_bit 16 v)) (ucast (drop_bit 8 v)) (ucast v)) n = bit v n"
    by cases (auto simp: be32_def bit_simps)
qed

lemma read_write_same [simp]: "sb_read_be32 (sb_write_be32 m p v) p = v"
  by (simp add: sb_read_be32_def sb_write_be32_def)

lemma read_write_other: "q + 4 \<le> p \<or> p + 4 \<le> q \<Longrightarrow> sb_read_be32 (sb_write_be32 m p v) q = sb_read_be32 m q"
  unfolding sb_read_be32_def by (subst (1 2 3 4) sb_write_outside) auto

lemma read_cong: "(\<And>a. p \<le> a \<Longrightarrow> a < p + 4 \<Longrightarrow> m a = m' a) \<Longrightarrow> sb_read_be32 m p = sb_read_be32 m' p"
  by (simp add: sb_read_be32_def)

end
