(* ===== verification/HunkLoader.thy ===== *)
theory HunkLoader
  imports BigEndian
begin

text \<open>
  The AmigaOS hunk loader of \<open>hosted/jit68k/j4_loader.c\<close>: it parses a big-endian hunk file,
  bump-allocates every hunk inside one 32-bit sandbox, copies payloads and applies the
  \<open>HUNK_RELOC32\<close> and \<open>HUNK_RELOC32SHORT\<close> tables. All sizes and 68k addresses are 32-bit words
  and wrap as in the C code; the file cursor is a \<open>size_t\<close>, which never wraps on a file in
  memory, and is a natural number. The host bytes of the sandbox are a function of the offset
  from \<open>host_mem\<close>, so a write outside the region shows as a change at an offset at or beyond
  \<open>size\<close>. Every \<open>FAIL\<close> of the code is a constructor of \<open>load_error\<close>.
\<close>

subsection \<open>Results\<close>

datatype load_error =
  ShortMagic | BadMagic | ShortNames | NamesOffEnd | ShortNumhunks | ShortFirst | ShortLast
  | NumhunksRange | FirstLastRange | ShortSize | FastChip | SizeOverflow | OutOfMemory
  | MissingPayload | ShortLength | TooManyPayloads | PayloadTooLarge | PayloadOffEnd
  | ShortRelocCount | ShortRelocTarget | RelocTargetRange | ShortRelocOffset | RelocOutside
  | ShortReloc16Count | ShortReloc16Target | Reloc16TargetRange | ShortReloc16Offset | Reloc16Outside
  | Reloc16OffEnd | ShortSymbol | SymbolOffEnd | ShortDebug | DebugOffEnd | Unsupported | NoCode

definition bindE :: "'e + 'a \<Rightarrow> ('a \<Rightarrow> 'e + 'b) \<Rightarrow> 'e + 'b" where
  "bindE m f = (case m of Inl e \<Rightarrow> Inl e | Inr x \<Rightarrow> f x)"

definition orFail :: "'e \<Rightarrow> 'a option \<Rightarrow> 'e + 'a" where
  "orFail e m = (case m of None \<Rightarrow> Inl e | Some x \<Rightarrow> Inr x)"

lemma bindE_simps [simp]: "bindE (Inl e) f = Inl e" "bindE (Inr x) f = f x"
  by (simp_all add: bindE_def)

lemma bindE_Inr: "bindE m f = Inr y \<longleftrightarrow> (\<exists>x. m = Inr x \<and> f x = Inr y)"
  by (cases m) auto

lemma orFail_Inr [simp]: "orFail e m = Inr x \<longleftrightarrow> m = Some x"
  by (cases m) (auto simp: orFail_def)

lemma orFail_Some [simp]: "orFail e (Some x) = Inr x"
  by (simp add: orFail_def)

subsection \<open>Big-endian access and the file cursor\<close>

definition cur_u32 :: "u8 list \<Rightarrow> nat \<Rightarrow> (u32 \<times> nat) option" where
  "cur_u32 buf pos =
     (if length buf < pos + 4 then None
      else Some (be32 (buf ! pos) (buf ! (pos + 1)) (buf ! (pos + 2)) (buf ! (pos + 3)), pos + 4))"

definition cur_u16 :: "u8 list \<Rightarrow> nat \<Rightarrow> (u32 \<times> nat) option" where
  "cur_u16 buf pos =
     (if length buf < pos + 2 then None
      else Some (push_bit 8 (ucast (buf ! pos)) OR ucast (buf ! (pos + 1)), pos + 2))"

definition mem_copy :: "bytes \<Rightarrow> nat \<Rightarrow> u8 list \<Rightarrow> bytes" where
  "mem_copy m p xs = (\<lambda>a. if p \<le> a \<and> a < p + length xs then xs ! (a - p) else m a)"

definition mem_set0 :: "bytes \<Rightarrow> nat \<Rightarrow> nat \<Rightarrow> bytes" where
  "mem_set0 m p n = (\<lambda>a. if p \<le> a \<and> a < p + n then 0 else m a)"

subsection \<open>The sandbox\<close>

record sandbox =
  host_mem :: bytes
  sandbox_origin :: u32
  sb_size :: u32
  next_alloc :: u32

definition j4_sandbox_init :: "bytes \<Rightarrow> u32 \<Rightarrow> u32 \<Rightarrow> sandbox" where
  "j4_sandbox_init mem origin sz =
     \<lparr>host_mem = mem_set0 mem 0 (unat sz), sandbox_origin = origin, sb_size = sz, next_alloc = origin\<rparr>"

definition j4_sandbox_host :: "sandbox \<Rightarrow> u32 \<Rightarrow> nat" where
  "j4_sandbox_host sb a = unat (a - sandbox_origin sb)"

definition sandbox_alloc :: "sandbox \<Rightarrow> u32 \<Rightarrow> sandbox \<times> u32" where
  "sandbox_alloc sb n =
     (let aligned = (n + 15) AND NOT 15; at = next_alloc sb in
      if unat at + unat aligned > unat (sandbox_origin sb) + unat (sb_size sb) then (sb, 0)
      else (sb\<lparr>next_alloc := at + aligned\<rparr>, at))"

definition J4_MAX_HUNKS :: nat where "J4_MAX_HUNKS = 16"

record seglist =
  numhunks :: nat
  hunk_base :: "u32 list"
  hunk_size :: "u32 list"
  hunk_type :: "u32 list"
  entry :: u32

definition empty_seglist :: seglist where
  "empty_seglist = \<lparr>numhunks = 0, hunk_base = replicate J4_MAX_HUNKS 0, hunk_size = replicate J4_MAX_HUNKS 0,
     hunk_type = replicate J4_MAX_HUNKS 0, entry = 0\<rparr>"

definition HUNK_HEADER :: u32 where "HUNK_HEADER = 1011"
definition HUNK_CODE :: u32 where "HUNK_CODE = 1001"
definition HUNK_DATA :: u32 where "HUNK_DATA = 1002"
definition HUNK_BSS :: u32 where "HUNK_BSS = 1003"
definition HUNK_RELOC32 :: u32 where "HUNK_RELOC32 = 1004"
definition HUNK_DREL32 :: u32 where "HUNK_DREL32 = 1017"
definition HUNK_RELOC32SHORT :: u32 where "HUNK_RELOC32SHORT = 1021"
definition HUNK_SYMBOL :: u32 where "HUNK_SYMBOL = 1008"
definition HUNK_DEBUG :: u32 where "HUNK_DEBUG = 1009"
definition HUNK_END :: u32 where "HUNK_END = 1010"

lemmas hunk_types = HUNK_HEADER_def HUNK_CODE_def HUNK_DATA_def HUNK_BSS_def HUNK_RELOC32_def
  HUNK_DREL32_def HUNK_RELOC32SHORT_def HUNK_SYMBOL_def HUNK_DEBUG_def HUNK_END_def

lemma cur_u32_pos: "cur_u32 buf pos = Some (v, pos') \<Longrightarrow> pos' = pos + 4 \<and> pos' \<le> length buf"
  by (auto simp: cur_u32_def split: if_splits)

lemma cur_u16_pos: "cur_u16 buf pos = Some (v, pos') \<Longrightarrow> pos' = pos + 2 \<and> pos' \<le> length buf"
  by (auto simp: cur_u16_def split: if_splits)

subsection \<open>The header\<close>

text \<open>A failure keeps the sandbox as it was at that point: the caller may roll it back.\<close>

type_synonym 'a load = "(load_error \<times> sandbox) + 'a"

function skip_names :: "u8 list \<Rightarrow> nat \<Rightarrow> load_error + nat" where
  "skip_names buf pos =
     (case cur_u32 buf pos of
        None \<Rightarrow> Inl ShortNames
      | Some (v, pos') \<Rightarrow>
          if v = 0 then Inr pos'
          else if pos' + unat v * 4 > length buf then Inl NamesOffEnd
          else skip_names buf (pos' + unat v * 4))"
  by pat_completeness auto
termination
  by (relation "measure (\<lambda>(buf, pos). length buf - pos)") (auto dest!: cur_u32_pos)

declare skip_names.simps [simp del]

fun alloc_hunks :: "u8 list \<Rightarrow> u32 \<Rightarrow> nat \<Rightarrow> nat \<Rightarrow> nat \<Rightarrow> sandbox \<Rightarrow> seglist \<Rightarrow>
    (sandbox \<times> seglist \<times> nat) load" where
  "alloc_hunks buf prefix i 0 pos sb seg = Inr (sb, seg, pos)"
| "alloc_hunks buf prefix i (Suc k) pos sb seg =
     (case cur_u32 buf pos of
        None \<Rightarrow> Inl (ShortSize, sb)
      | Some (v, pos') \<Rightarrow>
          if v AND 0xC0000000 = 0xC0000000 then Inl (FastChip, sb)
          else
            let bytes = (v AND 0x00FFFFFF) * 4;
                payload = (if bytes \<noteq> 0 then bytes else 16)
            in if payload > 0xFFFFFFFF - prefix then Inl (SizeOverflow, sb)
               else let (sb', base) = sandbox_alloc sb (payload + prefix)
                    in if base = 0 then Inl (OutOfMemory, sb')
                       else alloc_hunks buf prefix (i + 1) k pos' sb'
                              (seg\<lparr>hunk_base := (hunk_base seg)[i := base + prefix],
                                   hunk_size := (hunk_size seg)[i := bytes],
                                   hunk_type := (hunk_type seg)[i := 0]\<rparr>))"

subsection \<open>The hunk bodies\<close>

record lstate =
  ls_sb :: sandbox
  ls_seg :: seglist
  ls_pos :: nat
  curhunk :: u32
  lasthunk :: u32
  seen_code :: bool

definition fail :: "load_error \<Rightarrow> lstate \<Rightarrow> 'a load" where
  "fail e st = Inl (e, ls_sb st)"

definition rd32 :: "load_error \<Rightarrow> u8 list \<Rightarrow> lstate \<Rightarrow> (u32 \<times> lstate) load" where
  "rd32 e buf st = (case cur_u32 buf (ls_pos st) of None \<Rightarrow> fail e st | Some (v, p) \<Rightarrow> Inr (v, st\<lparr>ls_pos := p\<rparr>))"

definition rd16 :: "load_error \<Rightarrow> u8 list \<Rightarrow> lstate \<Rightarrow> (u32 \<times> lstate) load" where
  "rd16 e buf st = (case cur_u16 buf (ls_pos st) of None \<Rightarrow> fail e st | Some (v, p) \<Rightarrow> Inr (v, st\<lparr>ls_pos := p\<rparr>))"

definition base_of :: "lstate \<Rightarrow> u32 \<Rightarrow> u32" where
  "base_of st i = hunk_base (ls_seg st) ! unat i"

definition size_of :: "lstate \<Rightarrow> u32 \<Rightarrow> u32" where
  "size_of st i = hunk_size (ls_seg st) ! unat i"

text \<open>CODE, DATA and BSS.\<close>

definition load_payload :: "u8 list \<Rightarrow> u32 \<Rightarrow> lstate \<Rightarrow> lstate load" where
  "load_payload buf htype st0 = bindE (rd32 ShortLength buf st0) (\<lambda>(v, st).
     let bytes = v * 4; i = curhunk st; seg = ls_seg st; sb = ls_sb st; b = base_of st i in
     if unat i \<ge> numhunks seg then fail TooManyPayloads st
     else if bytes > size_of st i then fail PayloadTooLarge st
     else
       let seg1 = seg\<lparr>hunk_type := (hunk_type seg)[unat i := htype]\<rparr> in
       bindE (if htype \<noteq> HUNK_BSS \<and> bytes \<noteq> 0
              then if ls_pos st + unat bytes > length buf then fail PayloadOffEnd st
                   else Inr (st\<lparr>ls_sb := sb\<lparr>host_mem := mem_copy (host_mem sb) (j4_sandbox_host sb b)
                                                    (take (unat bytes) (drop (ls_pos st) buf))\<rparr>,
                                ls_pos := ls_pos st + unat bytes\<rparr>)
              else Inr st)
         (\<lambda>st1. Inr (st1\<lparr>ls_seg := (if htype = HUNK_CODE \<and> \<not> seen_code st then seg1\<lparr>entry := b\<rparr> else seg1),
                         seen_code := seen_code st \<or> htype = HUNK_CODE,
                         lasthunk := i, curhunk := i + 1\<rparr>)))"

text \<open>One relocation: the bounds test is the C code's, a 32-bit sum.\<close>

definition reloc_site :: "load_error \<Rightarrow> u32 \<Rightarrow> u32 \<Rightarrow> lstate \<Rightarrow> lstate load" where
  "reloc_site e target offset st =
     (let sb = ls_sb st; site = j4_sandbox_host sb (base_of st (lasthunk st) + offset) in
      if offset + 4 > size_of st (lasthunk st) then fail e st
      else Inr (st\<lparr>ls_sb := sb\<lparr>host_mem :=
             sb_write_be32 (host_mem sb) site (sb_read_be32 (host_mem sb) site + base_of st target)\<rparr>\<rparr>))"

fun reloc32_offsets :: "u8 list \<Rightarrow> bool \<Rightarrow> u32 \<Rightarrow> nat \<Rightarrow> lstate \<Rightarrow> lstate load" where
  "reloc32_offsets buf skip target 0 st = Inr st"
| "reloc32_offsets buf skip target (Suc k) st =
     bindE (rd32 ShortRelocOffset buf st) (\<lambda>(offset, st1).
     bindE (if skip then Inr st1 else reloc_site RelocOutside target offset st1) (\<lambda>st2.
     reloc32_offsets buf skip target k st2))"

text \<open>One group of a RELOC32 table; \<open>None\<close> is the zero count that ends it.\<close>

definition reloc32_group :: "u8 list \<Rightarrow> bool \<Rightarrow> lstate \<Rightarrow> (lstate \<times> bool) load" where
  "reloc32_group buf skip st = bindE (rd32 ShortRelocCount buf st) (\<lambda>(count, st1).
     if count = 0 then Inr (st1, False)
     else bindE (rd32 ShortRelocTarget buf st1) (\<lambda>(target, st2).
       if unat target \<ge> numhunks (ls_seg st2) then fail RelocTargetRange st2
       else bindE (reloc32_offsets buf skip target (unat count) st2) (\<lambda>st3. Inr (st3, True))))"

text \<open>The 16-bit form also counts the words it reads.\<close>

fun reloc16_offsets :: "u8 list \<Rightarrow> bool \<Rightarrow> u32 \<Rightarrow> nat \<Rightarrow> u32 \<Rightarrow> lstate \<Rightarrow> (lstate \<times> u32) load" where
  "reloc16_offsets buf skip target 0 words st = Inr (st, words)"
| "reloc16_offsets buf skip target (Suc k) words st =
     bindE (rd16 ShortReloc16Offset buf st) (\<lambda>(offset, st1).
     bindE (if skip then Inr st1 else reloc_site Reloc16Outside target offset st1) (\<lambda>st2.
     reloc16_offsets buf skip target k (words + 1) st2))"

definition reloc16_group :: "u8 list \<Rightarrow> bool \<Rightarrow> u32 \<Rightarrow> lstate \<Rightarrow> (lstate \<times> u32 \<times> bool) load" where
  "reloc16_group buf skip words st = bindE (rd16 ShortReloc16Count buf st) (\<lambda>(count, st1).
     if count = 0 then Inr (st1, words + 1, False)
     else bindE (rd16 ShortReloc16Target buf st1) (\<lambda>(target, st2).
       if unat target \<ge> numhunks (ls_seg st2) then fail Reloc16TargetRange st2
       else bindE (reloc16_offsets buf skip target (unat count) (words + 2) st2) (\<lambda>(st3, w). Inr (st3, w, True))))"

definition symbol_entry :: "u8 list \<Rightarrow> lstate \<Rightarrow> (lstate \<times> bool) load" where
  "symbol_entry buf st = bindE (rd32 ShortSymbol buf st) (\<lambda>(n, st1).
     if n = 0 then Inr (st1, False)
     else let st2 = st1\<lparr>ls_pos := ls_pos st1 + (unat n + 1) * 4\<rparr> in
          if ls_pos st2 > length buf then fail SymbolOffEnd st2 else Inr (st2, True))"

definition skip_debug :: "u8 list \<Rightarrow> lstate \<Rightarrow> lstate load" where
  "skip_debug buf st = bindE (rd32 ShortDebug buf st) (\<lambda>(longs, st1).
     let st2 = st1\<lparr>ls_pos := ls_pos st1 + unat longs * 4\<rparr> in
     if ls_pos st2 > length buf then fail DebugOffEnd st2 else Inr st2)"

subsection \<open>The cursor only moves forward\<close>

definition advances :: "u8 list \<Rightarrow> lstate \<Rightarrow> lstate \<Rightarrow> bool" where
  "advances buf st st' \<longleftrightarrow> ls_pos st < ls_pos st' \<and> ls_pos st' \<le> length buf"

lemma fail_Inr [simp]: "fail e st \<noteq> Inr x" "Inr x \<noteq> fail e st"
  by (simp_all add: fail_def)

lemma rd32_Inr:
  "rd32 e buf st = Inr (v, st') \<Longrightarrow> st' = st\<lparr>ls_pos := ls_pos st + 4\<rparr> \<and> ls_pos st + 4 \<le> length buf"
  by (auto simp: rd32_def dest: cur_u32_pos split: option.splits)

lemma rd16_Inr:
  "rd16 e buf st = Inr (v, st') \<Longrightarrow> st' = st\<lparr>ls_pos := ls_pos st + 2\<rparr> \<and> ls_pos st + 2 \<le> length buf"
  by (auto simp: rd16_def dest: cur_u16_pos split: option.splits)

lemma reloc_site_pos: "reloc_site e target offset st = Inr st' \<Longrightarrow> ls_pos st' = ls_pos st"
  by (auto simp: reloc_site_def Let_def split: if_splits)

lemma reloc32_offsets_pos:
  "reloc32_offsets buf skip target k st = Inr st' \<Longrightarrow> ls_pos st \<le> length buf \<Longrightarrow>
   ls_pos st \<le> ls_pos st' \<and> ls_pos st' \<le> length buf"
proof (induction k arbitrary: st)
  case (Suc k)
  then obtain offset st1 st2 where r: "rd32 ShortRelocOffset buf st = Inr (offset, st1)"
    "(if skip then Inr st1 else reloc_site RelocOutside target offset st1) = Inr st2"
    "reloc32_offsets buf skip target k st2 = Inr st'"
    by (auto simp: bindE_Inr)
  have "ls_pos st2 = ls_pos st1" using r(2) reloc_site_pos by (auto split: if_splits)
  then have "ls_pos st2 = ls_pos st + 4" "ls_pos st + 4 \<le> length buf" using rd32_Inr [OF r(1)] by auto
  then show ?case using Suc.IH [OF r(3)] by simp
qed simp

lemma reloc32_group_pos:
  "reloc32_group buf skip st = Inr (st', b) \<Longrightarrow> advances buf st st'"
  by (auto simp: reloc32_group_def bindE_Inr advances_def
      dest!: rd32_Inr reloc32_offsets_pos split: if_splits)

lemma reloc16_offsets_pos:
  "reloc16_offsets buf skip target k words st = Inr (st', w) \<Longrightarrow> ls_pos st \<le> length buf \<Longrightarrow>
   ls_pos st \<le> ls_pos st' \<and> ls_pos st' \<le> length buf"
proof (induction k arbitrary: st words)
  case (Suc k)
  then obtain offset st1 st2 where r: "rd16 ShortReloc16Offset buf st = Inr (offset, st1)"
    "(if skip then Inr st1 else reloc_site Reloc16Outside target offset st1) = Inr st2"
    "reloc16_offsets buf skip target k (words + 1) st2 = Inr (st', w)"
    by (auto simp: bindE_Inr)
  have "ls_pos st2 = ls_pos st1" using r(2) reloc_site_pos by (auto split: if_splits)
  then have "ls_pos st2 = ls_pos st + 2" "ls_pos st + 2 \<le> length buf" using rd16_Inr [OF r(1)] by auto
  then show ?case using Suc.IH [OF r(3)] by simp
qed simp

lemma reloc16_group_pos:
  "reloc16_group buf skip words st = Inr (st', w, b) \<Longrightarrow> advances buf st st'"
  by (auto simp: reloc16_group_def bindE_Inr advances_def
      dest!: rd16_Inr reloc16_offsets_pos split: if_splits)

lemma symbol_entry_pos: "symbol_entry buf st = Inr (st', b) \<Longrightarrow> advances buf st st'"
  by (auto simp: symbol_entry_def bindE_Inr advances_def Let_def dest!: rd32_Inr split: if_splits)

lemma skip_debug_pos: "skip_debug buf st = Inr st' \<Longrightarrow> advances buf st st'"
  by (auto simp: skip_debug_def bindE_Inr advances_def Let_def dest!: rd32_Inr split: if_splits)

lemma load_payload_pos: "load_payload buf htype st = Inr st' \<Longrightarrow> advances buf st st'"
  by (auto simp: load_payload_def bindE_Inr advances_def Let_def dest!: rd32_Inr split: if_splits)

subsection \<open>The tables and the main loop\<close>

function reloc32_table :: "u8 list \<Rightarrow> bool \<Rightarrow> lstate \<Rightarrow> lstate load" where
  "reloc32_table buf skip st =
     (case reloc32_group buf skip st of
        Inl e \<Rightarrow> Inl e
      | Inr (st', again) \<Rightarrow> if again then reloc32_table buf skip st' else Inr st')"
  by pat_completeness auto
termination
  by (relation "measure (\<lambda>(buf, skip, st). length buf - ls_pos st)")
     (auto dest!: reloc32_group_pos simp: advances_def)

function reloc16_table :: "u8 list \<Rightarrow> bool \<Rightarrow> u32 \<Rightarrow> lstate \<Rightarrow> (lstate \<times> u32) load" where
  "reloc16_table buf skip words st =
     (case reloc16_group buf skip words st of
        Inl e \<Rightarrow> Inl e
      | Inr (st', w, again) \<Rightarrow> if again then reloc16_table buf skip w st' else Inr (st', w))"
  by pat_completeness auto
termination
  by (relation "measure (\<lambda>(buf, skip, words, st). length buf - ls_pos st)")
     (auto dest!: reloc16_group_pos simp: advances_def)

function symbol_table :: "u8 list \<Rightarrow> lstate \<Rightarrow> lstate load" where
  "symbol_table buf st =
     (case symbol_entry buf st of
        Inl e \<Rightarrow> Inl e
      | Inr (st', again) \<Rightarrow> if again then symbol_table buf st' else Inr st')"
  by pat_completeness auto
termination
  by (relation "measure (\<lambda>(buf, st). length buf - ls_pos st)")
     (auto dest!: symbol_entry_pos simp: advances_def)

declare reloc32_table.simps [simp del] reloc16_table.simps [simp del] symbol_table.simps [simp del]

definition reloc16_hunk :: "u8 list \<Rightarrow> bool \<Rightarrow> lstate \<Rightarrow> lstate load" where
  "reloc16_hunk buf skip st = bindE (reloc16_table buf skip 0 st) (\<lambda>(st1, words).
     let st2 = (if words AND 1 \<noteq> 0 then st1\<lparr>ls_pos := ls_pos st1 + 2\<rparr> else st1) in
     if ls_pos st2 > length buf then fail Reloc16OffEnd st2 else Inr st2)"

lemma reloc32_table_pos: "reloc32_table buf skip st = Inr st' \<Longrightarrow> advances buf st st'"
proof (induction buf skip st rule: reloc32_table.induct)
  case (1 buf skip st)
  show ?case
    using 1 reloc32_group_pos [of buf skip st]
    by (subst (asm) (2) reloc32_table.simps) (fastforce simp: advances_def split: sum.splits if_splits)
qed

lemma reloc16_table_pos: "reloc16_table buf skip words st = Inr (st', w) \<Longrightarrow> advances buf st st'"
proof (induction buf skip words st rule: reloc16_table.induct)
  case (1 buf skip words st)
  show ?case
    using 1 reloc16_group_pos [of buf skip words st]
    by (subst (asm) (2) reloc16_table.simps) (fastforce simp: advances_def split: sum.splits if_splits)
qed

lemma symbol_table_pos: "symbol_table buf st = Inr st' \<Longrightarrow> advances buf st st'"
proof (induction buf st rule: symbol_table.induct)
  case (1 buf st)
  show ?case
    using 1 symbol_entry_pos [of buf st]
    by (subst (asm) (2) symbol_table.simps) (fastforce simp: advances_def split: sum.splits if_splits)
qed

lemma reloc16_hunk_pos: "reloc16_hunk buf skip st = Inr st' \<Longrightarrow> advances buf st st'"
  by (auto simp: reloc16_hunk_def bindE_Inr Let_def advances_def dest!: reloc16_table_pos split: if_splits)

text \<open>One turn of the main loop: end of file and \<open>HUNK_END\<close> stop it once every declared
  payload is loaded (\<open>last\<close> is the header's last hunk).\<close>

definition body_step :: "u8 list \<Rightarrow> bool \<Rightarrow> u32 \<Rightarrow> lstate \<Rightarrow> (lstate \<times> bool) load" where
  "body_step buf skip lst st =
     (case cur_u32 buf (ls_pos st) of
        None \<Rightarrow> if curhunk st > lst then Inr (st, False) else fail MissingPayload st
      | Some (v, p) \<Rightarrow>
          let htype = v AND 0xFFFFFF; st1 = st\<lparr>ls_pos := p\<rparr>; go = (\<lambda>m. bindE m (\<lambda>st2. Inr (st2, True))) in
          if htype = HUNK_CODE \<or> htype = HUNK_DATA \<or> htype = HUNK_BSS then go (load_payload buf htype st1)
          else if htype = HUNK_RELOC32 then go (reloc32_table buf skip st1)
          else if htype = HUNK_RELOC32SHORT \<or> htype = HUNK_DREL32 then go (reloc16_hunk buf skip st1)
          else if htype = HUNK_SYMBOL then go (symbol_table buf st1)
          else if htype = HUNK_DEBUG then go (skip_debug buf st1)
          else if htype = HUNK_END then Inr (st1, \<not> curhunk st > lst)
          else fail Unsupported st1)"

lemma body_step_pos: "body_step buf skip lst st = Inr (st', True) \<Longrightarrow> advances buf st st'"
  unfolding body_step_def Let_def
  by (auto simp: bindE_Inr advances_def split: option.splits if_splits
      dest!: cur_u32_pos load_payload_pos reloc32_table_pos reloc16_hunk_pos symbol_table_pos skip_debug_pos)

function load_body :: "u8 list \<Rightarrow> bool \<Rightarrow> u32 \<Rightarrow> lstate \<Rightarrow> lstate load" where
  "load_body buf skip lst st =
     (case body_step buf skip lst st of
        Inl e \<Rightarrow> Inl e
      | Inr (st', again) \<Rightarrow> if again then load_body buf skip lst st' else Inr st')"
  by pat_completeness auto
termination
  by (relation "measure (\<lambda>(buf, skip, lst, st). length buf - ls_pos st)")
     (auto dest!: body_step_pos simp: advances_def)

declare load_body.simps [simp del]

subsection \<open>The whole file\<close>

definition load_hunks :: "sandbox \<Rightarrow> u8 list \<Rightarrow> bool \<Rightarrow> u32 \<Rightarrow> lstate load" where
  "load_hunks sb buf skip prefix =
     (let err = (\<lambda>e. Inl (e, sb)) in
      case cur_u32 buf 0 of None \<Rightarrow> err ShortMagic | Some (v, p) \<Rightarrow>
      if v \<noteq> HUNK_HEADER then err BadMagic else
      case skip_names buf p of Inl e \<Rightarrow> err e | Inr p1 \<Rightarrow>
      case cur_u32 buf p1 of None \<Rightarrow> err ShortNumhunks | Some (n, p2) \<Rightarrow>
      case cur_u32 buf p2 of None \<Rightarrow> err ShortFirst | Some (first, p3) \<Rightarrow>
      case cur_u32 buf p3 of None \<Rightarrow> err ShortLast | Some (lst, p4) \<Rightarrow>
      if n = 0 \<or> unat n > J4_MAX_HUNKS then err NumhunksRange
      else if lst < first \<or> lst \<ge> n then err FirstLastRange
      else bindE (alloc_hunks buf prefix 0 (unat n) p4 sb (empty_seglist\<lparr>numhunks := unat n\<rparr>)) (\<lambda>(sb1, seg, p5).
           bindE (load_body buf skip lst
                    \<lparr>ls_sb = sb1, ls_seg = seg, ls_pos = p5, curhunk = first, lasthunk = first, seen_code = False\<rparr>)
             (\<lambda>st. if seen_code st then Inr st else fail NoCode st)))"

definition j4_load_hunks :: "sandbox \<Rightarrow> u8 list \<Rightarrow> bool \<Rightarrow> lstate load" where
  "j4_load_hunks sb buf skip = load_hunks sb buf skip 0"

text \<open>The AmigaDOS frame: \<open>[length][link][payload]\<close>, the link a BPTR to the next link word.\<close>

fun write_frames :: "nat \<Rightarrow> nat \<Rightarrow> seglist \<Rightarrow> sandbox \<Rightarrow> sandbox" where
  "write_frames i 0 seg sb = sb"
| "write_frames i (Suc k) seg sb =
     (let node = hunk_base seg ! i - 4;
          nxt = (if i + 1 < numhunks seg then drop_bit 2 (hunk_base seg ! (i + 1) - 4) else 0);
          m1 = sb_write_be32 (host_mem sb) (j4_sandbox_host sb (node - 4)) (hunk_size seg ! i + 8);
          m2 = sb_write_be32 m1 (j4_sandbox_host sb node) nxt
      in write_frames (i + 1) k seg (sb\<lparr>host_mem := m2\<rparr>))"

definition j4_load_hunks_bptr :: "sandbox \<Rightarrow> u8 list \<Rightarrow> (load_error \<times> sandbox) + (seglist \<times> u32 \<times> sandbox)" where
  "j4_load_hunks_bptr sb buf =
     (let mark = next_alloc sb in
      case load_hunks sb buf False 8 of
        Inl (e, sb1) \<Rightarrow>
          let m = (if next_alloc sb1 > mark
                   then mem_set0 (host_mem sb1) (j4_sandbox_host sb1 mark) (unat (next_alloc sb1 - mark))
                   else host_mem sb1)
          in Inl (e, sb1\<lparr>host_mem := m, next_alloc := mark\<rparr>)
      | Inr st \<Rightarrow>
          let seg = ls_seg st
          in Inr (seg, drop_bit 2 (hunk_base seg ! 0 - 4), write_frames 0 (numhunks seg) seg (ls_sb st)))"

subsection \<open>A concrete file\<close>

definition words_of :: "u32 list \<Rightarrow> u8 list" where
  "words_of vs = concat (map (\<lambda>v. [ucast (drop_bit 24 v), ucast (drop_bit 16 v), ucast (drop_bit 8 v), ucast v]) vs)"

definition demo_sandbox :: sandbox where
  "demo_sandbox = j4_sandbox_init (\<lambda>_. 0) 0x1000 64"

text \<open>One CODE hunk of two longwords; a relocation at offset 4 against hunk 0.\<close>

definition demo_file :: "u32 \<Rightarrow> u8 list" where
  "demo_file offset = words_of [1011, 0, 1, 0, 0, 2, 1001, 2, 0x4E754E75, 0x00000010, 1004, 1, 0, offset, 0, 1010]"

text \<open>A CODE hunk of four longwords, then a DATA hunk of one, relocated at \<open>offset\<close> against hunk 0.\<close>

definition demo_two_hunks :: "u32 \<Rightarrow> u8 list" where
  "demo_two_hunks offset = words_of [1011, 0, 2, 0, 1, 4, 1, 1001, 4, 0x4E714E71, 0x4E714E71, 0x4E714E71, 0x4E754E75,
     1010, 1002, 1, 0, 1004, 1, 0, offset, 0, 1010]"

subsection \<open>Where the hunks lie\<close>

definition wf_sandbox :: "sandbox \<Rightarrow> bool" where
  "wf_sandbox sb \<longleftrightarrow> 0 < unat (sandbox_origin sb) \<and> unat (sandbox_origin sb) + unat (sb_size sb) < 2 ^ 32 \<and>
     unat (sandbox_origin sb) \<le> unat (next_alloc sb) \<and>
     unat (next_alloc sb) \<le> unat (sandbox_origin sb) + unat (sb_size sb) \<and> 16 dvd unat (next_alloc sb)"

abbreviation B :: "seglist \<Rightarrow> nat \<Rightarrow> nat" where "B seg i \<equiv> unat (hunk_base seg ! i)"
abbreviation S :: "seglist \<Rightarrow> nat \<Rightarrow> nat" where "S seg i \<equiv> unat (hunk_size seg ! i)"

definition laid :: "nat \<Rightarrow> nat \<Rightarrow> nat \<Rightarrow> seglist \<Rightarrow> nat \<Rightarrow> bool" where
  "laid lo hi prefix seg n \<longleftrightarrow> n \<le> J4_MAX_HUNKS \<and>
     length (hunk_base seg) = J4_MAX_HUNKS \<and> length (hunk_size seg) = J4_MAX_HUNKS \<and>
     length (hunk_type seg) = J4_MAX_HUNKS \<and>
     (\<forall>i<n. lo + prefix \<le> B seg i \<and> 16 dvd B seg i - prefix \<and> B seg i + S seg i \<le> hi \<and>
        4 dvd S seg i \<and> (\<forall>j<i. B seg j + S seg j + prefix \<le> B seg i))"

lemma unat_round16:
  assumes "unat (n :: u32) + 15 < 2 ^ 32"
  shows "16 dvd unat ((n + 15) AND NOT 15)" "unat n \<le> unat ((n + 15) AND NOT 15)"
proof -
  have "unat (n + 15) = unat n + 15" using assms by (simp add: unat_word_ariths)
  then have e: "unat ((n + 15) AND NOT 15) = unat n + 15 - (unat n + 15) mod 16"
    using unat_and_not_mask [of "n + 15" 4] by (simp add: mask_eq_exp_minus_1)
  show "16 dvd unat ((n + 15) AND NOT 15)" unfolding e by (rule dvd_minus_mod)
  show "unat n \<le> unat ((n + 15) AND NOT 15)" unfolding e
    using mod_less_divisor [of 16 "unat n + 15"] by linarith
qed

lemma sandbox_alloc_ok:
  assumes wf: "wf_sandbox sb" and n: "unat n + 15 < 2 ^ 32" and a: "sandbox_alloc sb n = (sb', base)" and "base \<noteq> 0"
  shows "wf_sandbox sb'" "base = next_alloc sb" "unat base + unat n \<le> unat (next_alloc sb')"
    "sandbox_origin sb' = sandbox_origin sb" "sb_size sb' = sb_size sb" "host_mem sb' = host_mem sb"
proof -
  define al :: u32 where "al = (n + 15) AND NOT 15"
  note r = unat_round16 [OF n, folded al_def]
  have fit: "unat (next_alloc sb) + unat al \<le> unat (sandbox_origin sb) + unat (sb_size sb)"
    and sb': "sb' = sb\<lparr>next_alloc := next_alloc sb + al\<rparr>" and base: "base = next_alloc sb"
    using a \<open>base \<noteq> 0\<close> unfolding sandbox_alloc_def al_def [symmetric] Let_def by (auto split: if_splits)
  then have u: "unat (next_alloc sb + al) = unat (next_alloc sb) + unat al"
    using wf by (simp add: wf_sandbox_def unat_word_ariths)
  show "wf_sandbox sb'" using wf fit r u by (simp add: wf_sandbox_def sb')
  show "base = next_alloc sb" by (rule base)
  show "unat base + unat n \<le> unat (next_alloc sb')" using r u by (simp add: sb' base)
qed (use sandbox_alloc_def a in \<open>auto simp: sandbox_alloc_def Let_def split: if_splits\<close>)

lemma sandbox_alloc_fields:
  "host_mem (fst (sandbox_alloc sb n)) = host_mem sb" "sandbox_origin (fst (sandbox_alloc sb n)) = sandbox_origin sb"
  "sb_size (fst (sandbox_alloc sb n)) = sb_size sb"
  by (auto simp: sandbox_alloc_def Let_def)

lemma hunk_bytes: "unat ((v AND 0x00FFFFFF) * 4 :: u32) = unat v mod 2 ^ 24 * 4"
proof -
  have "v AND 0x00FFFFFF = take_bit 24 v"
    by (simp add: take_bit_eq_mask mask_eq_exp_minus_1)
  then have u: "unat (v AND 0x00FFFFFF) = unat v mod 2 ^ 24" by (simp add: unat_take_bit)
  have "unat v mod 2 ^ 24 * 4 < 2 ^ 32" using mod_less_divisor [of "2 ^ 24" "unat v"] by simp
  then show ?thesis unfolding unat_mult_lem [THEN iffD1] using u by (simp add: unat_word_ariths)
qed

text \<open>The outcome of a loader operation: \<open>E\<close> holds of the sandbox of a failure, \<open>P\<close> of a result.\<close>

definition okE :: "(sandbox \<Rightarrow> bool) \<Rightarrow> ('a \<Rightarrow> bool) \<Rightarrow> 'a load \<Rightarrow> bool" where
  "okE E P m = (case m of Inl (e, sb) \<Rightarrow> E sb | Inr x \<Rightarrow> P x)"

lemma okE_simps [simp]: "okE E P (Inl (e, sb)) = E sb" "okE E P (Inr x) = P x" "okE E P (fail e st) = E (ls_sb st)"
  by (simp_all add: okE_def fail_def)

lemma okE_bind: "okE E P m \<Longrightarrow> (\<And>x. P x \<Longrightarrow> okE E Q (f x)) \<Longrightarrow> okE E Q (bindE m f)"
  by (cases m) (auto simp: okE_def)

lemma okE_mono: "okE E P m \<Longrightarrow> (\<And>x. P x \<Longrightarrow> Q x) \<Longrightarrow> okE E Q m"
  by (auto simp: okE_def split: sum.splits)

definition same_region :: "sandbox \<Rightarrow> sandbox \<Rightarrow> bool" where
  "same_region sb sb' \<longleftrightarrow> sandbox_origin sb' = sandbox_origin sb \<and> sb_size sb' = sb_size sb"

lemma laid_extend:
  assumes l: "laid lo hi prefix seg i" and i: "i < J4_MAX_HUNKS"
    and base: "unat base = hi" "16 dvd hi" "lo \<le> hi" "unat base + prefix < 2 ^ 32"
    and pre: "prefix = unat (pw :: u32)" and hi': "hi + prefix + unat bytes \<le> hi'" "4 dvd unat bytes"
    and seg': "seg' = seg\<lparr>hunk_base := (hunk_base seg)[i := base + pw], hunk_size := (hunk_size seg)[i := bytes],
        hunk_type := (hunk_type seg)[i := 0]\<rparr>"
  shows "laid lo hi' prefix seg' (i + 1)"
proof -
  have u: "unat (base + pw) = hi + prefix" using base pre by (simp add: unat_word_ariths)
  have old: "B seg' j = B seg j" "S seg' j = S seg j" if "j < i" for j using that by (auto simp: seg')
  have new: "B seg' i = hi + prefix" "S seg' i = unat bytes"
    using l i u by (simp_all add: laid_def seg')
  have "lo + prefix \<le> B seg' j \<and> 16 dvd B seg' j - prefix \<and> B seg' j + S seg' j \<le> hi' \<and>
      4 dvd S seg' j \<and> (\<forall>m<j. B seg' m + S seg' m + prefix \<le> B seg' j)" if "j < i + 1" for j
  proof (cases "j = i")
    case True
    have "B seg' m + S seg' m + prefix \<le> hi + prefix" if "m < i" for m
      using l that old unfolding laid_def by auto
    then show ?thesis using True new base hi' by auto
  next
    case False
    then have j: "j < i" using that by simp
    moreover have "B seg j + S seg j \<le> hi'" using l j hi' unfolding laid_def by (meson le_trans trans_le_add1)
    ultimately show ?thesis using l old unfolding laid_def by auto
  qed
  then show ?thesis using l i unfolding laid_def by (auto simp: seg')
qed

lemma alloc_hunks_ok:
  assumes "wf_sandbox sb" "laid lo (unat (next_alloc sb)) (unat prefix) seg i" "i + k \<le> J4_MAX_HUNKS"
    "lo \<le> unat (next_alloc sb)" "prefix \<le> 8"
  shows "okE (\<lambda>sb'. host_mem sb' = host_mem sb \<and> same_region sb sb' \<and> wf_sandbox sb' \<and> next_alloc sb \<le> next_alloc sb')
    (\<lambda>(sb', seg', pos'). host_mem sb' = host_mem sb \<and> same_region sb sb' \<and> wf_sandbox sb' \<and>
       next_alloc sb \<le> next_alloc sb' \<and> numhunks seg' = numhunks seg \<and>
       laid lo (unat (next_alloc sb')) (unat prefix) seg' (i + k))
    (alloc_hunks buf prefix i k pos sb seg)"
  using assms
proof (induction k arbitrary: i pos sb seg)
  case 0
  then show ?case by (simp add: same_region_def)
next
  case (Suc k)
  show ?case
  proof (cases "cur_u32 buf pos")
    case None
    then show ?thesis using Suc.prems by (simp add: same_region_def)
  next
    case (Some vp)
    obtain v p where vp: "vp = (v, p)" by (cases vp)
    define bytes where "bytes = (v AND 0x00FFFFFF) * 4"
    define payload where "payload = (if bytes \<noteq> 0 then bytes else 16)"
    obtain sb' base where a: "sandbox_alloc sb (payload + prefix) = (sb', base)" by fastforce
    have ub: "unat bytes = unat v mod 2 ^ 24 * 4" unfolding bytes_def by (rule hunk_bytes)
    then have bb: "unat bytes < 2 ^ 26" "4 dvd unat bytes" using mod_less_divisor [of "2 ^ 24" "unat v"] by simp_all
    then have up: "unat payload < 2 ^ 26" "unat bytes \<le> unat payload" by (auto simp: payload_def)
    have pr: "unat prefix \<le> 8" using Suc.prems(5) by (simp add: word_le_nat_alt)
    have un: "unat (payload + prefix) = unat payload + unat prefix"
      using up pr by (simp add: unat_word_ariths)
    show ?thesis
    proof (cases "v AND 0xC0000000 = 0xC0000000 \<or> payload > 0xFFFFFFFF - prefix \<or> base = 0")
      case True
      have "base = 0 \<Longrightarrow> sb' = sb \<or> next_alloc sb = 0"
        using a by (auto simp: sandbox_alloc_def Let_def split: if_splits)
      moreover have "next_alloc sb \<noteq> 0" using Suc.prems(1) by (auto simp: wf_sandbox_def)
      ultimately show ?thesis using True Some vp a Suc.prems(1)
        by (simp add: bytes_def [symmetric] payload_def [symmetric] Let_def same_region_def) blast
    next
      case False
      then have b0: "base \<noteq> 0" by simp
      have "unat (payload + prefix) + 15 < 2 ^ 32" using un up pr by simp
      note al = sandbox_alloc_ok [OF Suc.prems(1) this a b0]
      define seg' where "seg' = seg\<lparr>hunk_base := (hunk_base seg)[i := base + prefix],
          hunk_size := (hunk_size seg)[i := bytes], hunk_type := (hunk_type seg)[i := 0]\<rparr>"
      have wf: "wf_sandbox sb" by (rule Suc.prems(1))
      have "laid lo (unat (next_alloc sb')) (unat prefix) seg' (i + 1)"
      proof (rule laid_extend [OF Suc.prems(2) _ _ _ _ _ refl _ _ seg'_def])
        show "i < J4_MAX_HUNKS" using Suc.prems(3) by simp
        show "unat base = unat (next_alloc sb)" by (simp add: al(2))
        show "16 dvd unat (next_alloc sb)" using wf by (simp add: wf_sandbox_def)
        show "lo \<le> unat (next_alloc sb)" by (rule Suc.prems(4))
        show "unat base + unat prefix < 2 ^ 32"
          using al(1,3) un by (auto simp: wf_sandbox_def)
        show "unat (next_alloc sb) + unat prefix + unat bytes \<le> unat (next_alloc sb')"
          using al(2,3) un up by simp
        show "4 dvd unat bytes" by (rule bb(2))
      qed
      moreover have le: "next_alloc sb \<le> next_alloc sb'"
        using al(2,3) by (simp add: word_le_nat_alt)
      ultimately have "okE (\<lambda>s. host_mem s = host_mem sb' \<and> same_region sb' s \<and> wf_sandbox s \<and> next_alloc sb' \<le> next_alloc s)
        (\<lambda>(s, seg', pos'). host_mem s = host_mem sb' \<and> same_region sb' s \<and> wf_sandbox s \<and>
           next_alloc sb' \<le> next_alloc s \<and> numhunks seg' = numhunks seg \<and>
           laid lo (unat (next_alloc s)) (unat prefix) seg' (i + 1 + k))
        (alloc_hunks buf prefix (i + 1) k p sb' seg')"
        using Suc.IH [OF al(1), of seg' "i + 1" p] Suc.prems(3-5) by (simp add: seg'_def word_le_nat_alt)
      moreover have "alloc_hunks buf prefix i (Suc k) pos sb seg = alloc_hunks buf prefix (i + 1) k p sb' seg'"
        using Some vp a False
        by (simp add: bytes_def [symmetric] payload_def [symmetric] Let_def seg'_def)
      ultimately show ?thesis using al(4-6) le
        by (auto simp: okE_def same_region_def split: sum.splits)
    qed
  qed
qed

subsection \<open>What a load may touch\<close>

text \<open>The host offsets of the payloads.\<close>

definition payload_area :: "sandbox \<Rightarrow> seglist \<Rightarrow> nat set" where
  "payload_area sb seg = (\<Union>i<numhunks seg.
     {B seg i - unat (sandbox_origin sb)..<B seg i - unat (sandbox_origin sb) + S seg i})"

definition untouched :: "nat set \<Rightarrow> sandbox \<Rightarrow> sandbox \<Rightarrow> bool" where
  "untouched A sb sb' \<longleftrightarrow> (\<forall>a. a \<notin> A \<longrightarrow> host_mem sb' a = host_mem sb a)"

definition same_shape :: "seglist \<Rightarrow> seglist \<Rightarrow> bool" where
  "same_shape seg seg' \<longleftrightarrow> numhunks seg' = numhunks seg \<and> hunk_base seg' = hunk_base seg \<and>
     hunk_size seg' = hunk_size seg \<and> length (hunk_type seg') = length (hunk_type seg)"

definition entry_ok :: "lstate \<Rightarrow> bool" where
  "entry_ok st \<longleftrightarrow> seen_code st \<longrightarrow> (\<exists>i < unat (curhunk st). i < numhunks (ls_seg st) \<and>
     hunk_type (ls_seg st) ! i = HUNK_CODE \<and> entry (ls_seg st) = hunk_base (ls_seg st) ! i)"

text \<open>The invariant of the body, relative to the sandbox and segment list after allocation.\<close>

definition body_inv :: "sandbox \<Rightarrow> seglist \<Rightarrow> lstate \<Rightarrow> bool" where
  "body_inv sb seg st \<longleftrightarrow> same_shape seg (ls_seg st) \<and> same_region sb (ls_sb st) \<and>
     next_alloc (ls_sb st) = next_alloc sb \<and> untouched (payload_area sb seg) sb (ls_sb st) \<and>
     unat (lasthunk st) < numhunks seg \<and> entry_ok st"

definition fail_inv :: "sandbox \<Rightarrow> seglist \<Rightarrow> sandbox \<Rightarrow> bool" where
  "fail_inv sb seg sb' \<longleftrightarrow> same_region sb sb' \<and> next_alloc sb' = next_alloc sb \<and>
     untouched (payload_area sb seg) sb sb'"

abbreviation keeps :: "sandbox \<Rightarrow> seglist \<Rightarrow> lstate load \<Rightarrow> bool" where
  "keeps sb seg m \<equiv> okE (fail_inv sb seg) (body_inv sb seg) m"

lemma body_fail: "body_inv sb seg st \<Longrightarrow> fail_inv sb seg (ls_sb st)"
  by (simp add: body_inv_def fail_inv_def)

lemma body_inv_pos [simp]: "body_inv sb seg (st\<lparr>ls_pos := p\<rparr>) = body_inv sb seg st"
  by (simp add: body_inv_def entry_ok_def)

lemma rd32_keeps:
  "body_inv sb seg st \<Longrightarrow>
   okE (fail_inv sb seg) (\<lambda>(v, st'). body_inv sb seg st' \<and> st' = st\<lparr>ls_pos := ls_pos st'\<rparr> \<and>
      cur_u32 buf (ls_pos st) = Some (v, ls_pos st')) (rd32 e buf st)"
  by (auto simp: rd32_def body_fail split: option.splits)

lemma rd16_keeps:
  "body_inv sb seg st \<Longrightarrow>
   okE (fail_inv sb seg) (\<lambda>(v, st'). body_inv sb seg st' \<and> st' = st\<lparr>ls_pos := ls_pos st'\<rparr> \<and>
      cur_u16 buf (ls_pos st) = Some (v, ls_pos st')) (rd16 e buf st)"
  by (auto simp: rd16_def body_fail split: option.splits)

text \<open>No longword of the file reads as a value within 4 of \<open>2 ^ 32\<close>: then the bounds test of the
  relocations does not wrap.\<close>

definition no_wrap :: "u8 list \<Rightarrow> bool" where
  "no_wrap buf \<longleftrightarrow>
     list_all (\<lambda>pos. case cur_u32 buf pos of None \<Rightarrow> True | Some (v, _) \<Rightarrow> v < 0xFFFFFFFC) [0..<length buf]"

lemma no_wrapD: "no_wrap buf \<Longrightarrow> cur_u32 buf pos = Some (v, q) \<Longrightarrow> unat v + 4 < 2 ^ 32"
proof -
  assume w: "no_wrap buf" and c: "cur_u32 buf pos = Some (v, q)"
  then have "pos < length buf" by (auto simp: cur_u32_def split: if_splits)
  then have "pos \<in> set [0..<length buf]" by simp
  then have "v < 0xFFFFFFFC" using w c unfolding no_wrap_def list_all_iff by (auto dest: bspec)
  then show ?thesis by (simp add: word_less_nat_alt)
qed

lemma cur_u16_small: "cur_u16 buf pos = Some (v, q) \<Longrightarrow> unat v + 4 < 2 ^ 32"
proof -
  assume "cur_u16 buf pos = Some (v, q)"
  then have "v = push_bit 8 (ucast (buf ! pos)) OR ucast (buf ! (pos + 1))"
    by (auto simp: cur_u16_def split: if_splits)
  moreover have "bit (push_bit 8 (ucast a) OR ucast b :: u32) n \<Longrightarrow> n < 16" for a b :: u8 and n
    using bit_u8 [of a "n - 8"] bit_u8 [of b n] by (auto simp: bit_simps)
  ultimately have "\<And>n. bit v n \<Longrightarrow> n < 16" by blast
  then have "v = take_bit 16 v" by (auto intro!: bit_eqI simp: bit_take_bit_iff)
  then have "unat v < 2 ^ 16" using unat_take_bit [of 16 v] by (metis mod_less_divisor zero_less_numeral zero_less_power)
  then show ?thesis by simp
qed

definition good_layout :: "sandbox \<Rightarrow> seglist \<Rightarrow> nat \<Rightarrow> nat \<Rightarrow> bool" where
  "good_layout sb seg lo p \<longleftrightarrow> wf_sandbox sb \<and> laid lo (unat (next_alloc sb)) p seg (numhunks seg) \<and>
     unat (sandbox_origin sb) \<le> lo"

lemma payload_range:
  assumes "good_layout sb seg lo p" "i < numhunks seg"
  shows "unat (sandbox_origin sb) \<le> B seg i" "B seg i + S seg i \<le> unat (next_alloc sb)"
    "B seg i + S seg i < 2 ^ 32"
proof -
  have l: "lo + p \<le> B seg i" "B seg i + S seg i \<le> unat (next_alloc sb)"
    using assms by (auto simp: good_layout_def laid_def)
  show "unat (sandbox_origin sb) \<le> B seg i" "B seg i + S seg i \<le> unat (next_alloc sb)"
    using l assms(1) by (auto simp: good_layout_def)
  show "B seg i + S seg i < 2 ^ 32" using l unat_u32 [of "next_alloc sb"] by simp
qed

text \<open>A relocation whose bounds sum does not wrap stays inside the payload of the current hunk.\<close>

lemma host_offset:
  assumes g: "good_layout sb seg lo p" and i: "i < numhunks seg" and off: "unat offset \<le> S seg i"
    and sb': "sandbox_origin sb' = sandbox_origin sb"
  shows "j4_sandbox_host sb' (hunk_base seg ! i + offset) = B seg i - unat (sandbox_origin sb) + unat offset"
proof -
  note b = payload_range [OF g i]
  have u: "unat (hunk_base seg ! i + offset) = B seg i + unat offset"
    using b(3) off by (simp add: unat_word_ariths)
  then have "sandbox_origin sb \<le> hunk_base seg ! i + offset" using b(1) by (simp add: word_le_nat_alt)
  then show ?thesis using b off u by (simp add: j4_sandbox_host_def sb' unat_sub)
qed

lemma area_memb:
  "i < numhunks seg \<Longrightarrow> B seg i - unat (sandbox_origin sb) \<le> a \<Longrightarrow>
   a < B seg i - unat (sandbox_origin sb) + S seg i \<Longrightarrow> a \<in> payload_area sb seg"
  by (auto simp: payload_area_def)

lemma reloc_site_keeps:
  assumes g: "good_layout sb seg lo p" and st: "body_inv sb seg st" and off: "unat offset + 4 < 2 ^ 32"
  shows "keeps sb seg (reloc_site e target offset st)"
proof (cases "offset + 4 > size_of st (lasthunk st)")
  case True
  then show ?thesis using body_fail [OF st] by (simp add: reloc_site_def Let_def)
next
  case False
  let ?i = "unat (lasthunk st)"
  have sh: "same_shape seg (ls_seg st)" "sandbox_origin (ls_sb st) = sandbox_origin sb" "?i < numhunks seg"
    using st by (auto simp: body_inv_def same_region_def)
  have "unat (offset + 4) = unat offset + 4" using off by (simp add: unat_word_ariths)
  then have o: "unat offset + 4 \<le> S seg ?i"
    using False sh(1) by (simp add: size_of_def same_shape_def word_less_nat_alt)
  then have site: "j4_sandbox_host (ls_sb st) (base_of st (lasthunk st) + offset) =
      B seg ?i - unat (sandbox_origin sb) + unat offset"
    using host_offset [OF g sh(3) _ sh(2), of offset] sh(1) by (simp add: base_of_def same_shape_def)
  have "sb_write_be32 m (B seg ?i - unat (sandbox_origin sb) + unat offset) v a = m a"
    if "a \<notin> payload_area sb seg" for m v a
  proof (rule sb_write_outside)
    show "a \<notin> {B seg ?i - unat (sandbox_origin sb) + unat offset..<B seg ?i - unat (sandbox_origin sb) + unat offset + 4}"
      using that area_memb [OF sh(3), of sb a] o by auto
  qed
  then show ?thesis using st False
    by (simp add: reloc_site_def Let_def site body_inv_def same_region_def untouched_def entry_ok_def)
qed

lemma reloc32_offsets_keeps:
  assumes g: "good_layout sb seg lo p" and nw: "no_wrap buf"
  shows "body_inv sb seg st \<Longrightarrow> keeps sb seg (reloc32_offsets buf skip target k st)"
proof (induction k arbitrary: st)
  case (Suc k)
  show ?case
    unfolding reloc32_offsets.simps
  proof (rule okE_bind [OF rd32_keeps [OF Suc.prems, of buf]], clarify)
    fix offset st1
    assume st1: "body_inv sb seg st1" "cur_u32 buf (ls_pos st) = Some (offset, ls_pos st1)"
    have "keeps sb seg (if skip then Inr st1 else reloc_site RelocOutside target offset st1)"
      using reloc_site_keeps [OF g st1(1) no_wrapD [OF nw st1(2)]] st1(1) by simp
    then show "keeps sb seg (bindE (if skip then Inr st1 else reloc_site RelocOutside target offset st1)
        (reloc32_offsets buf skip target k))"
      by (rule okE_bind) (rule Suc.IH)
  qed
qed simp

lemma reloc16_offsets_keeps:
  assumes g: "good_layout sb seg lo p"
  shows "body_inv sb seg st \<Longrightarrow>
    okE (fail_inv sb seg) (\<lambda>(st', w). body_inv sb seg st') (reloc16_offsets buf skip target k words st)"
proof (induction k arbitrary: st words)
  case (Suc k)
  show ?case
    unfolding reloc16_offsets.simps
  proof (rule okE_bind [OF rd16_keeps [OF Suc.prems, of buf]], clarify)
    fix offset st1
    assume st1: "body_inv sb seg st1" "cur_u16 buf (ls_pos st) = Some (offset, ls_pos st1)"
    have "keeps sb seg (if skip then Inr st1 else reloc_site Reloc16Outside target offset st1)"
      using reloc_site_keeps [OF g st1(1) cur_u16_small [OF st1(2)]] st1(1) by simp
    then show "okE (fail_inv sb seg) (\<lambda>(st', w). body_inv sb seg st')
       (bindE (if skip then Inr st1 else reloc_site Reloc16Outside target offset st1)
        (reloc16_offsets buf skip target k (words + 1)))"
      by (rule okE_bind) (rule Suc.IH)
  qed
qed simp

lemma reloc32_group_keeps:
  assumes g: "good_layout sb seg lo p" and nw: "no_wrap buf" and st: "body_inv sb seg st"
  shows "okE (fail_inv sb seg) (\<lambda>(st', b). body_inv sb seg st') (reloc32_group buf skip st)"
  unfolding reloc32_group_def
proof (rule okE_bind [OF rd32_keeps [OF st, of buf]], clarify)
  fix count st1
  assume st1: "body_inv sb seg st1"
  show "okE (fail_inv sb seg) (\<lambda>(st', b). body_inv sb seg st')
     (if count = 0 then Inr (st1, False)
      else bindE (rd32 ShortRelocTarget buf st1) (\<lambda>(target, st2).
        if unat target \<ge> numhunks (ls_seg st2) then fail RelocTargetRange st2
        else bindE (reloc32_offsets buf skip target (unat count) st2) (\<lambda>st3. Inr (st3, True))))"
  proof (cases "count = 0")
    case False
    have "okE (fail_inv sb seg) (\<lambda>(st', b). body_inv sb seg st') (bindE (rd32 ShortRelocTarget buf st1) (\<lambda>(target, st2).
        if unat target \<ge> numhunks (ls_seg st2) then fail RelocTargetRange st2
        else bindE (reloc32_offsets buf skip target (unat count) st2) (\<lambda>st3. Inr (st3, True))))"
    proof (rule okE_bind [OF rd32_keeps [OF st1, of buf]], clarify)
      fix target st2
      assume st2: "body_inv sb seg st2"
      show "okE (fail_inv sb seg) (\<lambda>(st', b). body_inv sb seg st')
        (if unat target \<ge> numhunks (ls_seg st2) then fail RelocTargetRange st2
         else bindE (reloc32_offsets buf skip target (unat count) st2) (\<lambda>st3. Inr (st3, True)))"
        using okE_bind [OF reloc32_offsets_keeps [OF g nw st2], where f = "\<lambda>st3. Inr (st3, True)"] body_fail [OF st2]
        by simp
    qed
    then show ?thesis using False by simp
  qed (simp add: st1)
qed

lemma reloc16_group_keeps:
  assumes g: "good_layout sb seg lo p" and st: "body_inv sb seg st"
  shows "okE (fail_inv sb seg) (\<lambda>(st', w, b). body_inv sb seg st') (reloc16_group buf skip words st)"
  unfolding reloc16_group_def
proof (rule okE_bind [OF rd16_keeps [OF st, of buf]], clarify)
  fix count st1
  assume st1: "body_inv sb seg st1"
  let ?P = "\<lambda>(st', w, b). body_inv sb seg st'"
  show "okE (fail_inv sb seg) ?P
     (if count = 0 then Inr (st1, words + 1, False)
      else bindE (rd16 ShortReloc16Target buf st1) (\<lambda>(target, st2).
        if unat target \<ge> numhunks (ls_seg st2) then fail Reloc16TargetRange st2
        else bindE (reloc16_offsets buf skip target (unat count) (words + 2) st2) (\<lambda>(st3, w). Inr (st3, w, True))))"
  proof (cases "count = 0")
    case False
    have "okE (fail_inv sb seg) ?P (bindE (rd16 ShortReloc16Target buf st1) (\<lambda>(target, st2).
        if unat target \<ge> numhunks (ls_seg st2) then fail Reloc16TargetRange st2
        else bindE (reloc16_offsets buf skip target (unat count) (words + 2) st2) (\<lambda>(st3, w). Inr (st3, w, True))))"
    proof (rule okE_bind [OF rd16_keeps [OF st1, of buf]], clarify)
      fix target st2
      assume st2: "body_inv sb seg st2"
      have "okE (fail_inv sb seg) ?P
          (bindE (reloc16_offsets buf skip target (unat count) (words + 2) st2) (\<lambda>(st3, w). Inr (st3, w, True)))"
        by (rule okE_bind [OF reloc16_offsets_keeps [OF g st2]]) auto
      then show "okE (fail_inv sb seg) ?P
        (if unat target \<ge> numhunks (ls_seg st2) then fail Reloc16TargetRange st2
         else bindE (reloc16_offsets buf skip target (unat count) (words + 2) st2) (\<lambda>(st3, w). Inr (st3, w, True)))"
        using body_fail [OF st2] by simp
    qed
    then show ?thesis using False by simp
  qed (simp add: st1)
qed

lemma reloc32_table_keeps:
  assumes g: "good_layout sb seg lo p" and nw: "no_wrap buf"
  shows "body_inv sb seg st \<Longrightarrow> keeps sb seg (reloc32_table buf skip st)"
  using nw
proof (induction buf skip st rule: reloc32_table.induct)
  case (1 buf skip st)
  have k: "okE (fail_inv sb seg) (\<lambda>(st', b). body_inv sb seg st') (reloc32_group buf skip st)"
    by (rule reloc32_group_keeps [OF g 1(3,2)])
  show ?case
  proof (cases "reloc32_group buf skip st")
    case (Inl e)
    then show ?thesis using k by (subst reloc32_table.simps) (cases e, auto)
  next
    case (Inr r)
    obtain st' b where r: "r = (st', b)" by (cases r)
    then have "body_inv sb seg st'" using k Inr by simp
    then show ?thesis using 1(1) [OF Inr r [symmetric]] 1(3) Inr r by (subst reloc32_table.simps) simp
  qed
qed

lemma reloc16_table_keeps:
  assumes g: "good_layout sb seg lo p"
  shows "body_inv sb seg st \<Longrightarrow> okE (fail_inv sb seg) (\<lambda>(st', w). body_inv sb seg st') (reloc16_table buf skip words st)"
proof (induction buf skip words st rule: reloc16_table.induct)
  case (1 buf skip words st)
  have k: "okE (fail_inv sb seg) (\<lambda>(st', w, b). body_inv sb seg st') (reloc16_group buf skip words st)"
    by (rule reloc16_group_keeps [OF g 1(2)])
  show ?case
  proof (cases "reloc16_group buf skip words st")
    case (Inl e)
    then show ?thesis using k by (subst reloc16_table.simps) (cases e, auto)
  next
    case (Inr r)
    obtain st' w b where r: "r = (st', w, b)" by (cases r)
    then have "body_inv sb seg st'" using k Inr by simp
    then show ?thesis using 1(1) [OF Inr r [symmetric] refl] Inr r by (subst reloc16_table.simps) simp
  qed
qed

lemma symbol_entry_keeps:
  "body_inv sb seg st \<Longrightarrow> okE (fail_inv sb seg) (\<lambda>(st', b). body_inv sb seg st') (symbol_entry buf st)"
  unfolding symbol_entry_def
proof (rule okE_bind [OF rd32_keeps, of sb seg st buf], assumption, clarify)
  fix n st1
  assume st1: "body_inv sb seg st1"
  show "okE (fail_inv sb seg) (\<lambda>(st', b). body_inv sb seg st')
    (if n = 0 then Inr (st1, False)
     else let st2 = st1\<lparr>ls_pos := ls_pos st1 + (unat n + 1) * 4\<rparr> in
          if length buf < ls_pos st2 then fail SymbolOffEnd st2 else Inr (st2, True))"
    using st1 body_fail [OF st1] by (simp add: Let_def)
qed

lemma symbol_table_keeps: "body_inv sb seg st \<Longrightarrow> keeps sb seg (symbol_table buf st)"
proof (induction buf st rule: symbol_table.induct)
  case (1 buf st)
  note k = symbol_entry_keeps [OF 1(2), of buf]
  show ?case
  proof (cases "symbol_entry buf st")
    case (Inl e)
    then show ?thesis using k by (subst symbol_table.simps) (cases e, auto)
  next
    case (Inr r)
    obtain st' b where r: "r = (st', b)" by (cases r)
    then have "body_inv sb seg st'" using k Inr by simp
    then show ?thesis using 1(1) [OF Inr r [symmetric]] Inr r by (subst symbol_table.simps) simp
  qed
qed

lemma reloc16_hunk_keeps:
  assumes g: "good_layout sb seg lo p" and st: "body_inv sb seg st"
  shows "keeps sb seg (reloc16_hunk buf skip st)"
  unfolding reloc16_hunk_def
  by (rule okE_bind [OF reloc16_table_keeps [OF g st]])
     (auto simp: Let_def dest: body_fail)

lemma skip_debug_keeps: "body_inv sb seg st \<Longrightarrow> keeps sb seg (skip_debug buf st)"
  unfolding skip_debug_def
  by (rule okE_bind [OF rd32_keeps, of sb seg st buf]) (auto simp: Let_def dest: body_fail)

lemma mem_copy_outside: "a \<notin> {p..<p + length xs} \<Longrightarrow> mem_copy m p xs a = m a"
  by (auto simp: mem_copy_def)

text \<open>The payload copy alone, then the bookkeeping.\<close>

lemma payload_copy_keeps:
  assumes g: "good_layout sb seg lo p" and st: "body_inv sb seg st" and i: "i < numhunks seg"
    and b: "b = hunk_base seg ! i" and n: "unat bytes \<le> S seg i"
  shows "okE (fail_inv sb seg) (\<lambda>st'. body_inv sb seg st' \<and> ls_seg st' = ls_seg st \<and> seen_code st' = seen_code st \<and>
      curhunk st' = curhunk st)
    (if c then if ls_pos st + unat bytes > length buf then fail PayloadOffEnd st
       else Inr (st\<lparr>ls_sb := (ls_sb st)\<lparr>host_mem := mem_copy (host_mem (ls_sb st)) (j4_sandbox_host (ls_sb st) b)
                         (take (unat bytes) (drop (ls_pos st) buf))\<rparr>, ls_pos := ls_pos st + unat bytes\<rparr>)
     else Inr st)"
proof (cases "c \<and> ls_pos st + unat bytes \<le> length buf")
  case False
  then show ?thesis using st body_fail [OF st] by auto
next
  case True
  have org: "sandbox_origin (ls_sb st) = sandbox_origin sb" using st by (simp add: body_inv_def same_region_def)
  have h: "j4_sandbox_host (ls_sb st) b = B seg i - unat (sandbox_origin sb)"
    using host_offset [OF g i _ org, of 0] by (simp add: b)
  have "unat bytes \<le> length buf - ls_pos st" using True by linarith
  then have len: "length (take (unat bytes) (drop (ls_pos st) buf)) = unat bytes" by simp
  have "mem_copy m (B seg i - unat (sandbox_origin sb)) (take (unat bytes) (drop (ls_pos st) buf)) a = m a"
    if "a \<notin> payload_area sb seg" for m a
    by (rule mem_copy_outside) (use that area_memb [OF i, of sb a] n len in auto)
  then show ?thesis using True st unfolding h
    by (simp add: body_inv_def same_region_def untouched_def entry_ok_def)
qed

lemma load_payload_keeps:
  assumes g: "good_layout sb seg lo p" and st: "body_inv sb seg st"
  shows "keeps sb seg (load_payload buf htype st)"
  unfolding load_payload_def Let_def
proof (rule okE_bind [OF rd32_keeps [OF st, of buf]], clarify, goal_cases)
  case (1 v st1)
  note st1 = 1(1)
  let ?i = "unat (curhunk st1)"
  have sh: "numhunks (ls_seg st1) = numhunks seg" "hunk_base (ls_seg st1) = hunk_base seg"
      "hunk_size (ls_seg st1) = hunk_size seg" "length (hunk_type (ls_seg st1)) = length (hunk_type seg)"
    using st1 by (auto simp: body_inv_def same_shape_def)
  show ?case
  proof (cases "numhunks (ls_seg st1) \<le> ?i \<or> size_of st1 (curhunk st1) < v * 4")
    case True
    then show ?thesis using body_fail [OF st1] by auto
  next
    case False
    then have i: "?i < numhunks seg" and n: "unat (v * 4) \<le> S seg ?i"
      using sh by (auto simp: size_of_def word_less_nat_alt)
    have "?i < 16" "length (hunk_type seg) = 16" using i g by (auto simp: good_layout_def laid_def J4_MAX_HUNKS_def)
    then have up: "unat (curhunk st1 + 1) = ?i + 1" by (simp add: unat_word_ariths)
    have fin: "body_inv sb seg (st2\<lparr>ls_seg := (if htype = HUNK_CODE \<and> \<not> seen_code st1
          then (ls_seg st1)\<lparr>hunk_type := (hunk_type (ls_seg st1))[?i := htype], entry := base_of st1 (curhunk st1)\<rparr>
          else (ls_seg st1)\<lparr>hunk_type := (hunk_type (ls_seg st1))[?i := htype]\<rparr>),
        seen_code := seen_code st1 \<or> htype = HUNK_CODE, lasthunk := curhunk st1, curhunk := curhunk st1 + 1\<rparr>)"
      if s2: "body_inv sb seg st2" "ls_seg st2 = ls_seg st1" "seen_code st2 = seen_code st1" "curhunk st2 = curhunk st1" for st2
    proof -
      have "entry_ok st1" using st1 by (simp add: body_inv_def)
      then have "entry_ok (st2\<lparr>ls_seg := (if htype = HUNK_CODE \<and> \<not> seen_code st1
          then (ls_seg st1)\<lparr>hunk_type := (hunk_type (ls_seg st1))[?i := htype], entry := base_of st1 (curhunk st1)\<rparr>
          else (ls_seg st1)\<lparr>hunk_type := (hunk_type (ls_seg st1))[?i := htype]\<rparr>),
        seen_code := seen_code st1 \<or> htype = HUNK_CODE, lasthunk := curhunk st1, curhunk := curhunk st1 + 1\<rparr>)"
      proof (cases "seen_code st1")
        case True
        then obtain j where "j < ?i" "j < numhunks (ls_seg st1)" "hunk_type (ls_seg st1) ! j = HUNK_CODE"
            "entry (ls_seg st1) = hunk_base (ls_seg st1) ! j"
          using \<open>entry_ok st1\<close> by (auto simp: entry_ok_def)
        then show ?thesis using True up by (auto simp: entry_ok_def intro!: exI [of _ j])
      next
        case False
        then show ?thesis
          using i sh \<open>length (hunk_type seg) = 16\<close> \<open>?i < 16\<close> up
          by (auto simp: entry_ok_def base_of_def intro!: exI [of _ ?i])
      qed
      then show ?thesis using s2 i sh by (simp add: body_inv_def same_shape_def)
    qed
    have guards: "(numhunks (ls_seg st1) \<le> ?i) = False" "(size_of st1 (curhunk st1) < v * 4) = False"
      using False by auto
    have b: "base_of st1 (curhunk st1) = hunk_base seg ! ?i" by (simp add: base_of_def sh)
    show ?thesis
      unfolding guards if_False
      by (rule okE_bind [OF payload_copy_keeps [OF g st1 i b n]]) (use fin in simp)
  qed
qed

lemma body_step_keeps:
  assumes g: "good_layout sb seg lo p" and nw: "no_wrap buf" and st: "body_inv sb seg st"
  shows "okE (fail_inv sb seg) (\<lambda>(st', again). body_inv sb seg st' \<and> (\<not> again \<longrightarrow> lst < curhunk st'))
    (body_step buf skip lst st)"
proof (cases "cur_u32 buf (ls_pos st)")
  case None
  then show ?thesis using st body_fail [OF st] by (simp add: body_step_def)
next
  case (Some vp)
  obtain v q where vp: "vp = (v, q)" by (cases vp)
  have st1: "body_inv sb seg (st\<lparr>ls_pos := q\<rparr>)" using st by simp
  have go: "okE (fail_inv sb seg) (\<lambda>(st', again). body_inv sb seg st' \<and> (\<not> again \<longrightarrow> lst < curhunk st'))
      (bindE m (\<lambda>st2. Inr (st2, True)))" if "keeps sb seg m" for m
    by (rule okE_bind [OF that]) simp
  show ?thesis
    unfolding body_step_def Some vp option.case prod.case Let_def
    using go [OF load_payload_keeps [OF g st1]] go [OF reloc32_table_keeps [OF g nw st1]]
      go [OF reloc16_hunk_keeps [OF g st1]] go [OF symbol_table_keeps [OF st1]] go [OF skip_debug_keeps [OF st1]]
      st1 body_fail [OF st1]
    by (simp split del: if_split) (auto split: if_splits)
qed

lemma load_body_keeps:
  assumes g: "good_layout sb seg lo p" and nw: "no_wrap buf"
  shows "body_inv sb seg st \<Longrightarrow>
    okE (fail_inv sb seg) (\<lambda>st'. body_inv sb seg st' \<and> lst < curhunk st') (load_body buf skip lst st)"
  using nw
proof (induction buf skip lst st rule: load_body.induct)
  case (1 buf skip lst st)
  note k = body_step_keeps [OF g 1(3,2), of lst skip]
  show ?case
  proof (cases "body_step buf skip lst st")
    case (Inl e)
    then show ?thesis using k by (subst load_body.simps) (cases e, auto)
  next
    case (Inr r)
    obtain st' b where r: "r = (st', b)" by (cases r)
    then have "body_inv sb seg st' \<and> (\<not> b \<longrightarrow> lst < curhunk st')" using k Inr by simp
    then show ?thesis using 1(1) [OF Inr r [symmetric]] 1(3) Inr r by (subst load_body.simps) simp
  qed
qed


subsection \<open>The whole load\<close>

text \<open>The host bytes between two positions of the bump cursor.\<close>

definition new_area :: "sandbox \<Rightarrow> sandbox \<Rightarrow> nat set" where
  "new_area sb sb' = {unat (next_alloc sb) - unat (sandbox_origin sb)..<unat (next_alloc sb') - unat (sandbox_origin sb)}"

definition contained :: "sandbox \<Rightarrow> sandbox \<Rightarrow> bool" where
  "contained sb sb' \<longleftrightarrow> same_region sb sb' \<and> wf_sandbox sb' \<and> next_alloc sb \<le> next_alloc sb' \<and>
     untouched (new_area sb sb') sb sb'"

definition loaded :: "sandbox \<Rightarrow> nat \<Rightarrow> lstate \<Rightarrow> bool" where
  "loaded sb prefix st \<longleftrightarrow> contained sb (ls_sb st) \<and> 0 < numhunks (ls_seg st) \<and>
     laid (unat (next_alloc sb)) (unat (next_alloc (ls_sb st))) prefix (ls_seg st) (numhunks (ls_seg st)) \<and>
     seen_code st \<and> entry_ok st \<and> untouched (payload_area sb (ls_seg st)) sb (ls_sb st)"

lemma wf_sandbox_cong:
  "same_region sb sb' \<Longrightarrow> next_alloc sb' = next_alloc sb \<Longrightarrow> wf_sandbox sb' = wf_sandbox sb"
  by (simp add: wf_sandbox_def same_region_def)

lemma payload_new:
  assumes g: "good_layout sb1 seg (unat (next_alloc sb)) p" and r: "same_region sb sb1" and w: "wf_sandbox sb"
  shows "payload_area sb1 seg \<subseteq> new_area sb sb1"
proof
  fix a assume "a \<in> payload_area sb1 seg"
  then obtain i where i: "i < numhunks seg" and a: "B seg i - unat (sandbox_origin sb1) \<le> a"
      "a < B seg i - unat (sandbox_origin sb1) + S seg i" by (auto simp: payload_area_def)
  have "unat (next_alloc sb) + p \<le> B seg i" using g i by (auto simp: good_layout_def laid_def)
  then show "a \<in> new_area sb sb1" using payload_range [OF g i] a r w
    by (auto simp: new_area_def same_region_def wf_sandbox_def)
qed

lemma fail_contained:
  assumes g: "good_layout sb1 seg (unat (next_alloc sb)) p" and r: "same_region sb sb1" and w: "wf_sandbox sb"
    and m: "host_mem sb1 = host_mem sb" "next_alloc sb \<le> next_alloc sb1" and f: "fail_inv sb1 seg sb2"
  shows "contained sb sb2"
proof -
  have "wf_sandbox sb2" using wf_sandbox_cong [of sb1 sb2] f g by (simp add: fail_inv_def good_layout_def)
  moreover have "untouched (new_area sb sb1) sb sb2" using f payload_new [OF g r w] m
    by (auto simp: fail_inv_def untouched_def)
  ultimately show ?thesis using f r m by (simp add: contained_def fail_inv_def same_region_def new_area_def)
qed

lemma contained_refl: "wf_sandbox sb \<Longrightarrow> contained sb sb"
  by (simp add: contained_def same_region_def untouched_def)

lemma body_result:
  assumes w: "wf_sandbox sb" and nw: "no_wrap buf" and first: "unat first < unat n" "unat n \<le> J4_MAX_HUNKS"
    and a: "host_mem sb1 = host_mem sb" "same_region sb sb1" "wf_sandbox sb1" "next_alloc sb \<le> next_alloc sb1"
    and seg: "numhunks seg = unat n" "laid (unat (next_alloc sb)) (unat (next_alloc sb1)) p seg (unat n)"
  shows "okE (contained sb) (loaded sb p)
    (bindE (load_body buf skip lst \<lparr>ls_sb = sb1, ls_seg = seg, ls_pos = pos, curhunk = first, lasthunk = first,
                               seen_code = False\<rparr>)
      (\<lambda>st. if seen_code st then Inr st else fail NoCode st))"
proof -
  have g: "good_layout sb1 seg (unat (next_alloc sb)) p" using a w seg
    by (simp add: good_layout_def same_region_def wf_sandbox_def)
  note fc = fail_contained [OF g a(2) w a(1,4)]
  let ?st = "\<lparr>ls_sb = sb1, ls_seg = seg, ls_pos = pos, curhunk = first, lasthunk = first, seen_code = False\<rparr>"
  have "body_inv sb1 seg ?st" using first seg
    by (simp add: body_inv_def same_shape_def same_region_def untouched_def entry_ok_def)
  then have "okE (fail_inv sb1 seg) (\<lambda>st'. body_inv sb1 seg st' \<and> lst < curhunk st') (load_body buf skip lst ?st)"
    by (rule load_body_keeps [OF g nw])
  then have "okE (contained sb) (body_inv sb1 seg) (load_body buf skip lst ?st)"
    using fc by (auto simp: okE_def split: sum.splits)
  then show ?thesis
  proof (rule okE_bind)
    fix st assume st: "body_inv sb1 seg st"
    have c: "contained sb (ls_sb st)" by (rule fc [OF body_fail [OF st]])
    have "loaded sb p st" if "seen_code st"
      using that c st seg first a unfolding loaded_def
      by (auto simp: body_inv_def same_shape_def laid_def payload_area_def untouched_def same_region_def)
    then show "okE (contained sb) (loaded sb p) (if seen_code st then Inr st else fail NoCode st)"
      using c by simp
  qed
qed

lemma load_hunks_ok:
  assumes w: "wf_sandbox sb" and nw: "no_wrap buf" and p: "prefix \<le> 8"
  shows "okE (contained sb) (loaded sb (unat prefix)) (load_hunks sb buf skip prefix)"
proof -
  note fr = contained_refl [OF w]
  have main: "okE (contained sb) (loaded sb (unat prefix))
      (bindE (alloc_hunks buf prefix 0 (unat n) p4 sb (empty_seglist\<lparr>numhunks := unat n\<rparr>)) (\<lambda>(sb1, seg, p5).
           bindE (load_body buf skip lst
                    \<lparr>ls_sb = sb1, ls_seg = seg, ls_pos = p5, curhunk = first, lasthunk = first, seen_code = False\<rparr>)
             (\<lambda>st. if seen_code st then Inr st else fail NoCode st)))"
    if n: "\<not> (n = 0 \<or> unat n > J4_MAX_HUNKS)" "\<not> (lst < first \<or> lst \<ge> n)" for n first lst p4
  proof -
    have l0: "laid (unat (next_alloc sb)) (unat (next_alloc sb)) (unat prefix) (empty_seglist\<lparr>numhunks := unat n\<rparr>) 0"
      by (simp add: laid_def empty_seglist_def)
    have k: "0 + unat n \<le> J4_MAX_HUNKS" using n by simp
    have ft: "unat first < unat n" using n(2) by (meson not_le order_le_less_trans word_less_nat_alt)
    note al = alloc_hunks_ok [OF w l0 k order_refl p, of buf p4]
    have "okE (contained sb) (\<lambda>(sb', seg', pos'). host_mem sb' = host_mem sb \<and> same_region sb sb' \<and> wf_sandbox sb' \<and>
       next_alloc sb \<le> next_alloc sb' \<and> numhunks seg' = unat n \<and>
       laid (unat (next_alloc sb)) (unat (next_alloc sb')) (unat prefix) seg' (unat n))
      (alloc_hunks buf prefix 0 (unat n) p4 sb (empty_seglist\<lparr>numhunks := unat n\<rparr>))"
      using al by (auto simp: okE_def contained_def untouched_def split: sum.splits)
    then show ?thesis
      by (rule okE_bind) (use body_result [OF w nw ft] n in \<open>auto simp: not_le\<close>)
  qed
  show ?thesis
    unfolding load_hunks_def Let_def
    using main fr by (simp split: option.splits sum.splits prod.splits)
qed


subsection \<open>The AmigaDOS frames\<close>

definition frame_link :: "seglist \<Rightarrow> nat \<Rightarrow> u32" where
  "frame_link seg i = (if i + 1 < numhunks seg then drop_bit 2 (hunk_base seg ! (i + 1) - 4) else 0)"

text \<open>Following the BPTR links as \<open>UnLoadSeg\<close> does: payload address and length of each segment.\<close>

fun bptr_walk :: "sandbox \<Rightarrow> nat \<Rightarrow> u32 \<Rightarrow> (u32 \<times> u32) list" where
  "bptr_walk sb 0 b = []"
| "bptr_walk sb (Suc k) b =
     (if b = 0 then []
      else let node = push_bit 2 b in
           (node + 4, sb_read_be32 (host_mem sb) (j4_sandbox_host sb (node - 4)) - 8) #
           bptr_walk sb k (sb_read_be32 (host_mem sb) (j4_sandbox_host sb node)))"

lemma frame_host:
  assumes l: "laid lo hi 8 seg n" and i: "i < n" and o: "unat (sandbox_origin sb) \<le> lo"
  shows "j4_sandbox_host sb (hunk_base seg ! i - 4 - 4) = B seg i - 8 - unat (sandbox_origin sb)"
    "j4_sandbox_host sb (hunk_base seg ! i - 4) = B seg i - 4 - unat (sandbox_origin sb)"
    "unat (sandbox_origin sb) + 8 \<le> B seg i"
proof -
  have b: "lo + 8 \<le> B seg i" using l i by (auto simp: laid_def)
  then have u: "unat (hunk_base seg ! i - 4) = B seg i - 4" "unat (hunk_base seg ! i - 4 - 4) = B seg i - 8"
    by (simp_all add: unat_sub_if' unat_word_ariths)
  show "j4_sandbox_host sb (hunk_base seg ! i - 4) = B seg i - 4 - unat (sandbox_origin sb)"
    using b o u by (simp add: j4_sandbox_host_def unat_sub word_le_nat_alt)
  show "j4_sandbox_host sb (hunk_base seg ! i - 4 - 4) = B seg i - 8 - unat (sandbox_origin sb)"
    unfolding j4_sandbox_host_def using b o u(2) by (simp add: unat_sub word_le_nat_alt)
  show "unat (sandbox_origin sb) + 8 \<le> B seg i" using b o by simp
qed


definition frame_area :: "sandbox \<Rightarrow> seglist \<Rightarrow> nat \<Rightarrow> nat set" where
  "frame_area sb seg i = {B seg i - 8 - unat (sandbox_origin sb)..<B seg i - unat (sandbox_origin sb)}"

lemma write_frames_ok:
  assumes l: "laid lo hi 8 seg n" and n: "numhunks seg = n" and o: "unat (sandbox_origin sb) \<le> lo" and k: "i + k = n"
  shows "same_region sb (write_frames i k seg sb) \<and> next_alloc (write_frames i k seg sb) = next_alloc sb \<and>
    (\<forall>a. (\<forall>j. i \<le> j \<longrightarrow> j < n \<longrightarrow> a \<notin> frame_area sb seg j) \<longrightarrow> host_mem (write_frames i k seg sb) a = host_mem sb a) \<and>
    (\<forall>j. i \<le> j \<longrightarrow> j < n \<longrightarrow>
       sb_read_be32 (host_mem (write_frames i k seg sb)) (B seg j - 8 - unat (sandbox_origin sb)) = hunk_size seg ! j + 8 \<and>
       sb_read_be32 (host_mem (write_frames i k seg sb)) (B seg j - 4 - unat (sandbox_origin sb)) = frame_link seg j)"
  using o k
proof (induction k arbitrary: i sb)
  case 0
  then show ?case by (simp add: same_region_def)
next
  case (Suc k)
  let ?o = "unat (sandbox_origin sb)"
  have i: "i < n" using Suc.prems by simp
  note fh = frame_host [OF l i Suc.prems(1)]
  define m2 where "m2 = sb_write_be32 (sb_write_be32 (host_mem sb) (B seg i - 8 - ?o) (hunk_size seg ! i + 8))
                          (B seg i - 4 - ?o) (frame_link seg i)"
  let ?sb = "sb\<lparr>host_mem := m2\<rparr>"
  let ?r = "write_frames (i + 1) k seg ?sb"
  have step: "write_frames i (Suc k) seg sb = ?r"
    using fh by (simp add: Let_def m2_def frame_link_def)
  have "same_region ?sb ?r \<and> next_alloc ?r = next_alloc ?sb \<and>
    (\<forall>a. (\<forall>j. i + 1 \<le> j \<longrightarrow> j < n \<longrightarrow> a \<notin> frame_area ?sb seg j) \<longrightarrow> host_mem ?r a = host_mem ?sb a) \<and>
    (\<forall>j. i + 1 \<le> j \<longrightarrow> j < n \<longrightarrow>
       sb_read_be32 (host_mem ?r) (B seg j - 8 - unat (sandbox_origin ?sb)) = hunk_size seg ! j + 8 \<and>
       sb_read_be32 (host_mem ?r) (B seg j - 4 - unat (sandbox_origin ?sb)) = frame_link seg j)"
    by (rule Suc.IH) (use Suc.prems in auto)
  then have IH: "same_region sb ?r" "next_alloc ?r = next_alloc sb"
      "\<And>a. (\<forall>j. i + 1 \<le> j \<longrightarrow> j < n \<longrightarrow> a \<notin> frame_area sb seg j) \<Longrightarrow> host_mem ?r a = m2 a"
      "\<And>j. i + 1 \<le> j \<Longrightarrow> j < n \<Longrightarrow> sb_read_be32 (host_mem ?r) (B seg j - 8 - ?o) = hunk_size seg ! j + 8"
      "\<And>j. i + 1 \<le> j \<Longrightarrow> j < n \<Longrightarrow> sb_read_be32 (host_mem ?r) (B seg j - 4 - ?o) = frame_link seg j"
    by (simp_all add: same_region_def frame_area_def)
  have low: "host_mem ?r a = m2 a" if "a < B seg i - ?o" for a
  proof (rule IH(3), intro allI impI)
    fix j assume j: "i + 1 \<le> j" "j < n"
    then have "i < j" by simp
    then have "B seg i + S seg i + 8 \<le> B seg j" using l j(2) by (auto simp: laid_def)
    then show "a \<notin> frame_area sb seg j" using that by (auto simp: frame_area_def)
  qed
  have m2i: "sb_read_be32 m2 (B seg i - 8 - ?o) = hunk_size seg ! i + 8" "sb_read_be32 m2 (B seg i - 4 - ?o) = frame_link seg i"
    using fh(3) by (simp_all add: m2_def read_write_other)
  have ri: "sb_read_be32 (host_mem ?r) (B seg i - 8 - ?o) = hunk_size seg ! i + 8"
    "sb_read_be32 (host_mem ?r) (B seg i - 4 - ?o) = frame_link seg i"
    unfolding m2i [symmetric] by (rule read_cong, rule low, use fh(3) in linarith)+
  have out: "host_mem ?r a = host_mem sb a" if a: "\<forall>j. i \<le> j \<longrightarrow> j < n \<longrightarrow> a \<notin> frame_area sb seg j" for a
  proof -
    have "a \<notin> frame_area sb seg i" using a i by blast
    then have "a \<notin> {B seg i - 8 - ?o..<B seg i - 8 - ?o + 4}" "a \<notin> {B seg i - 4 - ?o..<B seg i - 4 - ?o + 4}"
      using fh(3) by (auto simp: frame_area_def)
    then have "m2 a = host_mem sb a" unfolding m2_def by (simp add: sb_write_outside)
    moreover have "host_mem ?r a = m2 a" by (rule IH(3)) (use a in auto)
    ultimately show ?thesis by simp
  qed
  have cells: "\<And>j. i \<le> j \<Longrightarrow> j < n \<Longrightarrow> sb_read_be32 (host_mem ?r) (B seg j - 8 - ?o) = hunk_size seg ! j + 8 \<and>
      sb_read_be32 (host_mem ?r) (B seg j - 4 - ?o) = frame_link seg j"
    using ri IH(4,5) by (metis Suc_eq_plus1 Suc_leI le_neq_implies_less)
  show ?case unfolding step using IH(1,2) out cells by blast
qed


lemma bptr_round:
  assumes "4 dvd unat (x :: u32)"
  shows "push_bit 2 (drop_bit 2 x) = x"
proof -
  have "unat (take_bit 2 x) = 0" using assms by (simp add: unat_take_bit)
  then have "take_bit 2 x = 0" by (simp add: unat_eq_0)
  then show ?thesis using bits_ident [of 2 x] by simp
qed

lemma node_ok:
  assumes l: "laid lo hi 8 seg n" and i: "i < n" and o: "0 < lo"
  shows "4 dvd unat (hunk_base seg ! i - 4)" "drop_bit 2 (hunk_base seg ! i - 4) \<noteq> 0"
proof -
  have b: "lo + 8 \<le> B seg i" and d: "16 dvd B seg i - 8" using l i by (auto simp: laid_def)
  then have u: "unat (hunk_base seg ! i - 4) = B seg i - 8 + 4" by (simp add: unat_sub_if' unat_word_ariths)
  have "4 dvd B seg i - 8" using d by (rule dvd_trans [rotated]) simp
  then show dv: "4 dvd unat (hunk_base seg ! i - 4)" unfolding u by simp
  show "drop_bit 2 (hunk_base seg ! i - 4) \<noteq> 0"
  proof
    assume "drop_bit 2 (hunk_base seg ! i - 4) = 0"
    then have "hunk_base seg ! i - 4 = 0" using bptr_round [OF dv] by simp
    then show False using u by simp
  qed
qed

lemma bptr_walk_ok:
  assumes l: "laid lo hi 8 seg n" and n: "numhunks seg = n" and o: "unat (sandbox_origin sb) \<le> lo" "0 < lo"
    and c: "\<And>j. j < n \<Longrightarrow> sb_read_be32 (host_mem sb) (B seg j - 8 - unat (sandbox_origin sb)) = hunk_size seg ! j + 8"
    "\<And>j. j < n \<Longrightarrow> sb_read_be32 (host_mem sb) (B seg j - 4 - unat (sandbox_origin sb)) = frame_link seg j"
  shows "i < n \<Longrightarrow> n - i \<le> k \<Longrightarrow>
    bptr_walk sb k (drop_bit 2 (hunk_base seg ! i - 4)) = map (\<lambda>j. (hunk_base seg ! j, hunk_size seg ! j)) [i..<n]"
proof (induction k arbitrary: i)
  case (Suc k)
  note fh = frame_host [OF l Suc.prems(1) o(1)] and nd = node_ok [OF l Suc.prems(1) o(2)]
  have step: "bptr_walk sb (Suc k) (drop_bit 2 (hunk_base seg ! i - 4)) =
      (hunk_base seg ! i, hunk_size seg ! i) # bptr_walk sb k (frame_link seg i)"
    using nd fh c [OF Suc.prems(1)] by (simp add: Let_def bptr_round)
  show ?case
  proof (cases "i + 1 < n")
    case True
    then have "bptr_walk sb k (frame_link seg i) = map (\<lambda>j. (hunk_base seg ! j, hunk_size seg ! j)) [i + 1..<n]"
      using Suc.IH [of "i + 1"] Suc.prems n by (simp add: frame_link_def)
    then show ?thesis using step Suc.prems(1) by (simp add: upt_conv_Cons)
  next
    case False
    then have "n = Suc i" using Suc.prems by simp
    moreover have "bptr_walk sb k 0 = []" by (cases k) simp_all
    ultimately show ?thesis using step n by (simp add: frame_link_def)
  qed
qed simp

subsection \<open>Properties\<close>

lemma demo_sandbox_wf: "wf_sandbox demo_sandbox"
  by (simp add: wf_sandbox_def demo_sandbox_def j4_sandbox_init_def)

lemma load_cases:
  assumes "wf_sandbox sb" "no_wrap buf"
  shows "j4_load_hunks sb buf skip = Inl (e, sb') \<Longrightarrow> contained sb sb'"
    "j4_load_hunks sb buf skip = Inr st \<Longrightarrow> loaded sb 0 st"
    "load_hunks sb buf skip 8 = Inl (e, sb') \<Longrightarrow> contained sb sb'"
    "load_hunks sb buf skip 8 = Inr st \<Longrightarrow> loaded sb 8 st"
  using load_hunks_ok [OF assms, of 0 skip] load_hunks_ok [OF assms, of 8 skip]
  by (simp_all add: j4_load_hunks_def okE_def split: sum.splits)




lemma demo_loads:
  "case load_hunks demo_sandbox (demo_file 4) False 8 of Inl _ \<Rightarrow> False
     | Inr st \<Rightarrow> hunk_base (ls_seg st) ! 0 = 0x1008 \<and> hunk_size (ls_seg st) ! 0 = 8 \<and> numhunks (ls_seg st) = 1 \<and>
                sb_read_be32 (host_mem (ls_sb st)) 12 = 0x1018"
  by code_simp

lemma demo_no_wrap: "no_wrap (demo_file 4)"
  by code_simp


text \<open>A relocation at an offset that does not wrap is the AmigaDOS one: it fails exactly when the
  longword does not lie inside the current hunk, and otherwise the big-endian longword there becomes
  its old value plus the base of the target hunk (modulo \<open>2 ^ 32\<close>) and no other byte changes.\<close>

theorem reloc_adds_base:
  assumes "good_layout sb seg lo p" "body_inv sb seg st" "unat offset + 4 < 2 ^ 32"
    and "site = B seg (unat (lasthunk st)) - unat (sandbox_origin sb) + unat offset"
  shows "if S seg (unat (lasthunk st)) < unat offset + 4 then reloc_site e target offset st = Inl (e, ls_sb st)
    else \<exists>st'. reloc_site e target offset st = Inr st' \<and>
      sb_read_be32 (host_mem (ls_sb st')) site = sb_read_be32 (host_mem (ls_sb st)) site + hunk_base seg ! unat target \<and>
      (\<forall>a. a < site \<or> site + 4 \<le> a \<longrightarrow> host_mem (ls_sb st') a = host_mem (ls_sb st) a)"
proof -
  let ?i = "unat (lasthunk st)"
  have sh: "same_shape seg (ls_seg st)" "sandbox_origin (ls_sb st) = sandbox_origin sb" "?i < numhunks seg"
    using assms(2) by (auto simp: body_inv_def same_region_def)
  have u: "unat (offset + 4) = unat offset + 4" using assms(3) by (simp add: unat_word_ariths)
  then have g: "(offset + 4 > size_of st (lasthunk st)) = (S seg ?i < unat offset + 4)"
    using sh(1) by (simp add: size_of_def same_shape_def word_less_nat_alt)
  show ?thesis
  proof (cases "S seg ?i < unat offset + 4")
    case True
    then show ?thesis using g by (simp add: reloc_site_def fail_def Let_def)
  next
    case False
    then have "j4_sandbox_host (ls_sb st) (base_of st (lasthunk st) + offset) = site"
      using host_offset [OF assms(1) sh(3) _ sh(2), of offset] sh(1) assms(4) by (simp add: base_of_def same_shape_def)
    then show ?thesis using False g sh(1)
      by (simp add: reloc_site_def Let_def base_of_def same_shape_def sb_write_outside)
  qed
qed

definition demo_lstate :: lstate where
  "demo_lstate = \<lparr>ls_sb = demo_sandbox\<lparr>next_alloc := 0x1010\<rparr>,
     ls_seg = empty_seglist\<lparr>numhunks := 1, hunk_base := 0x1000 # replicate 15 0, hunk_size := 8 # replicate 15 0\<rparr>,
     ls_pos = 0, curhunk = 1, lasthunk = 0, seen_code = False\<rparr>"

theorem reloc_adds_base_witness:
  "\<exists>st'. reloc_site RelocOutside 0 4 demo_lstate = Inr st' \<and> sb_read_be32 (host_mem (ls_sb st')) 4 = 0x1000"
proof -
  have g: "good_layout (ls_sb demo_lstate) (ls_seg demo_lstate) 0x1000 0"
    by (simp add: good_layout_def wf_sandbox_def laid_def demo_lstate_def demo_sandbox_def j4_sandbox_init_def
        empty_seglist_def J4_MAX_HUNKS_def)
  have b: "body_inv (ls_sb demo_lstate) (ls_seg demo_lstate) demo_lstate"
    by (simp add: body_inv_def same_shape_def same_region_def untouched_def entry_ok_def demo_lstate_def)
  have "unat (4 :: u32) + 4 < 2 ^ 32" by simp
  from reloc_adds_base [OF g b this refl, of RelocOutside 0] obtain st'
    where "reloc_site RelocOutside 0 4 demo_lstate = Inr st'" "sb_read_be32 (host_mem (ls_sb st')) 4 =
        sb_read_be32 (host_mem (ls_sb demo_lstate)) 4 + 0x1000"
    by (auto simp: demo_lstate_def demo_sandbox_def j4_sandbox_init_def)
  then show ?thesis
    by (simp add: demo_lstate_def demo_sandbox_def j4_sandbox_init_def mem_set0_def sb_read_be32_def be32_def)
qed





text \<open>What the bound on the file's longwords is for: the test \<open>offset + 4u > hunk_size\<close> is a 32-bit sum.
  A file whose second hunk, one DATA longword, is relocated at offset \<open>0xFFFFFFFC\<close> loads without an
  error although that longword is not in the hunk: the relocation overwrites the last instruction
  longword of the CODE hunk before it, which the same file without the relocation leaves alone.\<close>

theorem reloc_escapes:
  "(case j4_load_hunks demo_sandbox (demo_two_hunks 0xFFFFFFFC) False of Inl _ \<Rightarrow> False
     | Inr st \<Rightarrow> sb_read_be32 (host_mem (ls_sb st)) 12 = 0x4E755E75) \<and>
   (case j4_load_hunks demo_sandbox (demo_two_hunks 0xFFFFFFFC) True of Inl _ \<Rightarrow> False
     | Inr st \<Rightarrow> sb_read_be32 (host_mem (ls_sb st)) 12 = 0x4E754E75) \<and>
   (case j4_load_hunks demo_sandbox (demo_two_hunks 1) False of Inl (e, _) \<Rightarrow> e = RelocOutside | Inr st \<Rightarrow> False)"
proof -
  have "case j4_load_hunks demo_sandbox (demo_two_hunks 0xFFFFFFFC) False of Inl _ \<Rightarrow> False
     | Inr st \<Rightarrow> sb_read_be32 (host_mem (ls_sb st)) 12 = 0x4E755E75" by code_simp
  moreover have "case j4_load_hunks demo_sandbox (demo_two_hunks 0xFFFFFFFC) True of Inl _ \<Rightarrow> False
     | Inr st \<Rightarrow> sb_read_be32 (host_mem (ls_sb st)) 12 = 0x4E754E75" by code_simp
  moreover have "case j4_load_hunks demo_sandbox (demo_two_hunks 1) False of Inl (e, _) \<Rightarrow> e = RelocOutside
     | Inr st \<Rightarrow> False" by code_simp
  ultimately show ?thesis by (intro conjI)
qed

end
