(* ===== verification/HvText.thy ===== *)
theory HvText
  imports ArosPrelude
begin

unbundle bit_operations_syntax

text \<open>
  Text at the host-volume bridge (\<open>hosted/hostvolume/\<close>): NUL-terminated byte strings, the bounded output
  buffers of the \<open>snprintf\<close> convention that all its functions share, and the UTF-8 decoder and encoders.

  A C string is the list of its bytes; reading at or past the end of the list gives the terminating 0. An output
  buffer is the pair of the destination array, a list of \<open>dstcap\<close> bytes, and the running count \<open>need\<close>.
\<close>

type_synonym cstr = "u8 list"
type_synonym buf = "u8 list \<times> nat"

definition byte_at :: "cstr \<Rightarrow> nat \<Rightarrow> u8" where
  "byte_at s i = (if i < length s then s ! i else 0)"

definition c_string :: "u8 list \<Rightarrow> cstr" where
  "c_string = takeWhile (\<lambda>b. b \<noteq> 0)"

subsection \<open>The output buffer\<close>

definition put1 :: "nat \<Rightarrow> u8 \<Rightarrow> buf \<Rightarrow> buf" where
  "put1 cap b out = (case out of (dst, need) \<Rightarrow> (if need + 1 < cap then dst[need := b] else dst, need + 1))"

definition puts :: "nat \<Rightarrow> u8 list \<Rightarrow> buf \<Rightarrow> buf" where
  "puts cap bs out = fold (put1 cap) bs out"

definition terminate_buf :: "nat \<Rightarrow> buf \<Rightarrow> u8 list \<times> nat" where
  "terminate_buf cap out = (case out of (dst, need) \<Rightarrow>
     (if cap > 0 then dst[(if need < cap then need else cap - 1) := 0] else dst, need))"

subsection \<open>UTF-8\<close>

fun u8_tail :: "nat \<Rightarrow> cstr \<Rightarrow> u32 \<Rightarrow> u32 option" where
  "u8_tail 0 s c = Some c"
| "u8_tail (Suc k) s c =
     (if byte_at s 0 AND 0xC0 \<noteq> 0x80 then None
      else u8_tail k (drop 1 s) (push_bit 6 c OR ucast (byte_at s 0 AND 0x3F)))"

definition u8_lead :: "u32 \<Rightarrow> (nat \<times> u32 \<times> u32) option" where
  "u8_lead c =
     (if c AND 0xE0 = 0xC0 then Some (1, c AND 0x1F, 0x80)
      else if c AND 0xF0 = 0xE0 then Some (2, c AND 0x0F, 0x800)
      else if c AND 0xF8 = 0xF0 then Some (3, c AND 0x07, 0x10000)
      else None)"

definition u8_next :: "cstr \<Rightarrow> u32 \<times> cstr" where
  "u8_next s =
     (let b = ucast (byte_at s 0) in
      if b < 0x80 then (b, drop 1 s)
      else case u8_lead b of None \<Rightarrow> (b, drop 1 s)
           | Some (n, c, lo) \<Rightarrow>
               (case u8_tail n (drop 1 s) c of None \<Rightarrow> (b, drop 1 s)
                | Some v \<Rightarrow> if v < lo \<or> v > 0x10FFFF \<or> v \<ge> 0xD800 \<and> v \<le> 0xDFFF then (b, drop 1 s)
                           else (v, drop (n + 1) s)))"

lemma u8_next_shorter: "s \<noteq> [] \<Longrightarrow> length (snd (u8_next s)) < length s"
  by (auto simp: u8_next_def Let_def split: option.splits)

text \<open>The reference encoding of one code point, and the code points it is defined for.\<close>

definition utf8 :: "u32 \<Rightarrow> u8 list" where
  "utf8 c =
     (if c < 0x80 then [ucast c]
      else if c < 0x800 then [ucast (0xC0 OR drop_bit 6 c), ucast (0x80 OR (c AND 0x3F))]
      else if c < 0x10000 then
        [ucast (0xE0 OR drop_bit 12 c), ucast (0x80 OR (drop_bit 6 c AND 0x3F)), ucast (0x80 OR (c AND 0x3F))]
      else [ucast (0xF0 OR drop_bit 18 c), ucast (0x80 OR (drop_bit 12 c AND 0x3F)),
            ucast (0x80 OR (drop_bit 6 c AND 0x3F)), ucast (0x80 OR (c AND 0x3F))])"

definition scalar :: "u32 \<Rightarrow> bool" where
  "scalar c \<longleftrightarrow> c \<le> 0x10FFFF \<and> \<not> (c \<ge> 0xD800 \<and> c \<le> 0xDFFF)"

definition utf8_string :: "u32 list \<Rightarrow> cstr" where
  "utf8_string cs = concat (map utf8 cs)"

lemma below_bits: "(c :: u32) < 2 ^ k \<Longrightarrow> k < 32 \<Longrightarrow> k \<le> n \<Longrightarrow> \<not> bit c n"
  by (metis bit_take_bit_iff less_mask_eq linorder_not_le take_bit_eq_mask and.commute)

lemma byte_eq_iff: "(a :: u8) = b \<longleftrightarrow> (\<forall>n < 8. bit a n = bit b n)"
  by (auto simp: bit_eq_iff)

lemma word_eq_iff32: "(a :: u32) = b \<longleftrightarrow> (\<forall>n < 32. bit a n = bit b n)"
  by (auto simp: bit_eq_iff)

lemmas bitwise8 = byte_eq_iff All_less_Suc eval_nat_numeral bit_simps
lemmas bitwise32 = word_eq_iff32 All_less_Suc eval_nat_numeral bit_simps

lemma tail_test: "(ucast (0x80 OR (c AND 0x3F) :: u32) :: u8) AND 0xC0 = 0x80"
  by (simp add: bitwise8)

lemma tail_bits: "ucast ((ucast (0x80 OR (c AND 0x3F) :: u32) :: u8) AND 0x3F) = c AND (0x3F :: u32)"
  by (simp add: bitwise32)

lemma byte_at_simps [simp]:
  "byte_at (b # s) 0 = b" "byte_at (b # s) (Suc i) = byte_at s i" "byte_at [] i = 0"
  by (simp_all add: byte_at_def)

lemma tail_step:
  "u8_tail (Suc k) (ucast (0x80 OR (c AND 0x3F) :: u32) # s) a = u8_tail k s (push_bit 6 a OR (c AND 0x3F))"
  by (simp add: tail_test tail_bits)

lemma high_bit: "bit (b :: u32) 7 \<Longrightarrow> \<not> b < 0x80"
  using below_bits [of b 7 7] by auto

lemma lead_2:
  assumes "(c :: u32) < 0x800"
  defines "b \<equiv> ucast (ucast (0xC0 OR drop_bit 6 c :: u32) :: u8) :: u32"
  shows "\<not> b < 0x80" "u8_lead b = Some (1, drop_bit 6 c, 0x80)"
proof -
  note hi = below_bits [of c 11, simplified, OF assms(1)]
  have b: "b = 0xC0 OR drop_bit 6 c" using hi by (simp add: b_def bitwise32)
  show "\<not> b < 0x80" by (rule high_bit) (simp add: b bit_simps)
  show "u8_lead b = Some (1, drop_bit 6 c, 0x80)" using hi by (simp add: u8_lead_def b bitwise32)
qed

lemma lead_3:
  assumes "(c :: u32) < 0x10000"
  defines "b \<equiv> ucast (ucast (0xE0 OR drop_bit 12 c :: u32) :: u8) :: u32"
  shows "\<not> b < 0x80" "u8_lead b = Some (2, drop_bit 12 c, 0x800)"
proof -
  note hi = below_bits [of c 16, simplified, OF assms(1)]
  have b: "b = 0xE0 OR drop_bit 12 c" using hi by (simp add: b_def bitwise32)
  show "\<not> b < 0x80" by (rule high_bit) (simp add: b bit_simps)
  show "u8_lead b = Some (2, drop_bit 12 c, 0x800)" using hi by (simp add: u8_lead_def b bitwise32)
qed

lemma lead_4:
  assumes "(c :: u32) \<le> 0x10FFFF"
  defines "b \<equiv> ucast (ucast (0xF0 OR drop_bit 18 c :: u32) :: u8) :: u32"
  shows "\<not> b < 0x80" "u8_lead b = Some (3, drop_bit 18 c, 0x10000)"
proof -
  have "c < 0x200000" using assms(1) by (simp add: word_le_nat_alt word_less_nat_alt)
  note hi = below_bits [of c 21, simplified, OF this]
  have b: "b = 0xF0 OR drop_bit 18 c" using hi by (simp add: b_def bitwise32)
  show "\<not> b < 0x80" by (rule high_bit) (simp add: b bit_simps)
  show "u8_lead b = Some (3, drop_bit 18 c, 0x10000)" using hi by (simp add: u8_lead_def b bitwise32)
qed

lemma regroup1: "push_bit 6 (drop_bit 6 c) OR (c AND 0x3F) = (c :: u32)"
proof -
  have "(0x3F :: u32) = mask 6" by (simp add: mask_eq_exp_minus_1)
  then show ?thesis by (auto simp: bit_eq_iff bit_simps)
qed

lemma regroup2: "push_bit 6 (push_bit 6 (drop_bit 12 c) OR (drop_bit 6 c AND 0x3F)) OR (c AND 0x3F) = (c :: u32)"
  using regroup1 [of "drop_bit 6 c"] regroup1 [of c] by simp

lemma regroup3:
  "push_bit 6 (push_bit 6 (push_bit 6 (drop_bit 18 c) OR (drop_bit 12 c AND 0x3F)) OR (drop_bit 6 c AND 0x3F)) OR (c AND 0x3F) = (c :: u32)"
  using regroup2 [of "drop_bit 6 c"] regroup1 [of c] by simp

lemmas regroup = regroup1 regroup2 regroup3

lemma tail_steps:
  "u8_tail (Suc 0) (ucast (0x80 OR (c AND 0x3F) :: u32) # s) a = Some (push_bit 6 a OR (c AND 0x3F))"
  "u8_tail 2 (ucast (0x80 OR (d AND 0x3F) :: u32) # ucast (0x80 OR (c AND 0x3F) :: u32) # s) a =
     Some (push_bit 6 (push_bit 6 a OR (d AND 0x3F)) OR (c AND 0x3F))"
  "u8_tail 3 (ucast (0x80 OR (e AND 0x3F) :: u32) # ucast (0x80 OR (d AND 0x3F) :: u32) # ucast (0x80 OR (c AND 0x3F) :: u32) # s) a =
     Some (push_bit 6 (push_bit 6 (push_bit 6 a OR (e AND 0x3F)) OR (d AND 0x3F)) OR (c AND 0x3F))"
  unfolding numeral_2_eq_2 numeral_3_eq_3 tail_step by simp_all

lemma scalar_plain: "scalar c \<Longrightarrow> \<not> c < lo \<Longrightarrow> \<not> (c < lo \<or> c > 0x10FFFF \<or> c \<ge> 0xD800 \<and> c \<le> 0xDFFF)"
  by (auto simp: scalar_def)

lemma u8_next_utf8:
  assumes "scalar c"
  shows "u8_next (utf8 c @ s) = (c, s)"
proof -
  consider "c < 0x80" | "\<not> c < 0x80" "c < 0x800" | "\<not> c < 0x80" "\<not> c < 0x800" "c < 0x10000" | "\<not> c < 0x80" "\<not> c < 0x800" "\<not> c < 0x10000"
    by blast
  then show ?thesis
  proof cases
    case 1
    have "ucast (ucast c :: u8) = c" using below_bits [of c 7, simplified, OF 1] by (simp add: bitwise32)
    then show ?thesis using 1 by (simp add: utf8_def u8_next_def)
  next
    case 2
    then show ?thesis using lead_2 [of c] scalar_plain [OF assms, of "0x80"]
      by (simp only: utf8_def u8_next_def Let_def if_True if_False append.simps byte_at_simps option.case prod.case
            tail_steps regroup drop_Suc_Cons drop_0 One_nat_def add_Suc plus_nat.add_0 simp_thms)
  next
    case 3
    then show ?thesis using lead_3 [of c] scalar_plain [OF assms, of "0x800"]
      by (simp only: utf8_def u8_next_def Let_def if_True if_False append.simps byte_at_simps option.case prod.case
            tail_steps regroup drop_Suc_Cons drop_0 One_nat_def numeral_2_eq_2 [symmetric] simp_thms) simp
  next
    case 4
    then show ?thesis using lead_4 [of c] assms scalar_plain [OF assms, of "0x10000"]
      by (simp only: utf8_def u8_next_def Let_def if_True if_False append.simps byte_at_simps option.case prod.case
            tail_steps regroup drop_Suc_Cons drop_0 One_nat_def scalar_def simp_thms) simp
  qed
qed

subsection \<open>What a bounded writer leaves in its buffer\<close>

text \<open>
  The contract of the \<open>snprintf\<close> convention: the count is the length of the whole output, the array holds the
  part of it that fits, and nothing past the terminator is written.
\<close>

definition fitted :: "nat \<Rightarrow> u8 list \<Rightarrow> u8 list \<Rightarrow> u8 list \<times> nat" where
  "fitted cap bs dst =
     (if cap = 0 then dst else take (cap - 1) bs @ [0] @ drop (min (length bs) (cap - 1) + 1) dst, length bs)"

lemma put1_puts: "put1 cap b out = puts cap [b] out"
  by (simp add: puts_def)

lemma puts_puts [simp]: "puts cap cs (puts cap bs out) = puts cap (bs @ cs) out"
  by (simp add: puts_def)

lemma puts_if: "(if c then puts cap bs out else puts cap cs out) = puts cap (if c then bs else cs) out"
  by simp

lemma puts_Nil [simp]: "puts cap [] out = out"
  by (simp add: puts_def)

lemma puts_snoc: "puts cap (bs @ [b]) out = put1 cap b (puts cap bs out)"
  by (simp add: puts_def)

lemma puts_array:
  assumes "length dst = cap"
  shows "puts cap bs (dst, 0) = (take (cap - 1) bs @ drop (min (length bs) (cap - 1)) dst, length bs)"
proof (induction bs rule: rev_induct)
  case Nil
  then show ?case by simp
next
  case (snoc b bs)
  show ?case
  proof (cases "length bs + 1 < cap")
    case True
    then have "drop (length bs) dst = dst ! length bs # drop (Suc (length bs)) dst"
      using assms by (intro Cons_nth_drop_Suc [symmetric]) simp
    with True show ?thesis using snoc
      by (simp add: puts_snoc put1_def min_def list_update_append)
  next
    case False
    then have "min (length (bs @ [b])) (cap - 1) = min (length bs) (cap - 1)" "take (cap - 1) (bs @ [b]) = take (cap - 1) bs"
      by auto
    with False show ?thesis using snoc by (simp add: puts_snoc put1_def)
  qed
qed

lemma terminate_puts:
  assumes "length dst = cap"
  shows "terminate_buf cap (puts cap bs (dst, 0)) = fitted cap bs dst"
proof (cases "cap = 0")
  case True
  then show ?thesis using assms by (simp add: puts_array fitted_def terminate_buf_def)
next
  case False
  let ?k = "min (length bs) (cap - 1)"
  have "drop ?k dst = dst ! ?k # drop (?k + 1) dst"
    using False assms by (simp add: Cons_nth_drop_Suc)
  moreover have "(if length bs < cap then length bs else cap - 1) = ?k" using False by auto
  ultimately show ?thesis using False assms
    by (simp add: puts_array fitted_def terminate_buf_def list_update_append) (simp add: min_def)
qed

lemma c_string_fitted:
  assumes "0 \<notin> set bs" "length bs < cap"
  shows "c_string (fst (fitted cap bs dst)) = bs"
  using assms by (auto simp: fitted_def c_string_def takeWhile_append)

lemma length_fitted: "length dst = cap \<Longrightarrow> length (fst (fitted cap bs dst)) = cap"
  by (auto simp: fitted_def)

subsection \<open>Strings without NUL\<close>

lemma nonzero_bit7: "bit (b :: u8) 7 \<Longrightarrow> b \<noteq> 0"
  by auto

lemma ucast_small: "(c :: u32) \<le> 0xFF \<Longrightarrow> ucast (ucast c :: u8) = c"
proof -
  assume "c \<le> 0xFF"
  then have "c < 0x100" by (simp add: word_le_nat_alt word_less_nat_alt)
  then show ?thesis using below_bits [of c 8] by (simp add: bitwise32)
qed

lemma utf8_no_nul: "scalar c \<Longrightarrow> c \<noteq> 0 \<Longrightarrow> 0 \<notin> set (utf8 c)"
proof -
  assume c: "scalar c" "c \<noteq> 0"
  have "(ucast c :: u8) \<noteq> 0" if "c < 0x80" using ucast_small [of c] that c by (auto simp: word_le_nat_alt word_less_nat_alt)
  moreover have "(ucast (0xC0 OR d :: u32) :: u8) \<noteq> 0" "(ucast (0xE0 OR d :: u32) :: u8) \<noteq> 0"
    "(ucast (0xF0 OR d :: u32) :: u8) \<noteq> 0" "(ucast (0x80 OR d :: u32) :: u8) \<noteq> 0" for d
    by (rule nonzero_bit7, simp add: bit_simps)+
  ultimately show "0 \<notin> set (utf8 c)" by (auto simp: utf8_def eq_commute [of 0])
qed

lemma utf8_first: "scalar c \<Longrightarrow> c \<noteq> 0 \<Longrightarrow> byte_at (utf8 c @ s) 0 \<noteq> 0"
  using utf8_no_nul [of c] by (cases "utf8 c") (auto simp: utf8_def split: if_splits)

lemma utf8_string_no_nul: "\<forall>c\<in>set cs. scalar c \<and> c \<noteq> 0 \<Longrightarrow> 0 \<notin> set (utf8_string cs)"
  by (auto simp: utf8_string_def dest: utf8_no_nul)

lemma fitted_array:
  assumes "length bs < cap"
  shows "\<exists>s. byte_at s 0 = 0 \<and> fst (fitted cap bs dst) = bs @ s"
  using assms by (intro exI [of _ "0 # drop (length bs + 1) dst"]) (simp add: fitted_def)

lemma byte_below: "(ucast (b :: u8) :: u32) < 0x100"
  using unsigned_less [of b, where ?'a = nat]
  by (simp add: word_less_nat_alt unsigned_ucast_eq le_less_trans [OF take_bit_nat_less_eq_self])

lemma byte_down_up: "(ucast (ucast (b :: u8) :: u32) :: u8) = b"
  by (simp add: bit_eq_iff bit_simps)

lemma byte_up_zero: "(ucast (b :: u8) :: u32) = 0 \<longleftrightarrow> b = 0"
  using byte_down_up [of b] by (metis unsigned_0)

lemma byte_scalar: "scalar (ucast (b :: u8))"
  using byte_below [of b] by (auto simp: scalar_def word_less_nat_alt word_le_nat_alt)

lemma lead_bound: "u8_lead b = Some (n, c, lo) \<Longrightarrow> \<not> v < lo \<Longrightarrow> v \<noteq> 0"
  by (auto simp: u8_lead_def split: if_splits)

lemma u8_next_scalar: "byte_at s 0 \<noteq> 0 \<Longrightarrow> scalar (fst (u8_next s)) \<and> fst (u8_next s) \<noteq> 0"
  by (auto simp: u8_next_def Let_def byte_scalar byte_up_zero dest: lead_bound split: option.split)
    (auto simp: scalar_def not_less not_le dest: lead_bound)

end
