(* ===== verification/HvNorm.thy ===== *)
theory HvNorm
  imports HvText
begin

text \<open>
  Unicode normalization of host names (\<open>hosted/hostvolume/hv_norm.c\<close>): the tables, their binary search, canonical
  decomposition, ordering and composition as the code does them in place on its bounded arrays.
\<close>

subsection \<open>Tables\<close>

definition ccc_tab :: "(u32 \<times> u8) list" where
  "ccc_tab =
   [(0x0300, 230), (0x0301, 230), (0x0302, 230), (0x0303, 230), (0x0304, 230), (0x0306, 230), (0x0307, 230), (0x0308, 230),
    (0x0309, 230), (0x030A, 230), (0x030B, 230), (0x030C, 230), (0x0323, 220), (0x0327, 202), (0x0328, 202)]"

definition dec_tab :: "(u32 \<times> u32 \<times> u32) list" where
  "dec_tab =
   [(0x00C0, 0x0041, 0x0300), (0x00C1, 0x0041, 0x0301), (0x00C2, 0x0041, 0x0302), (0x00C3, 0x0041, 0x0303), (0x00C4, 0x0041, 0x0308),
    (0x00C5, 0x0041, 0x030A), (0x00C7, 0x0043, 0x0327), (0x00C8, 0x0045, 0x0300), (0x00C9, 0x0045, 0x0301), (0x00CA, 0x0045, 0x0302),
    (0x00CB, 0x0045, 0x0308), (0x00CC, 0x0049, 0x0300), (0x00CD, 0x0049, 0x0301), (0x00CE, 0x0049, 0x0302), (0x00CF, 0x0049, 0x0308),
    (0x00D1, 0x004E, 0x0303), (0x00D2, 0x004F, 0x0300), (0x00D3, 0x004F, 0x0301), (0x00D4, 0x004F, 0x0302), (0x00D5, 0x004F, 0x0303),
    (0x00D6, 0x004F, 0x0308), (0x00D9, 0x0055, 0x0300), (0x00DA, 0x0055, 0x0301), (0x00DB, 0x0055, 0x0302), (0x00DC, 0x0055, 0x0308),
    (0x00DD, 0x0059, 0x0301), (0x00E0, 0x0061, 0x0300), (0x00E1, 0x0061, 0x0301), (0x00E2, 0x0061, 0x0302), (0x00E3, 0x0061, 0x0303),
    (0x00E4, 0x0061, 0x0308), (0x00E5, 0x0061, 0x030A), (0x00E7, 0x0063, 0x0327), (0x00E8, 0x0065, 0x0300), (0x00E9, 0x0065, 0x0301),
    (0x00EA, 0x0065, 0x0302), (0x00EB, 0x0065, 0x0308), (0x00EC, 0x0069, 0x0300), (0x00ED, 0x0069, 0x0301), (0x00EE, 0x0069, 0x0302),
    (0x00EF, 0x0069, 0x0308), (0x00F1, 0x006E, 0x0303), (0x00F2, 0x006F, 0x0300), (0x00F3, 0x006F, 0x0301), (0x00F4, 0x006F, 0x0302),
    (0x00F5, 0x006F, 0x0303), (0x00F6, 0x006F, 0x0308), (0x00F9, 0x0075, 0x0300), (0x00FA, 0x0075, 0x0301), (0x00FB, 0x0075, 0x0302),
    (0x00FC, 0x0075, 0x0308), (0x00FD, 0x0079, 0x0301), (0x00FF, 0x0079, 0x0308), (0x0100, 0x0041, 0x0304), (0x0101, 0x0061, 0x0304),
    (0x0102, 0x0041, 0x0306), (0x0103, 0x0061, 0x0306), (0x0104, 0x0041, 0x0328), (0x0105, 0x0061, 0x0328), (0x0106, 0x0043, 0x0301),
    (0x0107, 0x0063, 0x0301), (0x010C, 0x0043, 0x030C), (0x010D, 0x0063, 0x030C), (0x010E, 0x0044, 0x030C), (0x010F, 0x0064, 0x030C),
    (0x0112, 0x0045, 0x0304), (0x0113, 0x0065, 0x0304), (0x0116, 0x0045, 0x0307), (0x0117, 0x0065, 0x0307), (0x0118, 0x0045, 0x0328),
    (0x0119, 0x0065, 0x0328), (0x011A, 0x0045, 0x030C), (0x011B, 0x0065, 0x030C), (0x011E, 0x0047, 0x0306), (0x011F, 0x0067, 0x0306),
    (0x0130, 0x0049, 0x0307), (0x0139, 0x004C, 0x0301), (0x013A, 0x006C, 0x0301), (0x013D, 0x004C, 0x030C), (0x013E, 0x006C, 0x030C),
    (0x0143, 0x004E, 0x0301), (0x0144, 0x006E, 0x0301), (0x0147, 0x004E, 0x030C), (0x0148, 0x006E, 0x030C), (0x014C, 0x004F, 0x0304),
    (0x014D, 0x006F, 0x0304), (0x0150, 0x004F, 0x030B), (0x0151, 0x006F, 0x030B), (0x0154, 0x0052, 0x0301), (0x0155, 0x0072, 0x0301),
    (0x0158, 0x0052, 0x030C), (0x0159, 0x0072, 0x030C), (0x015A, 0x0053, 0x0301), (0x015B, 0x0073, 0x0301), (0x015E, 0x0053, 0x0327),
    (0x015F, 0x0073, 0x0327), (0x0160, 0x0053, 0x030C), (0x0161, 0x0073, 0x030C), (0x0162, 0x0054, 0x0327), (0x0163, 0x0074, 0x0327),
    (0x0164, 0x0054, 0x030C), (0x0165, 0x0074, 0x030C), (0x0168, 0x0055, 0x0303), (0x0169, 0x0075, 0x0303), (0x016A, 0x0055, 0x0304),
    (0x016B, 0x0075, 0x0304), (0x016C, 0x0055, 0x0306), (0x016D, 0x0075, 0x0306), (0x016E, 0x0055, 0x030A), (0x016F, 0x0075, 0x030A),
    (0x0170, 0x0055, 0x030B), (0x0171, 0x0075, 0x030B), (0x0172, 0x0055, 0x0328), (0x0173, 0x0075, 0x0328), (0x0179, 0x005A, 0x0301),
    (0x017A, 0x007A, 0x0301), (0x017B, 0x005A, 0x0307), (0x017C, 0x007A, 0x0307), (0x017D, 0x005A, 0x030C), (0x017E, 0x007A, 0x030C)]"

text \<open>The binary search that \<open>ccc_of\<close> and \<open>decompose1\<close> share.\<close>

function table_search :: "(u32 \<times> 'a) list \<Rightarrow> u32 \<Rightarrow> int \<Rightarrow> int \<Rightarrow> 'a option" where
  "table_search tab c lo hi =
     (if lo > hi then None
      else let mid = (lo + hi) div 2; row = tab ! nat mid in
        if fst row = c then Some (snd row)
        else if fst row < c then table_search tab c (mid + 1) hi
        else table_search tab c lo (mid - 1))"
  by pat_completeness auto
termination
  by (relation "measure (\<lambda>(_, _, lo, hi). nat (hi - lo + 1))") (auto simp: Let_def)

definition ccc_of :: "u32 \<Rightarrow> u8" where
  "ccc_of c = (case table_search ccc_tab c 0 (int (length ccc_tab) - 1) of None \<Rightarrow> 0 | Some k \<Rightarrow> k)"

definition decompose1 :: "u32 \<Rightarrow> (u32 \<times> u32) option" where
  "decompose1 c = table_search dec_tab c 0 (int (length dec_tab) - 1)"

definition compose1 :: "u32 \<Rightarrow> u32 \<Rightarrow> u32 option" where
  "compose1 a b = map_option fst (find (\<lambda>(cp, a', b'). a' = a \<and> b' = b) dec_tab)"

declare table_search.simps [simp del]

lemma table_search_Some:
  assumes "sorted_wrt (<) (map fst tab)"
  shows "0 \<le> lo \<Longrightarrow> hi < int (length tab) \<Longrightarrow>
    table_search tab c lo hi = Some v \<longleftrightarrow> (\<exists>i. lo \<le> int i \<and> int i \<le> hi \<and> tab ! i = (c, v))"
  using assms
proof (induction tab c lo hi rule: table_search.induct)
  case (1 tab c lo hi)
  have lt: "fst (tab ! i) < fst (tab ! j)" if "i < j" "j < length tab" for i j
    using sorted_wrt_nth_less [OF 1(5), of i j] that by simp
  show ?case
  proof (cases "lo > hi")
    case True
    then show ?thesis by (subst table_search.simps) auto
  next
    case False
    define m where "m = nat ((lo + hi) div 2)"
    have mid: "lo \<le> int m" "int m \<le> hi" "(lo + hi) div 2 = int m" "m < length tab" using False 1(3,4) by (auto simp: m_def)
    note step = table_search.simps [of tab c lo hi, unfolded mid(3) Let_def nat_int]
    consider "fst (tab ! m) = c" | "fst (tab ! m) < c" | "fst (tab ! m) > c" by (meson linorder_cases)
    then show ?thesis
    proof cases
      case eq: 1
      have "i = m" if "tab ! i = (c, w)" "i < length tab" for i w
        using lt [of i m] lt [of m i] that eq mid by (cases i m rule: linorder_cases) auto
      then have "(\<exists>i. lo \<le> int i \<and> int i \<le> hi \<and> tab ! i = (c, v)) \<longleftrightarrow> tab ! m = (c, v)"
        using mid 1(4) by (metis le_less_trans of_nat_less_iff)
      moreover have "table_search tab c lo hi = Some (snd (tab ! m))" using eq False by (simp add: step)
      ultimately show ?thesis using eq by (simp add: prod_eq_iff)
    next
      case less: 2
      have A: "int m < int i" if "tab ! i = (c, w)" "i < length tab" for i w
        using lt [of i m] that less mid by (cases i m rule: linorder_cases) auto
      have "(int m + 1 \<le> int i \<and> int i \<le> hi \<and> tab ! i = (c, v)) = (lo \<le> int i \<and> int i \<le> hi \<and> tab ! i = (c, v))" for i
        using A [of i v] mid 1(4) by (cases "tab ! i = (c, v)"; cases "int i \<le> hi") auto
      moreover have "fst (tab ! m) \<noteq> c" "\<not> fst (tab ! m) > c" using less by auto
      ultimately show ?thesis using 1(1) [OF False refl refl] less False mid 1(3-5) unfolding step
        by (simp add: mid)
    next
      case more: 3
      have A: "int i < int m" if "tab ! i = (c, w)" "i < length tab" for i w
        using lt [of m i] that more mid by (cases i m rule: linorder_cases) auto
      have "(lo \<le> int i \<and> int i \<le> int m - 1 \<and> tab ! i = (c, v)) = (lo \<le> int i \<and> int i \<le> hi \<and> tab ! i = (c, v))" for i
        using A [of i v] mid 1(4) by (cases "tab ! i = (c, v)"; cases "int i \<le> hi") auto
      moreover have "fst (tab ! m) \<noteq> c" "\<not> fst (tab ! m) < c" using more by auto
      ultimately show ?thesis using 1(2) [OF False refl refl] more False mid 1(3-5) unfolding step
        by (simp add: mid)
    qed
  qed
qed

lemma table_search_map_of:
  assumes "sorted_wrt (<) (map fst tab)"
  shows "table_search tab c 0 (int (length tab) - 1) = map_of tab c"
proof -
  have "distinct (map fst tab)"
    using assms strict_sorted_iff by blast
  then have "table_search tab c 0 (int (length tab) - 1) = Some v \<longleftrightarrow> map_of tab c = Some v" for v
    using table_search_Some [OF assms, of 0 "int (length tab) - 1" c v]
    by (auto simp: in_set_conv_nth intro!: exI)
  then show ?thesis by (metis option.exhaust)
qed

lemma tables_sorted: "sorted_wrt (<) (map fst ccc_tab)" "sorted_wrt (<) (map fst dec_tab)"
  by (simp_all add: ccc_tab_def dec_tab_def sorted_wrt1 sorted_wrt2 [OF transp_on_less] del: sorted_wrt.simps)

lemma ccc_of_map_of: "ccc_of c = (case map_of ccc_tab c of None \<Rightarrow> 0 | Some k \<Rightarrow> k)"
  by (simp add: ccc_of_def table_search_map_of tables_sorted)

lemma decompose1_map_of: "decompose1 c = map_of dec_tab c"
  by (simp add: decompose1_def table_search_map_of tables_sorted)

text \<open>What the pipeline relies on in the tables: a decomposition is a starter and a mark that do not decompose
  further, and everything is a code point other than NUL.\<close>

definition row_ok :: "u32 \<times> u32 \<times> u32 \<Rightarrow> bool" where
  "row_ok = (\<lambda>(cp, a, b). cp \<ge> 0xC0 \<and> cp < 0x300 \<and> a < 0xC0 \<and> a \<noteq> 0 \<and> b \<ge> 0x300 \<and> b < 0x400 \<and> map_of ccc_tab b \<noteq> None)"

lemma dec_rows: "list_all row_ok dec_tab"
  by (simp add: dec_tab_def row_ok_def ccc_tab_def)

lemma ccc_rows: "list_all (\<lambda>(c, k). c \<ge> 0x300 \<and> k \<noteq> 0) ccc_tab"
  by (simp add: ccc_tab_def)

subsection \<open>The code\<close>

definition HV_MAXCP :: nat where "HV_MAXCP = 1024"

lemma decompose1_row: "decompose1 c = Some (a, b) \<Longrightarrow> row_ok (c, a, b)"
  using dec_rows by (auto simp: decompose1_map_of list_all_iff dest: map_of_SomeD)

lemma decompose1_outside: "c < 0xC0 \<or> c \<ge> 0x300 \<Longrightarrow> decompose1 c = None"
  using decompose1_row [of c] by (cases "decompose1 c") (auto simp: row_ok_def)

lemma decompose1_parts:
  assumes "decompose1 c = Some (a, b)"
  shows "decompose1 a = None" "decompose1 b = None" "ccc_of a = 0" "ccc_of b \<noteq> 0" "ccc_of c = 0"
proof -
  have small: "ccc_of d = 0" if "d < 0x300" for d
    using ccc_rows that by (auto simp: ccc_of_map_of list_all_iff split: option.splits dest!: map_of_SomeD)
  note row = decompose1_row [OF assms]
  show "decompose1 a = None" "decompose1 b = None" using row decompose1_outside by (auto simp: row_ok_def)
  show "ccc_of a = 0" using row small by (auto simp: row_ok_def)
  show "ccc_of c = 0" using row small by (auto simp: row_ok_def)
  obtain k where k: "map_of ccc_tab b = Some k" using row by (auto simp: row_ok_def)
  then have "k \<noteq> 0" using ccc_rows by (auto simp: list_all_iff dest!: map_of_SomeD)
  then show "ccc_of b \<noteq> 0" using k by (simp add: ccc_of_map_of)
qed

function decomp_recursive :: "u32 \<Rightarrow> u32 list \<times> nat \<Rightarrow> nat \<Rightarrow> u32 list \<times> nat" where
  "decomp_recursive c buf cap =
     (case decompose1 c of
        Some (a, b) \<Rightarrow> decomp_recursive b (decomp_recursive a buf cap) cap
      | None \<Rightarrow> (case buf of (cps, pos) \<Rightarrow> (if pos < cap then cps @ [c] else cps, pos + 1)))"
  by pat_completeness auto
termination
  by (relation "measure (\<lambda>(c, _). if decompose1 c = None then 0 else 1)") (auto dest: decompose1_parts)

function norm_loop :: "cstr \<Rightarrow> u32 list \<times> nat \<Rightarrow> u32 list \<times> nat" where
  "norm_loop p buf =
     (if byte_at p 0 = 0 then buf
      else let (c, p') = u8_next p; (cps, n) = decomp_recursive c buf HV_MAXCP in
        if n \<ge> HV_MAXCP then (cps, HV_MAXCP) else norm_loop p' (cps, n))"
  by pat_completeness auto
termination
proof (relation "measure (\<lambda>(p, _). length p)")
  fix p :: cstr and buf :: "u32 list \<times> nat" and x c p' y cps n
  assume "byte_at p 0 \<noteq> 0" "x = u8_next p" "(c, p') = x"
  then show "((p', cps, n), p, buf) \<in> measure (\<lambda>(p, _). length p)"
    using u8_next_shorter [of p] by (cases p) (auto, metis snd_conv)
qed simp

fun order_sink :: "u32 list \<Rightarrow> nat \<Rightarrow> u8 \<Rightarrow> u32 list" where
  "order_sink cps 0 cci = cps"
| "order_sink cps (Suc j) cci =
     (let ccp = ccc_of (cps ! j) in
      if ccp = 0 \<or> ccp \<le> cci then cps
      else order_sink (cps[Suc j := cps ! j, j := cps ! Suc j]) j cci)"

definition order_step :: "nat \<Rightarrow> u32 list \<Rightarrow> u32 list" where
  "order_step i cps = (let cci = ccc_of (cps ! i) in if cci = 0 then cps else order_sink cps i cci)"

definition canonical_order :: "u32 list \<Rightarrow> nat \<Rightarrow> u32 list" where
  "canonical_order cps n = fold order_step [1..<n] cps"

record compose_state =
  cs_cps :: "u32 list"
  cs_out :: nat
  cs_starter :: nat
  have_starter :: bool
  last_ccc :: u8

definition compose_step :: "nat \<Rightarrow> compose_state \<Rightarrow> compose_state" where
  "compose_step i st =
     (let c = cs_cps st ! i; cccc = ccc_of c;
          blocked = (have_starter st \<and> last_ccc st \<noteq> 0 \<and> last_ccc st \<ge> cccc \<and> cccc \<noteq> 0);
          composed = (if have_starter st \<and> \<not> blocked then compose1 (cs_cps st ! cs_starter st) c else None)
      in case composed of
           Some d \<Rightarrow> st\<lparr>cs_cps := (cs_cps st)[cs_starter st := d]\<rparr>
         | None \<Rightarrow>
             let st1 = st\<lparr>cs_cps := (cs_cps st)[cs_out st := c], cs_out := cs_out st + 1, last_ccc := cccc\<rparr>
             in if cccc = 0 then st1\<lparr>have_starter := True, cs_starter := cs_out st\<rparr> else st1)"

definition compose_run :: "u32 list \<Rightarrow> nat \<Rightarrow> u32 list \<times> nat" where
  "compose_run cps n =
     (if n = 0 then (cps, 0)
      else let st = fold compose_step [1..<n]
                 \<lparr>cs_cps = cps, cs_out = 1, cs_starter = 0, have_starter = (ccc_of (cps ! 0) = 0), last_ccc = ccc_of (cps ! 0)\<rparr>
           in (cs_cps st, cs_out st))"

definition u8_put :: "u32 \<Rightarrow> nat \<Rightarrow> u8 list" where
  "u8_put c cap =
     (if c < 0x80 then (if cap < 1 then [] else [ucast c])
      else if c < 0x800 then
        (if cap < 2 then [] else [ucast (0xC0 OR drop_bit 6 c), ucast (0x80 OR (c AND 0x3F))])
      else if c < 0x10000 then
        (if cap < 3 then [] else
           [ucast (0xE0 OR drop_bit 12 c), ucast (0x80 OR (drop_bit 6 c AND 0x3F)), ucast (0x80 OR (c AND 0x3F))])
      else
        (if cap < 4 then [] else
           [ucast (0xF0 OR drop_bit 18 c), ucast (0x80 OR (drop_bit 12 c AND 0x3F)),
            ucast (0x80 OR (drop_bit 6 c AND 0x3F)), ucast (0x80 OR (c AND 0x3F))]))"

definition hv_to_nfc :: "cstr \<Rightarrow> u8 list \<Rightarrow> nat \<Rightarrow> u8 list \<times> nat" where
  "hv_to_nfc s dst dstcap =
     (let (buf, n) = norm_loop s ([], 0);
          (buf1, n1) = compose_run (canonical_order buf n) n
      in terminate_buf dstcap (fold (\<lambda>c. puts dstcap (u8_put c 4)) (take n1 buf1) (dst, 0)))"

definition hv_nfc_equal :: "cstr \<Rightarrow> cstr \<Rightarrow> u8 list \<Rightarrow> u8 list \<Rightarrow> bool" where
  "hv_nfc_equal a b na nb =
     (c_string (fst (hv_to_nfc a na HV_MAXCP)) = c_string (fst (hv_to_nfc b nb HV_MAXCP)))"

declare decomp_recursive.simps [simp del] norm_loop.simps [simp del]

end
