(* ===== verification/HvNfc.thy ===== *)
theory HvNfc
  imports HvNorm "HOL-Library.Multiset"
begin

text \<open>
  What the normalization pipeline of \<open>hosted/hostvolume/hv_norm.c\<close> computes: the in-place ordering and composition
  as functions on lists, composition as the inverse of decomposition and ordering, and so normalization as a canonical
  form of names.
\<close>

subsection \<open>Ordering and composition on lists\<close>

text \<open>Inserting a code point into the reversed list of those before it.\<close>

primrec sink :: "u32 \<Rightarrow> u32 list \<Rightarrow> u32 list" where
  "sink c [] = [c]"
| "sink c (p # rp) = (if ccc_of p = 0 \<or> ccc_of p \<le> ccc_of c then c # p # rp else p # sink c rp)"

definition insert_cp :: "u32 \<Rightarrow> u32 list \<Rightarrow> u32 list" where
  "insert_cp c rp = (if ccc_of c = 0 then c # rp else sink c rp)"

definition canon :: "u32 list \<Rightarrow> u32 list" where
  "canon cps = rev (fold insert_cp cps [])"

lemma order_sink_list: "order_sink (rev rp @ c # t) (length rp) (ccc_of c) = rev (sink c rp) @ t"
proof (induction rp arbitrary: t)
  case Nil
  then show ?case by simp
next
  case (Cons p rp)
  then show ?case using Cons [of "p # t"]
    by (simp add: Let_def nth_append list_update_append)
qed

lemma order_step_list: "order_step (length rp) (rev rp @ c # t) = rev (insert_cp c rp) @ t"
  using order_sink_list [of rp c t] by (simp add: order_step_def insert_cp_def Let_def nth_append)

lemma length_insert_cp [simp]: "length (insert_cp c rp) = Suc (length rp)"
proof -
  have "length (sink c rp) = Suc (length rp)" by (induction rp) simp_all
  then show ?thesis by (simp add: insert_cp_def)
qed

lemma upt_Suc_shift: "[a..<a + Suc n] = a # [Suc a..<Suc a + n]"
  by (subst upt_conv_Cons) auto

lemma fold_order_step:
  "fold order_step [length rp..<length rp + length t] (rev rp @ t) = rev (fold insert_cp t rp)"
proof (induction t arbitrary: rp)
  case Nil
  then show ?case by simp
next
  case (Cons c t)
  have "[length rp..<length rp + length (c # t)] = length rp # [length (insert_cp c rp)..<length (insert_cp c rp) + length t]"
    using upt_Suc_shift [of "length rp" "length t"] by simp
  then show ?case using Cons [of "insert_cp c rp"] by (simp only: fold_simps o_apply order_step_list)
qed

lemma canonical_order_canon: "canonical_order cps (length cps) = canon cps"
proof (cases cps)
  case Nil
  then show ?thesis by (simp add: canonical_order_def canon_def)
next
  case (Cons c t)
  then show ?thesis using fold_order_step [of "[c]" t]
    by (simp add: canonical_order_def canon_def insert_cp_def)
qed

text \<open>Composition from a starter on: the marks kept after it and the class of the last of them.\<close>

fun compose_from :: "u32 \<Rightarrow> u32 list \<Rightarrow> u8 \<Rightarrow> u32 list \<Rightarrow> u32 list" where
  "compose_from s us k [] = s # us"
| "compose_from s us k (c # cs) =
     (case (if k \<noteq> 0 \<and> k \<ge> ccc_of c \<and> ccc_of c \<noteq> 0 then None else compose1 s c) of
        Some d \<Rightarrow> compose_from d us k cs
      | None \<Rightarrow> if ccc_of c = 0 then s # us @ compose_from c [] 0 cs
               else compose_from s (us @ [c]) (ccc_of c) cs)"

fun composed :: "u32 list \<Rightarrow> u32 list" where
  "composed [] = []"
| "composed (c # cs) = (if ccc_of c = 0 then compose_from c [] 0 cs else c # composed cs)"

definition at_starter :: "u32 list \<Rightarrow> u32 \<Rightarrow> u32 list \<Rightarrow> u8 \<Rightarrow> nat \<Rightarrow> u32 list \<Rightarrow> compose_state \<Rightarrow> bool" where
  "at_starter pre s us k i rest st \<longleftrightarrow>
     have_starter st \<and> last_ccc st = k \<and> cs_starter st = length pre \<and> cs_out st = length pre + 1 + length us \<and>
     take (cs_out st) (cs_cps st) = pre @ s # us \<and> drop i (cs_cps st) = rest \<and> cs_out st \<le> i"

lemma compose_fold_starter:
  assumes "at_starter pre s us k i rest st"
  defines "st' \<equiv> fold compose_step [i..<i + length rest] st"
  shows "take (cs_out st') (cs_cps st') = pre @ compose_from s us k rest"
  using assms(1) unfolding st'_def
proof (induction rest arbitrary: pre s us k i st)
  case Nil
  then have "take (cs_out st) (cs_cps st) = pre @ s # us" unfolding at_starter_def by blast
  then show ?case by simp
next
  case (Cons c rest)
  let ?cps = "cs_cps st" let ?o = "cs_out st" let ?st = "compose_step i st"
  note at = Cons.prems [unfolded at_starter_def]
  have i: "i < length ?cps" "?cps ! i = c" "drop (Suc i) ?cps = rest"
    using at by (metis drop_eq_Nil linorder_not_le list.distinct(1), metis hd_drop_conv_nth drop_eq_Nil list.distinct(1) list.sel(1) linorder_not_le,
      metis drop_Suc list.sel(3) tl_drop)
  have s: "?cps ! length pre = s"
    using at nth_take [of "length pre" ?o ?cps] by (metis add.assoc less_add_Suc1 nth_append_length plus_1_eq_Suc add.commute)
  have t: "take ?o ?cps = pre @ s # us" "?o < length ?cps" using at i(1) by auto
  then have app: "take (Suc ?o) (?cps[?o := c]) = pre @ s # us @ [c]"
    by (simp only: take_Suc_conv_app_nth length_list_update take_update_cancel order_refl nth_list_update_eq append.assoc append_Cons)
  let ?cmp = "if k \<noteq> 0 \<and> k \<ge> ccc_of c \<and> ccc_of c \<noteq> 0 then None else compose1 s c"
  have fold: "fold compose_step [i..<i + length (c # rest)] st = fold compose_step [Suc i..<Suc i + length rest] ?st"
    using upt_Suc_shift [of i "length rest"] by simp
  have step: "?st = (case ?cmp of
         Some d \<Rightarrow> st\<lparr>cs_cps := ?cps[length pre := d]\<rparr>
       | None \<Rightarrow> let st1 = st\<lparr>cs_cps := ?cps[?o := c], cs_out := ?o + 1, last_ccc := ccc_of c\<rparr>
                in if ccc_of c = 0 then st1\<lparr>have_starter := True, cs_starter := ?o\<rparr> else st1)"
    using at i s by (simp add: compose_step_def Let_def split: option.split)
  show ?case
  proof (cases ?cmp)
    case (Some d)
    have "take ?o (?cps[length pre := d]) = pre @ d # us" by (simp add: take_update_swap t(1))
    then have "at_starter pre d us k (Suc i) rest ?st"
      using at i by (simp add: step Some at_starter_def)
    from Cons.IH [OF this] show ?thesis unfolding fold by (simp only: compose_from.simps Some option.case)
  next
    case None
    note st = step [unfolded None option.case Let_def]
    note cf = compose_from.simps(2) [of s us k c rest, unfolded None option.case]
    show ?thesis
    proof (cases "ccc_of c = 0")
      case True
      have "at_starter (pre @ s # us) c [] 0 (Suc i) rest ?st"
        using at i app True by (simp add: st at_starter_def)
      from Cons.IH [OF this] show ?thesis unfolding fold cf using True by simp
    next
      case False
      have "at_starter pre s (us @ [c]) (ccc_of c) (Suc i) rest ?st"
        using at i app False by (simp add: st at_starter_def)
      from Cons.IH [OF this] show ?thesis unfolding fold cf using False by simp
    qed
  qed
qed

text \<open>Before the first starter nothing composes; the output grows by the marks as they come.\<close>

lemma compose_fold_marks:
  assumes "\<not> have_starter st" "cs_out st = i" "i \<le> length (cs_cps st)" "drop i (cs_cps st) = rest"
  defines "st' \<equiv> fold compose_step [i..<i + length rest] st"
  shows "take (cs_out st') (cs_cps st') = take i (cs_cps st) @ composed rest"
  using assms(1-4) unfolding st'_def
proof (induction rest arbitrary: i st)
  case Nil
  then show ?case by simp
next
  case (Cons c rest)
  let ?cps = "cs_cps st" let ?st = "compose_step i st"
  have i: "i < length ?cps" "?cps ! i = c" "drop (Suc i) ?cps = rest"
    using Cons.prems by (metis drop_eq_Nil linorder_not_le list.distinct(1),
      metis hd_drop_conv_nth drop_eq_Nil list.distinct(1) list.sel(1) linorder_not_le, metis drop_Suc list.sel(3) tl_drop)
  have app: "take (Suc i) ?cps = take i ?cps @ [c]" using i by (simp add: take_Suc_conv_app_nth)
  have same: "?cps[i := c] = ?cps" using i by (metis list_update_id)
  have fold: "fold compose_step [i..<i + length (c # rest)] st = fold compose_step [Suc i..<Suc i + length rest] ?st"
    using upt_Suc_shift [of i "length rest"] by simp
  have step: "?st = (let st1 = st\<lparr>cs_cps := ?cps, cs_out := i + 1, last_ccc := ccc_of c\<rparr>
                in if ccc_of c = 0 then st1\<lparr>have_starter := True, cs_starter := i\<rparr> else st1)"
    using Cons.prems i same by (simp add: compose_step_def Let_def)
  show ?case
  proof (cases "ccc_of c = 0")
    case True
    have "at_starter (take i ?cps) c [] 0 (Suc i) rest ?st"
      using i app True by (simp add: step at_starter_def)
    from compose_fold_starter [OF this] show ?thesis unfolding fold using True by simp
  next
    case False
    have "take (cs_out (fold compose_step [Suc i..<Suc i + length rest] ?st)) (cs_cps (fold compose_step [Suc i..<Suc i + length rest] ?st))
        = take (Suc i) (cs_cps ?st) @ composed rest"
      using Cons.IH [of ?st "Suc i"] Cons.prems i False by (simp add: step)
    then show ?thesis unfolding fold using False app by (simp add: step)
  qed
qed

lemma compose_run_composed:
  assumes "compose_run cps (length cps) = (cps', n')"
  shows "take n' cps' = composed cps"
proof (cases cps)
  case Nil
  then show ?thesis using assms by (simp add: compose_run_def)
next
  case (Cons c cs)
  let ?st = "\<lparr>cs_cps = cps, cs_out = 1, cs_starter = 0, have_starter = (ccc_of (cps ! 0) = 0), last_ccc = ccc_of (cps ! 0)\<rparr>"
  have r: "take n' cps' = take (cs_out (fold compose_step [1..<1 + length cs] ?st)) (cs_cps (fold compose_step [1..<1 + length cs] ?st))"
    using assms Cons by (simp add: compose_run_def Let_def)
  show ?thesis
  proof (cases "ccc_of c = 0")
    case True
    have "at_starter [] c [] 0 1 cs ?st" using True Cons by (simp add: at_starter_def)
    from compose_fold_starter [OF this] show ?thesis unfolding r using True Cons by simp
  next
    case False
    then show ?thesis unfolding r using compose_fold_marks [of ?st 1 cs] Cons by simp
  qed
qed

subsection \<open>Composition undoes nothing but decomposition\<close>

definition decomp :: "u32 \<Rightarrow> u32 list" where
  "decomp c = (case decompose1 c of None \<Rightarrow> [c] | Some (a, b) \<Rightarrow> [a, b])"

definition ordered :: "u32 list \<Rightarrow> bool" where
  "ordered = successively (\<lambda>c d. ccc_of d = 0 \<or> ccc_of c \<le> ccc_of d)"

definition basic :: "u32 list \<Rightarrow> bool" where
  "basic cs \<longleftrightarrow> (\<forall>c\<in>set cs. decompose1 c = None)"

lemma compose1_decompose1: "compose1 a b = Some c \<Longrightarrow> decompose1 c = Some (a, b)"
proof -
  assume "compose1 a b = Some c"
  then obtain row where "find (\<lambda>(cp, a', b'). a' = a \<and> b' = b) dec_tab = Some row" "fst row = c"
    by (auto simp: compose1_def)
  then have "(c, a, b) \<in> set dec_tab" by (auto simp: find_Some_iff) (metis nth_mem)
  moreover have "distinct (map fst dec_tab)" using tables_sorted(2) strict_sorted_iff by blast
  ultimately show ?thesis by (simp add: decompose1_map_of)
qed

lemma compose1_composite: "decompose1 d = Some (s, m) \<Longrightarrow> compose1 d c = None"
  using compose1_decompose1 [of d c] decompose1_parts(1) [of _ d c] by (metis not_None_eq)

lemma decomp_basic: "basic cs \<Longrightarrow> concat (map decomp cs) = cs"
  by (induction cs) (auto simp: basic_def decomp_def)

definition marks :: "u32 list \<Rightarrow> bool" where
  "marks us \<longleftrightarrow> (\<forall>u\<in>set us. ccc_of u \<noteq> 0)"

lemma insert_in_order: "rp = [] \<or> ccc_of c = 0 \<or> ccc_of (hd rp) \<le> ccc_of c \<Longrightarrow> insert_cp c rp = c # rp"
  by (cases rp) (auto simp: insert_cp_def)

lemma ordered_marks: "marks us \<Longrightarrow> ordered us \<longleftrightarrow> sorted (map ccc_of us)"
  by (induction us rule: induct_list012) (auto simp: ordered_def marks_def intro: order_trans)

lemma ordered_starter: "marks us \<Longrightarrow> ccc_of s = 0 \<Longrightarrow> ordered (s # us) \<longleftrightarrow> sorted (map ccc_of us)"
  using ordered_marks [of us] by (cases us) (auto simp: ordered_def)

lemma ordered_append: "ordered (xs @ ys) \<Longrightarrow> ordered xs \<and> ordered ys"
  by (simp add: ordered_def successively_append_iff)

lemma fold_marks:
  assumes "marks vs" "sorted (ccc_of p # map ccc_of vs)"
  shows "fold insert_cp vs (p # rp) = rev vs @ p # rp"
  using assms
proof (induction vs arbitrary: p rp)
  case (Cons v vs)
  then show ?case using insert_in_order [of "p # rp" v] by (simp add: marks_def)
qed simp

lemma fold_segment:
  assumes "ccc_of s = 0" "marks us" "ordered (s # us)"
  shows "fold insert_cp (s # us) rp = rev us @ s # rp"
  using assms fold_marks [of us s rp] by (simp add: ordered_starter insert_cp_def)

lemma sink_past:
  assumes "ccc_of s = 0" "marks us" "sorted (map ccc_of us)" "\<forall>u\<in>set us. ccc_of u < ccc_of m"
  shows "fold insert_cp us (m # s # rp) = m # rev us @ s # rp"
  using assms(2-4)
proof (induction us rule: rev_induct)
  case (snoc u us)
  have "sink u (rev us @ s # rp) = u # rev us @ s # rp"
    using snoc.prems assms(1) by (cases us rule: rev_cases) (auto simp: sorted_append)
  moreover have "fold insert_cp us (m # s # rp) = m # rev us @ s # rp"
    using snoc by (simp add: marks_def sorted_append)
  moreover have "\<not> (ccc_of m = 0 \<or> ccc_of m \<le> ccc_of u)" "ccc_of u \<noteq> 0" using snoc.prems by (auto simp: marks_def)
  ultimately have "insert_cp u (m # rev us @ s # rp) = m # u # rev us @ s # rp" "fold insert_cp us (m # s # rp) = m # rev us @ s # rp"
    by (simp_all add: insert_cp_def)
  then show ?case by simp
qed simp

lemma fold_displaced:
  assumes "ccc_of s = 0" "marks (us @ m # vs)" "ordered (s # us @ m # vs)" "\<forall>u\<in>set us. ccc_of u < ccc_of m"
  shows "fold insert_cp (s # m # us @ vs) rp = rev (us @ m # vs) @ s # rp"
proof -
  have o: "sorted (map ccc_of (us @ m # vs))" using assms ordered_starter by blast
  have "insert_cp m (s # rp) = m # s # rp" using assms(1) by (simp add: insert_in_order)
  moreover have "fold insert_cp us (m # s # rp) = m # rev us @ s # rp"
    using o assms by (intro sink_past) (auto simp: sorted_append marks_def)
  moreover have "fold insert_cp vs (m # rev us @ s # rp) = rev vs @ m # rev us @ s # rp"
    using o assms(2) by (intro fold_marks) (auto simp: sorted_append marks_def)
  ultimately show ?thesis using assms(1) by (simp add: insert_cp_def)
qed

text \<open>From a starter on, decomposing and ordering the composed code points gives back what was composed: first for
  a starter that has composed with a mark, then for one that has not.\<close>

definition D :: "u32 list \<Rightarrow> u32 list" where
  "D cs = concat (map decomp cs)"

lemma D_append [simp]: "D (xs @ ys) = D xs @ D ys" "D (x # xs) = decomp x @ D xs" "D [] = []"
  by (simp_all add: D_def)

lemma D_basic: "basic cs \<Longrightarrow> D cs = cs"
  by (simp add: D_def decomp_basic)

lemma basic_append [simp]: "basic (xs @ ys) \<longleftrightarrow> basic xs \<and> basic ys" "basic (x # xs) \<longleftrightarrow> decompose1 x = None \<and> basic xs" "basic []"
  by (auto simp: basic_def)

lemma marks_append [simp]: "marks (xs @ ys) \<longleftrightarrow> marks xs \<and> marks ys" "marks (x # xs) \<longleftrightarrow> ccc_of x \<noteq> 0 \<and> marks xs" "marks []"
  by (auto simp: marks_def)

lemma compose_from_inverse:
  shows "ccc_of s = 0 \<Longrightarrow> marks us \<Longrightarrow> ordered (s # us @ cs) \<Longrightarrow> basic (s # us @ cs) \<Longrightarrow>
      k = (if us = [] then 0 else ccc_of (last us)) \<Longrightarrow>
      fold insert_cp (D (compose_from s us k cs)) rp = rev (s # us @ cs) @ rp"
    and "decompose1 d = Some (s, m) \<Longrightarrow> marks (us @ m # vs) \<Longrightarrow> ordered (s # us @ m # vs @ cs) \<Longrightarrow>
      basic (us @ vs @ cs) \<Longrightarrow> \<forall>u\<in>set us. ccc_of u < ccc_of m \<Longrightarrow>
      fold insert_cp (D (compose_from d (us @ vs) k cs)) rp = rev (s # us @ m # vs @ cs) @ rp"
proof (induction cs arbitrary: s us k rp d m vs)
  case Nil
  {
    case 1
    then show ?case using fold_segment [of s us rp] by (simp add: D_basic decomp_def)
  next
    case 2
    then show ?case using fold_displaced [of s us m vs rp] decompose1_parts [of d s m] by (simp add: D_basic decomp_def)
  }
next
  case (Cons c cs)
  {
    case 1
    show ?case
    proof (cases "if k \<noteq> 0 \<and> k \<ge> ccc_of c \<and> ccc_of c \<noteq> 0 then None else compose1 s c")
      case (Some d)
      then have d: "decompose1 d = Some (s, c)" and k: "\<not> (k \<noteq> 0 \<and> k \<ge> ccc_of c \<and> ccc_of c \<noteq> 0)"
        by (auto split: if_splits dest: compose1_decompose1)
      have "ccc_of c \<noteq> 0" using decompose1_parts [OF d] by simp
      have "ordered (s # us)" using 1 ordered_append [of "s # us" "c # cs"] by simp
      then have "\<forall>u\<in>set us. ccc_of u < ccc_of c" using 1 k \<open>ccc_of c \<noteq> 0\<close> ordered_starter [of us s]
        by (cases us rule: rev_cases) (auto simp: sorted_append)
      then show ?thesis using Cons(2) [OF d, of us "[]" k rp] 1 \<open>ccc_of c \<noteq> 0\<close> Some by simp
    next
      case None
      note cf = compose_from.simps(2) [of s us k c cs, unfolded None option.case]
      show ?thesis
      proof (cases "ccc_of c = 0")
        case True
        have o: "ordered (s # us)" "ordered (c # cs)" using 1 ordered_append [of "s # us" "c # cs"] by simp_all
        show ?thesis unfolding cf using True o 1 Cons(1) [of c "[]" 0 "rev us @ s # rp"] fold_segment [of s us rp]
          by (simp add: D_basic decomp_def)
      next
        case False
        have pre: "marks (us @ [c])" "ordered (s # (us @ [c]) @ cs)" "basic (s # (us @ [c]) @ cs)"
          using False 1(2-4) by simp_all
        have "fold insert_cp (D (compose_from s (us @ [c]) (ccc_of c) cs)) rp = rev (s # (us @ [c]) @ cs) @ rp"
          by (rule Cons(1) [OF 1(1) pre]) simp
        then show ?thesis unfolding cf using False by (simp only: if_False append_assoc append_Cons append_Nil)
      qed
    qed
  next
    case 2
    note parts = decompose1_parts [OF 2(1)]
    show ?case
    proof (cases "ccc_of c = 0")
      case True
      have o: "ordered (s # us @ m # vs)" "ordered (c # cs)" using 2 ordered_append [of "s # us @ m # vs" "c # cs"] by simp_all
      show ?thesis
        using True o 2 parts compose1_composite [OF 2(1), of c] Cons(1) [of c "[]" 0 "rev (us @ m # vs) @ s # rp"]
          fold_displaced [of s us m vs rp]
        by (simp add: D_basic decomp_def)
    next
      case False
      show ?thesis
      proof -
        have "compose_from d (us @ vs) k (c # cs) = compose_from d (us @ vs @ [c]) (ccc_of c) cs"
          using False compose1_composite [OF 2(1), of c] by simp
        moreover have "marks (us @ m # vs @ [c])" "ordered (s # us @ m # (vs @ [c]) @ cs)" "basic (us @ (vs @ [c]) @ cs)"
          using False 2(2-4) by simp_all
        ultimately show ?thesis using Cons(2) [OF 2(1) _ _ _ 2(5), of "vs @ [c]" "ccc_of c" rp]
          by (simp only: append_assoc append_Cons append_Nil)
      qed
    qed
  }
qed

lemma composed_inverse:
  assumes "ordered xs" "basic xs" "rp = [] \<or> xs = [] \<or> ccc_of (hd xs) = 0 \<or> ccc_of (hd rp) \<le> ccc_of (hd xs)"
  shows "fold insert_cp (D (composed xs)) rp = rev xs @ rp"
  using assms
proof (induction xs arbitrary: rp)
  case Nil
  then show ?case by simp
next
  case (Cons c cs)
  show ?case
  proof (cases "ccc_of c = 0")
    case True
    have "fold insert_cp (D (compose_from c [] 0 cs)) rp = rev (c # [] @ cs) @ rp"
      by (rule compose_from_inverse(1)) (use True Cons.prems in simp_all)
    then show ?thesis using True by simp
  next
    case False
    have "ordered cs" "cs = [] \<or> ccc_of (hd cs) = 0 \<or> ccc_of c \<le> ccc_of (hd cs)"
      using Cons.prems(1) ordered_append [of "[c]" cs] by (cases cs; auto simp: ordered_def)+
    then have "fold insert_cp (D (composed cs)) (c # rp) = rev cs @ c # rp"
      using Cons by simp
    moreover have "insert_cp c rp = c # rp" using False Cons.prems(3) insert_in_order by auto
    ultimately show ?thesis using False Cons.prems(2) by (simp add: decomp_def)
  qed
qed

theorem canon_composed:
  assumes "ordered xs" "basic xs"
  shows "canon (D (composed xs)) = xs"
  using composed_inverse [OF assms, of "[]"] by (simp add: canon_def)

lemma set_insert_cp [simp]: "set (insert_cp c rp) = insert c (set rp)"
proof -
  have "set (sink c rp) = insert c (set rp)" by (induction rp) auto
  then show ?thesis by (simp add: insert_cp_def)
qed

lemma set_canon [simp]: "set (canon cps) = set cps"
proof -
  have "set (fold insert_cp cps rp) = set cps \<union> set rp" for rp by (induction cps arbitrary: rp) auto
  then show ?thesis by (simp add: canon_def)
qed

lemma length_canon [simp]: "length (canon cps) = length cps"
proof -
  have "length (fold insert_cp cps rp) = length cps + length rp" for rp by (induction cps arbitrary: rp) auto
  then show ?thesis by (simp add: canon_def)
qed

lemma ordered_snoc: "ordered (xs @ [c]) \<longleftrightarrow> ordered xs \<and> (xs = [] \<or> ccc_of c = 0 \<or> ccc_of (last xs) \<le> ccc_of c)"
  by (auto simp: ordered_def successively_append_iff)

lemma ordered_sink: "ordered (rev rp) \<Longrightarrow> ccc_of c \<noteq> 0 \<Longrightarrow> ordered (rev (sink c rp))"
proof (induction rp)
  case Nil
  then show ?case by (simp add: ordered_def)
next
  case (Cons p rp)
  show ?case
  proof (cases "ccc_of p = 0 \<or> ccc_of p \<le> ccc_of c")
    case True
    then show ?thesis using Cons.prems ordered_snoc [of "rev (p # rp)" c] by auto
  next
    case False
    have "hd (sink c rp) = c \<or> rp \<noteq> [] \<and> hd (sink c rp) = hd rp" "sink c rp \<noteq> []" by (cases rp; simp)+
    then show ?thesis using Cons False by (auto simp: ordered_snoc last_rev)
  qed
qed

lemma ordered_canon: "ordered (canon cps)"
proof -
  have step: "ordered (rev (insert_cp c rp))" if "ordered (rev rp)" for c rp
    using that ordered_sink [of rp c] by (auto simp: insert_cp_def ordered_snoc)
  have "ordered (rev (fold insert_cp cps rp))" if "ordered (rev rp)" for rp
    using that by (induction cps arbitrary: rp) (auto simp: step)
  then show ?thesis by (simp add: canon_def ordered_def)
qed

lemma basic_decomp: "basic (decomp c)"
  by (cases "decompose1 c") (auto simp: decomp_def dest: decompose1_parts)

lemma basic_D: "basic (D cs)"
  by (induction cs) (auto simp: basic_decomp)

subsection \<open>Canonical ordering is the stable sort of every run of marks\<close>

function reorder :: "u32 list \<Rightarrow> u32 list" where
  "reorder [] = []"
| "reorder (c # cs) =
     (if ccc_of c = 0 then c # reorder cs
      else sort_key ccc_of (c # takeWhile (\<lambda>d. ccc_of d \<noteq> 0) cs) @ reorder (dropWhile (\<lambda>d. ccc_of d \<noteq> 0) cs))"
  by pat_completeness auto
termination
  by (relation "measure length") (simp_all add: le_imp_less_Suc length_dropWhile_le)

lemma sink_sorted:
  assumes "marks (c # ys)" "sorted (map ccc_of ys)" "rp = [] \<or> ccc_of (hd rp) = 0"
  shows "\<exists>zs. sink c (rev ys @ rp) = rev zs @ rp \<and> mset zs = mset (ys @ [c]) \<and> sorted (map ccc_of zs) \<and>
    (\<forall>k. filter (\<lambda>x. ccc_of k = ccc_of x) zs = filter (\<lambda>x. ccc_of k = ccc_of x) (ys @ [c]))"
  using assms
proof (induction ys rule: rev_induct)
  case Nil
  then show ?case by (intro exI [of _ "[c]"]) (cases rp; auto)
next
  case (snoc y ys)
  show ?case
  proof (cases "ccc_of y \<le> ccc_of c")
    case True
    then show ?thesis using snoc.prems
      by (intro exI [of _ "ys @ [y, c]"]) (auto simp: sorted_append)
  next
    case False
    obtain zs where zs: "sink c (rev ys @ rp) = rev zs @ rp" "mset zs = mset (ys @ [c])" "sorted (map ccc_of zs)"
      "\<And>k. filter (\<lambda>x. ccc_of k = ccc_of x) zs = filter (\<lambda>x. ccc_of k = ccc_of x) (ys @ [c])"
      using snoc by (auto simp: sorted_append)
    have "set zs = insert c (set ys)" using zs(2) by (metis list.set(1,2) mset_eq_setD set_append Un_insert_right sup_bot.right_neutral)
    then show ?thesis using snoc.prems zs False
      by (intro exI [of _ "zs @ [y]"]) (auto simp: sorted_append)
  qed
qed

lemma fold_insert_marks:
  assumes "marks ms" "rp = [] \<or> ccc_of (hd rp) = 0"
  shows "fold insert_cp ms rp = rev (sort_key ccc_of ms) @ rp"
proof -
  have "\<exists>zs. fold insert_cp ms rp = rev zs @ rp \<and> mset zs = mset ms \<and> sorted (map ccc_of zs) \<and>
    (\<forall>k. filter (\<lambda>x. ccc_of k = ccc_of x) zs = filter (\<lambda>x. ccc_of k = ccc_of x) ms)"
    using assms(1)
  proof (induction ms rule: rev_induct)
    case (snoc c ms)
    then obtain ys where ys: "fold insert_cp ms rp = rev ys @ rp" "mset ys = mset ms" "sorted (map ccc_of ys)"
      "\<And>k. filter (\<lambda>x. ccc_of k = ccc_of x) ys = filter (\<lambda>x. ccc_of k = ccc_of x) ms" by auto
    have "set ys = set ms" using ys(2) by (metis mset_eq_setD)
    then have "marks (c # ys)" using snoc.prems by (simp add: marks_def)
    from sink_sorted [OF this ys(3) assms(2)]
    have "\<exists>zs. sink c (rev ys @ rp) = rev zs @ rp \<and> mset zs = mset (ms @ [c]) \<and> sorted (map ccc_of zs) \<and>
      (\<forall>k. filter (\<lambda>x. ccc_of k = ccc_of x) zs = filter (\<lambda>x. ccc_of k = ccc_of x) (ms @ [c]))"
      by (simp only: mset_append filter_append ys(2,4))
    moreover have "fold insert_cp (ms @ [c]) rp = sink c (rev ys @ rp)"
      using ys(1) snoc.prems by (simp add: insert_cp_def [of c])
    ultimately show ?case by simp
  qed simp
  then obtain zs where zs: "fold insert_cp ms rp = rev zs @ rp" "mset zs = mset ms" "sorted (map ccc_of zs)"
    "\<And>k. filter (\<lambda>x. ccc_of k = ccc_of x) zs = filter (\<lambda>x. ccc_of k = ccc_of x) ms" by auto
  then have "sort_key ccc_of ms = zs" by (intro properties_for_sort_key) auto
  then show ?thesis using zs(1) by simp
qed

lemma canon_reorder: "canon cps = reorder cps"
proof -
  have "fold insert_cp cps rp = rev (reorder cps) @ rp" if "rp = [] \<or> cps = [] \<or> ccc_of (hd cps) = 0 \<or> ccc_of (hd rp) = 0" for rp
    using that
  proof (induction cps arbitrary: rp rule: reorder.induct)
    case (2 c cs)
    show ?case
    proof (cases "ccc_of c = 0")
      case True
      then show ?thesis using 2(1) [OF True, of "c # rp"] by (simp add: insert_cp_def)
    next
      case False
      let ?m = "\<lambda>d. ccc_of d \<noteq> 0"
      let ?t = "c # takeWhile ?m cs" and ?r = "dropWhile ?m cs"
      have "?r = [] \<or> ccc_of (hd ?r) = 0" using hd_dropWhile [of ?m cs] by auto
      moreover have "fold insert_cp ?t rp = rev (sort_key ccc_of ?t) @ rp"
        using False 2(3) by (intro fold_insert_marks) (auto simp: marks_def dest: set_takeWhileD)
      moreover have "fold insert_cp (c # cs) rp = fold insert_cp ?r (fold insert_cp ?t rp)"
        by (metis append_Cons fold_append o_apply takeWhile_dropWhile_id)
      ultimately show ?thesis using 2(2) [OF False, of "rev (sort_key ccc_of ?t) @ rp"] False by auto
    qed
  qed simp
  then show ?thesis by (simp add: canon_def)
qed

subsection \<open>The pipeline\<close>

text \<open>The code points of a string, and its canonical decomposition: every code point decomposed by the table, and every
  run of marks sorted by class.\<close>

function code_points :: "cstr \<Rightarrow> u32 list" where
  "code_points s = (if byte_at s 0 = 0 then [] else fst (u8_next s) # code_points (snd (u8_next s)))"
  by pat_completeness auto
termination
proof (relation "measure length")
  fix s :: cstr assume "byte_at s 0 \<noteq> 0"
  then show "(snd (u8_next s), s) \<in> measure length" using u8_next_shorter [of s] by (cases s) auto
qed simp

declare code_points.simps [simp del]

definition nfd :: "cstr \<Rightarrow> u32 list" where
  "nfd s = reorder (concat (map (\<lambda>c. case map_of dec_tab c of None \<Rightarrow> [c] | Some (a, b) \<Rightarrow> [a, b]) (code_points s)))"

lemma nfd_canon: "nfd s = canon (D (code_points s))"
proof -
  have "decomp = (\<lambda>c. case map_of dec_tab c of None \<Rightarrow> [c] | Some (a, b) \<Rightarrow> [a, b])"
    by (simp add: fun_eq_iff decomp_def decompose1_map_of)
  then show ?thesis by (simp add: nfd_def canon_reorder D_def)
qed

lemma decomp_recursive_room:
  assumes "n = length cps" "n + length (decomp c) \<le> cap"
  shows "decomp_recursive c (cps, n) cap = (cps @ decomp c, n + length (decomp c))"
proof (cases "decompose1 c")
  case None
  then show ?thesis using assms by (subst decomp_recursive.simps) (simp add: decomp_def)
next
  case (Some ab)
  obtain a b where ab: "ab = (a, b)" by force
  have leaf: "decomp_recursive d (cps, n) cap = (if n < cap then cps @ [d] else cps, n + 1)" if "decompose1 d = None" for d cps n
    using that by (subst decomp_recursive.simps) simp
  show ?thesis using assms Some ab decompose1_parts [of c a b]
    by (subst decomp_recursive.simps) (simp add: leaf decomp_def)
qed

lemma norm_loop_room:
  "n = length cps \<Longrightarrow> n + length (D (code_points s)) < HV_MAXCP \<Longrightarrow>
    norm_loop s (cps, n) = (cps @ D (code_points s), n + length (D (code_points s)))"
proof (induction "length s" arbitrary: s cps n rule: less_induct)
  case less
  show ?case
  proof (cases "byte_at s 0 = 0")
    case True
    then show ?thesis by (subst norm_loop.simps, subst code_points.simps) (simp add: code_points.simps [of s])
  next
    case False
    let ?c = "fst (u8_next s)" and ?s = "snd (u8_next s)"
    have cp: "code_points s = ?c # code_points ?s" using False by (subst code_points.simps) simp
    have short: "length ?s < length s" using False u8_next_shorter [of s] by (cases s) auto
    have room: "n + length (decomp ?c) + length (D (code_points ?s)) < HV_MAXCP" using less.prems by (simp add: cp)
    have "norm_loop s (cps, n) = norm_loop ?s (cps @ decomp ?c, n + length (decomp ?c))"
      using False room decomp_recursive_room [of n cps ?c HV_MAXCP] less.prems(1)
      by (subst norm_loop.simps) (simp add: case_prod_beta Let_def)
    also have "\<dots> = (cps @ decomp ?c @ D (code_points ?s), n + length (decomp ?c) + length (D (code_points ?s)))"
      using less.hyps [OF short, of "n + length (decomp ?c)" "cps @ decomp ?c"] room less.prems(1) by simp
    finally show ?thesis by (simp add: cp)
  qed
qed

lemma u8_put_utf8: "u8_put c 4 = utf8 c"
  by (simp add: u8_put_def utf8_def)

lemma fold_puts_utf8: "fold (\<lambda>c. puts cap (u8_put c 4)) cs out = puts cap (utf8_string cs) out"
  by (induction cs arbitrary: out) (simp_all add: utf8_string_def u8_put_utf8)

lemma hv_to_nfc_composed:
  assumes "length (nfd s) < HV_MAXCP" "length dst = cap"
  shows "hv_to_nfc s dst cap = fitted cap (utf8_string (composed (nfd s))) dst"
proof -
  let ?d = "D (code_points s)"
  have len: "length ?d < HV_MAXCP" using assms(1) by (simp add: nfd_canon)
  have loop: "norm_loop s ([], 0) = (?d, length ?d)" using norm_loop_room [of 0 "[]" s] len by simp
  obtain cps n where run: "compose_run (nfd s) (length (nfd s)) = (cps, n)" by force
  have ord: "canonical_order ?d (length ?d) = nfd s" "length ?d = length (nfd s)"
    by (simp_all add: canonical_order_canon nfd_canon)
  show ?thesis
    using compose_run_composed [OF run] run ord terminate_puts [OF assms(2)]
    by (simp add: hv_to_nfc_def loop fold_puts_utf8)
qed

definition plain :: "u32 list \<Rightarrow> bool" where
  "plain cs \<longleftrightarrow> (\<forall>c\<in>set cs. scalar c \<and> c \<noteq> 0)"

lemma plain_simps [simp]: "plain []" "plain (c # cs) \<longleftrightarrow> scalar c \<and> c \<noteq> 0 \<and> plain cs" "plain (cs @ ds) \<longleftrightarrow> plain cs \<and> plain ds"
  by (auto simp: plain_def)

lemma code_points_string:
  "plain cs \<Longrightarrow> byte_at t 0 = 0 \<Longrightarrow> code_points (utf8_string cs @ t) = cs"
proof (induction cs)
  case Nil
  then show ?case by (subst code_points.simps) (simp add: utf8_string_def)
next
  case (Cons c cs)
  then show ?case by (subst code_points.simps) (simp add: utf8_string_def utf8_first u8_next_utf8)
qed

lemma plain_code_points: "plain (code_points s)"
proof (induction s rule: code_points.induct)
  case (1 s)
  then show ?case using u8_next_scalar [of s] by (subst code_points.simps) simp
qed

lemma plain_rows:
  assumes "decompose1 c = Some (a, b)"
  shows "scalar c \<and> c \<noteq> 0" "scalar a \<and> a \<noteq> 0" "scalar b \<and> b \<noteq> 0"
  using decompose1_row [OF assms] by (auto simp: row_ok_def scalar_def word_le_nat_alt word_less_nat_alt)

lemma plain_D: "plain cs \<Longrightarrow> plain (D cs)"
  by (induction cs) (auto simp: decomp_def plain_rows split: option.split)

lemma compose1_plain: "compose1 s c = Some d \<Longrightarrow> scalar d \<and> d \<noteq> 0"
  using compose1_decompose1 plain_rows(1) by blast

lemma plain_compose_from: "scalar s \<Longrightarrow> s \<noteq> 0 \<Longrightarrow> plain us \<Longrightarrow> plain cs \<Longrightarrow> plain (compose_from s us k cs)"
proof (induction s us k cs rule: compose_from.induct)
  case (2 s us k c cs)
  then show ?case using compose1_plain [of s c] by (auto split: option.split)
qed simp

lemma plain_composed: "plain cs \<Longrightarrow> plain (composed cs)"
  by (induction cs) (auto simp: plain_compose_from)

lemma plain_nfd: "plain (nfd s)"
  using plain_D [OF plain_code_points [of s]] by (simp add: nfd_canon plain_def)

lemma nfd_ordered_basic: "ordered (nfd s)" "basic (nfd s)"
proof -
  have "set (nfd s) = set (D (code_points s))" by (simp add: nfd_canon)
  then show "basic (nfd s)" using basic_D [of "code_points s"] by (simp add: basic_def)
qed (simp add: nfd_canon ordered_canon)

lemma nfd_of_composed: "byte_at t 0 = 0 \<Longrightarrow> nfd (utf8_string (composed (nfd s)) @ t) = nfd s"
  using code_points_string [OF plain_composed [OF plain_nfd [of s]]] canon_composed [OF nfd_ordered_basic [of s]]
  by (simp add: nfd_canon)

lemma nfc_c_string:
  assumes "length (nfd s) < HV_MAXCP" "length dst = cap" "snd (hv_to_nfc s dst cap) < cap"
  shows "c_string (fst (hv_to_nfc s dst cap)) = utf8_string (composed (nfd s))"
proof -
  have "0 \<notin> set (utf8_string (composed (nfd s)))"
    using plain_composed [OF plain_nfd] by (intro utf8_string_no_nul) (simp add: plain_def)
  then show ?thesis using assms c_string_fitted hv_to_nfc_composed [OF assms(1,2)] by (simp add: fitted_def)
qed

text \<open>C23. Normalizing a name twice is normalizing it once: for every name of fewer than 1024 decomposed code points,
  malformed UTF-8 included, the normal form, when it fits its buffer, is its own normal form.\<close>

theorem nfc_idempotent:
  assumes "length (nfd s) < HV_MAXCP" and "length d1 = cap1" and "length d2 = cap2"
    and "hv_to_nfc s d1 cap1 = (t, n1)" and "n1 < cap1"
    and "hv_to_nfc t d2 cap2 = (u, n2)" and "n2 < cap2"
  shows "c_string u = c_string t \<and> n2 = n1"
proof -
  let ?x = "utf8_string (composed (nfd s))"
  have t: "(t, n1) = fitted cap1 ?x d1" using hv_to_nfc_composed [OF assms(1,2)] assms(4) by simp
  then obtain r where r: "byte_at r 0 = 0" "t = ?x @ r"
    using fitted_array [of ?x cap1 d1] assms(5) by (metis fitted_def fst_conv snd_conv)
  then have same: "nfd t = nfd s" using nfd_of_composed by blast
  then have u: "(u, n2) = fitted cap2 ?x d2" using hv_to_nfc_composed [of t d2 cap2] assms by simp
  show ?thesis
    using nfc_c_string [of s d1 cap1] nfc_c_string [of t d2 cap2] assms t u same by (simp add: fitted_def)
qed

lemma utf8_string_inject:
  assumes "plain cs" "plain ds" "utf8_string cs = utf8_string ds"
  shows "cs = ds"
  using code_points_string [OF assms(1), of "[]"] code_points_string [OF assms(2), of "[]"] assms(3) by simp

text \<open>C24. The comparison of names is canonical equivalence: two names whose decompositions and normal forms fit the
  program's buffers compare equal exactly when their canonical decompositions are the same code points, each code point
  decomposed by the table and each run of combining marks sorted by its combining class.\<close>

theorem nfc_equal_canonical:
  assumes "length (nfd a) < HV_MAXCP" and "length (nfd b) < HV_MAXCP"
    and "length na = HV_MAXCP" and "length nb = HV_MAXCP"
    and "snd (hv_to_nfc a na HV_MAXCP) < HV_MAXCP" and "snd (hv_to_nfc b nb HV_MAXCP) < HV_MAXCP"
  shows "hv_nfc_equal a b na nb \<longleftrightarrow> nfd a = nfd b"
proof -
  have "hv_nfc_equal a b na nb \<longleftrightarrow> utf8_string (composed (nfd a)) = utf8_string (composed (nfd b))"
    using assms by (simp add: hv_nfc_equal_def nfc_c_string)
  also have "\<dots> \<longleftrightarrow> composed (nfd a) = composed (nfd b)"
    by (rule iffI, erule utf8_string_inject [OF plain_composed [OF plain_nfd] plain_composed [OF plain_nfd]], simp only:)
  also have "\<dots> \<longleftrightarrow> nfd a = nfd b"
    using canon_composed [OF nfd_ordered_basic, of a] canon_composed [OF nfd_ordered_basic, of b] by (intro iffI) (metis, simp only:)
  finally show ?thesis .
qed

text \<open>The precomposed and the decomposed spelling of the same name, and the witness of its normalization.\<close>

lemma table_entries: "map_of dec_tab 0xE9 = Some (0x65, 0x301)" "map_of dec_tab 0x65 = None" "map_of dec_tab 0x301 = None"
    "map_of ccc_tab 0x301 = Some 230" "map_of ccc_tab 0x65 = None" "map_of ccc_tab 0xE9 = None"
  by (simp_all add: dec_tab_def ccc_tab_def)

lemma nfd_examples:
  "nfd (utf8_string [0xE9]) = [0x65, 0x301]" "nfd (utf8_string [0x65, 0x301]) = [0x65, 0x301]"
proof -
  have cp: "code_points (utf8_string cs) = cs" if "plain cs" for cs
    using code_points_string [OF that, of "[]"] by simp
  have "code_points (utf8_string [0xE9]) = [0xE9]" "code_points (utf8_string [0x65, 0x301]) = [0x65, 0x301]"
    by (rule cp, simp add: scalar_def)+
  moreover have "ccc_of 0x301 = 230" "ccc_of 0x65 = 0" by (simp_all add: ccc_of_map_of table_entries)
  ultimately show "nfd (utf8_string [0xE9]) = [0x65, 0x301]" "nfd (utf8_string [0x65, 0x301]) = [0x65, 0x301]"
    by (simp_all add: nfd_def table_entries)
qed

lemma nfc_example:
  "nfd s = [0x65, 0x301] \<Longrightarrow> length dst = cap \<Longrightarrow> hv_to_nfc s dst cap = fitted cap [0xC3, 0xA9] dst"
proof -
  assume nfd: "nfd s = [0x65, 0x301]" and "length dst = cap"
  have "compose1 0x65 0x301 = Some 0xE9" by (simp add: compose1_def dec_tab_def)
  moreover have "ccc_of 0x301 = 230" "ccc_of 0x65 = 0" by (simp_all add: ccc_of_map_of table_entries)
  ultimately have "composed (nfd s) = [0xE9]" by (simp add: nfd)
  then show ?thesis
    using hv_to_nfc_composed [of s dst cap] nfd \<open>length dst = cap\<close> by (simp add: HV_MAXCP_def utf8_string_def utf8_def)
qed

theorem nfc_idempotent_witness:
  "c_string (fst (hv_to_nfc (fst (hv_to_nfc (utf8_string [0x65, 0x301]) (replicate 8 0xAA) 8)) (replicate 4 0xBB) 4))
    = [0xC3, 0xA9]"
proof -
  let ?s = "utf8_string [0x65, 0x301]"
  let ?x = "hv_to_nfc ?s (replicate 8 0xAA) 8"
  let ?y = "hv_to_nfc (fst ?x) (replicate 4 0xBB) 4"
  have x: "?x = ([0xC3, 0xA9, 0, 0xAA, 0xAA, 0xAA, 0xAA, 0xAA], 2)"
    using nfc_example [OF nfd_examples(2), of "replicate 8 0xAA" 8] by (simp add: fitted_def eval_nat_numeral)
  have "nfd (fst ?x) = nfd ?s"
    using nfd_of_composed [of "[0, 0xAA, 0xAA, 0xAA, 0xAA, 0xAA]" ?s] nfc_example [OF nfd_examples(2), of "replicate 8 0xAA" 8]
      hv_to_nfc_composed [of ?s "replicate 8 0xAA" 8] x nfd_examples(2)
    by (simp add: HV_MAXCP_def fitted_def)
  then have y: "snd ?y = 2"
    using nfc_example [of "fst ?x" "replicate 4 0xBB" 4] nfd_examples(2) by (simp add: fitted_def)
  have "length (nfd ?s) < HV_MAXCP" by (simp add: nfd_examples HV_MAXCP_def)
  from nfc_idempotent [OF this, of "replicate 8 0xAA" 8 "replicate 4 0xBB" 4 "fst ?x" "snd ?x" "fst ?y" "snd ?y"]
  show ?thesis using x y by (simp add: c_string_def)
qed

theorem nfc_equal_canonical_witness:
  "hv_nfc_equal (utf8_string [0xE9]) (utf8_string [0x65, 0x301]) (replicate 1024 0) (replicate 1024 0)"
proof -
  have "snd (hv_to_nfc (utf8_string [0xE9]) (replicate 1024 0) HV_MAXCP) = 2"
    "snd (hv_to_nfc (utf8_string [0x65, 0x301]) (replicate 1024 0) HV_MAXCP) = 2"
    by (simp_all add: nfc_example nfd_examples HV_MAXCP_def fitted_def)
  then show ?thesis
    using nfc_equal_canonical [of "utf8_string [0xE9]" "utf8_string [0x65, 0x301]" "replicate 1024 0" "replicate 1024 0"]
    by (simp add: nfd_examples HV_MAXCP_def)
qed

end
