(* ===== verification/HvCharset.thy ===== *)
theory HvCharset
  imports HvText
begin

text \<open>
  File names at the host-volume bridge (\<open>hosted/hostvolume/hv_charset.c\<close>): AROS Latin-1 names and host UTF-8
  names, with the fixed-width escapes that carry the code points Latin-1 does not have.
\<close>

subsection \<open>The code\<close>

definition HV_MARK :: u8 where "HV_MARK = 0x25"

definition put_cp_utf8 :: "nat \<Rightarrow> u32 \<Rightarrow> buf \<Rightarrow> buf" where
  "put_cp_utf8 cap c out =
     (if c < 0x80 then put1 cap (ucast c) out
      else if c < 0x800 then
        put1 cap (ucast (0x80 OR (c AND 0x3F)))
          (put1 cap (ucast (0xC0 OR drop_bit 6 c)) out)
      else if c < 0x10000 then
        put1 cap (ucast (0x80 OR (c AND 0x3F)))
          (put1 cap (ucast (0x80 OR (drop_bit 6 c AND 0x3F)))
            (put1 cap (ucast (0xE0 OR drop_bit 12 c)) out))
      else
        put1 cap (ucast (0x80 OR (c AND 0x3F)))
          (put1 cap (ucast (0x80 OR (drop_bit 6 c AND 0x3F)))
            (put1 cap (ucast (0x80 OR (drop_bit 12 c AND 0x3F)))
              (put1 cap (ucast (0xF0 OR drop_bit 18 c)) out))))"

definition hexval :: "u8 \<Rightarrow> u32 option" where
  "hexval ch =
     (if ch \<ge> 0x30 \<and> ch \<le> 0x39 then Some (ucast ch - 0x30)
      else if ch \<ge> 0x41 \<and> ch \<le> 0x46 then Some (ucast ch - 0x41 + 10)
      else if ch \<ge> 0x61 \<and> ch \<le> 0x66 then Some (ucast ch - 0x61 + 10)
      else None)"

fun read_fixed_hex :: "cstr \<Rightarrow> nat \<Rightarrow> u32 \<Rightarrow> u32 option" where
  "read_fixed_hex s 0 acc = Some acc"
| "read_fixed_hex s (Suc k) acc =
     (case hexval (byte_at s 0) of None \<Rightarrow> None
      | Some h \<Rightarrow> read_fixed_hex (drop 1 s) k (push_bit 4 acc OR h))"

definition decode_escape :: "cstr \<Rightarrow> (u32 \<times> nat) option" where
  "decode_escape s =
     (if byte_at s 0 \<noteq> HV_MARK then None
      else if byte_at s 1 = 0x75 then
        (case read_fixed_hex (drop 2 s) 4 0 of None \<Rightarrow> None | Some v \<Rightarrow> Some (v, 6))
      else if byte_at s 1 = 0x55 then
        (case read_fixed_hex (drop 2 s) 6 0 of None \<Rightarrow> None
         | Some v \<Rightarrow> if v > 0x10FFFF then None else Some (v, 8))
      else None)"

lemma decode_escape_consumes: "decode_escape s = Some (v, n) \<Longrightarrow> 0 < n"
  by (auto simp: decode_escape_def split: if_splits option.splits)

function latin1_loop :: "nat \<Rightarrow> cstr \<Rightarrow> buf \<Rightarrow> buf" where
  "latin1_loop cap s out =
     (if byte_at s 0 = 0 then out
      else case decode_escape s of
        Some (cp, consumed) \<Rightarrow> latin1_loop cap (drop consumed s) (put_cp_utf8 cap cp out)
      | None \<Rightarrow> latin1_loop cap (drop 1 s) (put_cp_utf8 cap (ucast (byte_at s 0)) out))"
  by pat_completeness auto
termination
  by (relation "measure (\<lambda>(_, s, _). length s)")
    (auto simp: byte_at_def split: if_splits dest!: decode_escape_consumes)

definition hv_latin1_to_utf8 :: "cstr \<Rightarrow> u8 list \<Rightarrow> nat \<Rightarrow> u8 list \<times> nat" where
  "hv_latin1_to_utf8 latin1 dst dstcap = terminate_buf dstcap (latin1_loop dstcap latin1 (dst, 0))"

definition hexd :: "u32 \<Rightarrow> u8" where
  "hexd d = byte_at [0x30,0x31,0x32,0x33,0x34,0x35,0x36,0x37,0x38,0x39,0x41,0x42,0x43,0x44,0x45,0x46] (unat d)"

fun put_hex :: "nat \<Rightarrow> nat \<Rightarrow> u32 \<Rightarrow> buf \<Rightarrow> buf" where
  "put_hex cap 0 c out = out"
| "put_hex cap (Suc k) c out = put_hex cap k c (put1 cap (hexd (drop_bit (4 * k) c AND 0xF)) out)"

definition put_escape :: "nat \<Rightarrow> u32 \<Rightarrow> buf \<Rightarrow> buf" where
  "put_escape cap c out =
     (let nd = (if c \<le> 0xFFFF then 4 else 6)
      in put_hex cap nd c (put1 cap (if nd = 4 then 0x75 else 0x55) (put1 cap HV_MARK out)))"

function utf8_loop :: "nat \<Rightarrow> cstr \<Rightarrow> buf \<Rightarrow> buf" where
  "utf8_loop cap p out =
     (if byte_at p 0 = 0 then out
      else let (c, p') = u8_next p in
        utf8_loop cap p'
          (if c = ucast HV_MARK then put_escape cap c out
           else if c \<le> 0xFF then put1 cap (ucast c) out
           else put_escape cap c out))"
  by pat_completeness auto
termination
proof (relation "measure (\<lambda>(_, p, _). length p)")
  fix cap p out x c p'
  assume "byte_at p 0 \<noteq> 0" "x = u8_next p" "(c, p') = x"
  then show "((cap, p', if c = ucast HV_MARK then put_escape cap c out
      else if c \<le> 0xFF then put1 cap (ucast c) out else put_escape cap c out), cap, p, out)
      \<in> measure (\<lambda>(_, p, _). length p)"
    using u8_next_shorter [of p] by (cases p) (auto, metis snd_conv)
qed simp

definition hv_utf8_to_latin1 :: "cstr \<Rightarrow> u8 list \<Rightarrow> nat \<Rightarrow> u8 list \<times> nat" where
  "hv_utf8_to_latin1 name dst dstcap = terminate_buf dstcap (utf8_loop dstcap name (dst, 0))"

declare latin1_loop.simps [simp del] utf8_loop.simps [simp del]

subsection \<open>What the two loops write\<close>

text \<open>The AROS spelling of a code point: its Latin-1 byte, or the fixed-width escape.\<close>

definition hex_digits :: "nat \<Rightarrow> u32 \<Rightarrow> cstr" where
  "hex_digits k c = map (\<lambda>i. hexd (drop_bit (4 * i) c AND 0xF)) (rev [0..<k])"

definition aros_char :: "u32 \<Rightarrow> cstr" where
  "aros_char c =
     (if c = 0x25 \<or> c > 0xFF
      then HV_MARK # (if c \<le> 0xFFFF then 0x75 # hex_digits 4 c else 0x55 # hex_digits 6 c)
      else [ucast c])"

definition aros_name :: "u32 list \<Rightarrow> cstr" where
  "aros_name cs = concat (map aros_char cs)"

lemma put_cp_utf8_puts: "put_cp_utf8 cap c out = puts cap (utf8 c) out"
  by (simp add: put_cp_utf8_def utf8_def put1_puts)

lemma hex_digits_simps [simp]:
  "hex_digits 0 c = []" "hex_digits (Suc k) c = hexd (drop_bit (4 * k) c AND 0xF) # hex_digits k c"
  by (simp_all add: hex_digits_def)

lemma length_hex_digits [simp]: "length (hex_digits k c) = k"
  by (simp add: hex_digits_def)

lemma put_hex_puts: "put_hex cap k c out = puts cap (hex_digits k c) out"
  by (induction k arbitrary: out) (simp_all add: put1_puts)

lemma put_escape_puts: "c = 0x25 \<or> c > 0xFF \<Longrightarrow> put_escape cap c out = puts cap (aros_char c) out"
  by (auto simp: put_escape_def aros_char_def put_hex_puts put1_puts)

lemma nibble_cases: "(d :: u32) < 16 \<Longrightarrow> P 0 \<and> P 1 \<and> P 2 \<and> P 3 \<and> P 4 \<and> P 5 \<and> P 6 \<and> P 7 \<and> P 8 \<and> P 9 \<and> P 10
    \<and> P 11 \<and> P 12 \<and> P 13 \<and> P 14 \<and> P 15 \<Longrightarrow> P d"
proof -
  assume d: "d < 16" and P: "P 0 \<and> P 1 \<and> P 2 \<and> P 3 \<and> P 4 \<and> P 5 \<and> P 6 \<and> P 7 \<and> P 8 \<and> P 9 \<and> P 10
    \<and> P 11 \<and> P 12 \<and> P 13 \<and> P 14 \<and> P 15"
  define n where "n = unat d"
  then have n: "d = word_of_nat n" "n < 16"
    using d by (simp_all add: word_less_nat_alt)
  from n(2) have "n \<in> {0,1,2,3,4,5,6,7,8,9,10,11,12,13,14,15}" by (simp only: insert_iff empty_iff) presburger
  then show "P d" using P n(1) by auto
qed

lemma hexval_hexd [simp]: "d < 16 \<Longrightarrow> hexval (hexd d) = Some d"
  by (rule nibble_cases [of d]) (simp_all add: hexval_def hexd_def byte_at_def)

lemma hexd_nonzero [simp]: "d < 16 \<Longrightarrow> hexd d \<noteq> 0"
  by (rule nibble_cases [of d]) (simp_all add: hexval_def hexd_def byte_at_def)

lemma nibble_small [simp]: "(c :: u32) AND 0xF < 16"
  using and_mask_less_size [of 4 c] by (simp add: mask_eq_exp_minus_1 word_size)

lemma add_nibble:
  "push_bit j (push_bit 4 acc OR (drop_bit j c AND 0xF)) OR (c AND mask j) = push_bit (j + 4) acc OR ((c :: u32) AND mask (j + 4))"
proof -
  have "(0xF :: u32) = mask 4" by (simp add: mask_eq_exp_minus_1)
  then show ?thesis by (auto simp: bit_eq_iff bit_simps add.commute diff_diff_left)
qed

lemma read_hex_digits:
  "read_fixed_hex (hex_digits k c @ s) k acc = Some (push_bit (4 * k) acc OR (c AND mask (4 * k)))"
proof (induction k arbitrary: acc)
  case 0
  then show ?case by simp
next
  case (Suc k)
  then show ?case using add_nibble [of "4 * k" acc c] by (simp add: add.commute)
qed

text \<open>Every name a writer produces depends on the buffer size only through what fits.\<close>

lemma latin1_loop_puts: "\<exists>bs. \<forall>cap. latin1_loop cap s = puts cap bs"
proof (induction "length s" arbitrary: s rule: less_induct)
  case less
  show ?case
  proof (cases "byte_at s 0 = 0")
    case True
    then show ?thesis by (intro exI [of _ "[]"] allI ext) (subst latin1_loop.simps, simp)
  next
    case False
    then have ne: "s \<noteq> []" by auto
    show ?thesis
    proof (cases "decode_escape s")
      case None
      obtain bs where "\<forall>cap. latin1_loop cap (drop 1 s) = puts cap bs"
        using less [of "drop 1 s"] ne by auto
      then show ?thesis using False None
        by (intro exI [of _ "utf8 (ucast (byte_at s 0)) @ bs"] allI ext) (subst latin1_loop.simps, simp add: put_cp_utf8_puts)
    next
      case (Some e)
      obtain cp k where e: "e = (cp, k)" by force
      obtain bs where "\<forall>cap. latin1_loop cap (drop k s) = puts cap bs"
        using less [of "drop k s"] ne decode_escape_consumes [of s cp k] Some e by auto
      then show ?thesis using False Some e
        by (intro exI [of _ "utf8 cp @ bs"] allI ext) (subst latin1_loop.simps, simp add: put_cp_utf8_puts)
    qed
  qed
qed

lemma aros_step_puts:
  "(if c = ucast HV_MARK then put_escape cap c out else if c \<le> 0xFF then put1 cap (ucast c) out else put_escape cap c out)
    = puts cap (aros_char c) out"
  by (auto simp: put_escape_puts HV_MARK_def aros_char_def put1_puts not_le)

lemma utf8_loop_unfold:
  "utf8_loop cap p out =
     (if byte_at p 0 = 0 then out else utf8_loop cap (snd (u8_next p)) (puts cap (aros_char (fst (u8_next p))) out))"
  by (subst utf8_loop.simps) (simp add: aros_step_puts case_prod_beta)

lemma utf8_loop_puts: "\<exists>bs. \<forall>cap. utf8_loop cap p = puts cap bs"
proof (induction "length p" arbitrary: p rule: less_induct)
  case less
  show ?case
  proof (cases "byte_at p 0 = 0")
    case True
    then show ?thesis by (intro exI [of _ "[]"] allI ext) (subst utf8_loop_unfold, simp)
  next
    case False
    then obtain bs where "\<forall>cap. utf8_loop cap (snd (u8_next p)) = puts cap bs"
      using less [of "snd (u8_next p)"] u8_next_shorter [of p] by (cases p) auto
    then show ?thesis using False
      by (intro exI [of _ "aros_char (fst (u8_next p)) @ bs"] allI ext) (subst utf8_loop_unfold, simp)
  qed
qed

subsection \<open>Round trips\<close>

lemma utf8_loop_string:
  assumes "\<forall>c\<in>set cs. scalar c \<and> c \<noteq> 0" "byte_at s 0 = 0"
  shows "utf8_loop cap (utf8_string cs @ s) out = puts cap (aros_name cs) out"
  using assms
proof (induction cs arbitrary: out)
  case Nil
  then show ?case by (subst utf8_loop_unfold) (simp add: utf8_string_def aros_name_def)
next
  case (Cons c cs)
  then show ?case
    by (subst utf8_loop_unfold) (auto simp: utf8_string_def aros_name_def u8_next_utf8 utf8_first)
qed

lemma decode_aros_escape:
  assumes "scalar c" "c = 0x25 \<or> c > 0xFF"
  shows "decode_escape (aros_char c @ s) = Some (c, length (aros_char c))"
proof (cases "c \<le> 0xFFFF")
  case True
  then have "c AND mask 16 = c" by (intro less_mask_eq) (simp add: word_le_nat_alt word_less_nat_alt)
  with True show ?thesis using assms read_hex_digits [of 4 c s 0]
    by (simp add: aros_char_def decode_escape_def HV_MARK_def)
next
  case False
  have "c AND mask 24 = c" using assms(1) by (intro less_mask_eq) (simp add: scalar_def word_le_nat_alt word_less_nat_alt)
  with False show ?thesis using assms read_hex_digits [of 6 c s 0]
    by (simp add: aros_char_def decode_escape_def HV_MARK_def scalar_def not_less)
qed

lemma latin1_loop_char:
  assumes "scalar c" "c \<noteq> 0"
  shows "latin1_loop cap (aros_char c @ s) out = latin1_loop cap s (puts cap (utf8 c) out)"
proof (cases "c = 0x25 \<or> c > 0xFF")
  case True
  then show ?thesis using decode_aros_escape [OF assms(1), of s]
    by (subst latin1_loop.simps) (auto simp: put_cp_utf8_puts aros_char_def HV_MARK_def)
next
  case False
  have small: "ucast (ucast c :: u8) = c" "(ucast c :: u8) \<noteq> 0" "(ucast c :: u8) \<noteq> 0x25"
    using ucast_small [of c] False assms(2) by (auto simp: not_less)
  with False show ?thesis
    by (subst latin1_loop.simps) (simp add: aros_char_def decode_escape_def HV_MARK_def put_cp_utf8_puts)
qed

lemma latin1_loop_name:
  assumes "\<forall>c\<in>set cs. scalar c \<and> c \<noteq> 0" "byte_at s 0 = 0"
  shows "latin1_loop cap (aros_name cs @ s) out = puts cap (utf8_string cs) out"
  using assms
proof (induction cs arbitrary: out)
  case Nil
  then show ?case by (subst latin1_loop.simps) (simp add: utf8_string_def aros_name_def)
next
  case (Cons c cs)
  then show ?case by (simp add: utf8_string_def aros_name_def latin1_loop_char)
qed

lemma hex_digits_no_nul: "0 \<notin> set (hex_digits k c)"
  by (induction k) (auto simp: eq_commute [of 0])

lemma aros_name_no_nul: "\<forall>c\<in>set cs. c \<noteq> 0 \<Longrightarrow> 0 \<notin> set (aros_name cs)"
  using ucast_small by (auto simp: aros_name_def aros_char_def HV_MARK_def hex_digits_no_nul not_less) (metis unsigned_0)

lemma utf8_to_latin1_string:
  assumes "\<forall>c\<in>set cs. scalar c \<and> c \<noteq> 0" "byte_at s 0 = 0" "length dst = cap"
  shows "hv_utf8_to_latin1 (utf8_string cs @ s) dst cap = fitted cap (aros_name cs) dst"
  by (simp add: hv_utf8_to_latin1_def utf8_loop_string [OF assms(1,2)] terminate_puts [OF assms(3)])

lemma latin1_to_utf8_name:
  assumes "\<forall>c\<in>set cs. scalar c \<and> c \<noteq> 0" "byte_at s 0 = 0" "length dst = cap"
  shows "hv_latin1_to_utf8 (aros_name cs @ s) dst cap = fitted cap (utf8_string cs) dst"
  by (simp add: hv_latin1_to_utf8_def latin1_loop_name [OF assms(1,2)] terminate_puts [OF assms(3)])

text \<open>C22. A host file name survives the trip through AROS: for every name of Unicode code points other than NUL in
  UTF-8, converting it to an AROS Latin-1 name and that name back, in buffers that hold the results, gives the same
  bytes, whatever characters it has (percent signs and characters outside Latin-1 included).\<close>

theorem host_name_round_trip:
  assumes "\<forall>c\<in>set cs. scalar c \<and> c \<noteq> 0" and "length d1 = cap1" and "length d2 = cap2"
    and "hv_utf8_to_latin1 (utf8_string cs) d1 cap1 = (aros, n1)" and "n1 < cap1"
    and "hv_latin1_to_utf8 aros d2 cap2 = (host, n2)" and "n2 < cap2"
  shows "c_string host = utf8_string cs \<and> n2 = length (utf8_string cs)"
proof -
  have a: "(aros, n1) = fitted cap1 (aros_name cs) d1"
    using utf8_to_latin1_string [OF assms(1) _ assms(2), of "[]"] assms(4) by simp
  then obtain s where s: "byte_at s 0 = 0" "aros = aros_name cs @ s"
    using fitted_array [of "aros_name cs" cap1 d1] assms(5) by (metis fitted_def fst_conv snd_conv)
  have "(host, n2) = fitted cap2 (utf8_string cs) d2"
    using latin1_to_utf8_name [OF assms(1) s(1) assms(3)] assms(6) s(2) by simp
  then show ?thesis
    using c_string_fitted [OF utf8_string_no_nul [OF assms(1)], of cap2 d2] assms(7) by (metis fitted_def fst_conv snd_conv)
qed

theorem host_name_round_trip_witness:
  "c_string (fst (hv_latin1_to_utf8 (fst (hv_utf8_to_latin1 (utf8_string [0x25, 0x153, 0x1F600, 0xE9]) (replicate 40 0xAA) 40))
     (replicate 40 0xBB) 40)) = utf8_string [0x25, 0x153, 0x1F600, 0xE9]"
proof -
  let ?cs = "[0x25, 0x153, 0x1F600, 0xE9] :: u32 list"
  let ?x = "hv_utf8_to_latin1 (utf8_string ?cs) (replicate 40 0xAA) 40"
  let ?y = "hv_latin1_to_utf8 (fst ?x) (replicate 40 0xBB) 40"
  have cs: "\<forall>c\<in>set ?cs. scalar c \<and> c \<noteq> 0" by (simp add: scalar_def)
  have x: "?x = fitted 40 (aros_name ?cs) (replicate 40 0xAA)"
    using utf8_to_latin1_string [OF cs, of "[]" "replicate 40 0xAA" 40] by simp
  then have n1: "snd ?x < 40" by (simp add: fitted_def aros_name_def aros_char_def)
  obtain s where s: "byte_at s 0 = 0" "fst ?x = aros_name ?cs @ s"
    using fitted_array [of "aros_name ?cs" 40 "replicate 40 0xAA"] n1 x by (metis fitted_def snd_conv)
  have "?y = fitted 40 (utf8_string ?cs) (replicate 40 0xBB)"
    unfolding s(2) by (rule latin1_to_utf8_name [OF cs s(1)]) simp
  then have n2: "snd ?y < 40" by (simp add: fitted_def utf8_string_def utf8_def)
  show ?thesis
    using host_name_round_trip [OF cs, of "replicate 40 0xAA" 40 "replicate 40 0xBB" 40 "fst ?x" "snd ?x" "fst ?y" "snd ?y"] n1 n2
    by simp
qed

lemma plain_name:
  assumes "0 \<notin> set name" and "HV_MARK \<notin> set name"
  defines "cs \<equiv> map ucast name :: u32 list"
  shows "\<forall>c\<in>set cs. scalar c \<and> c \<noteq> 0" "aros_name cs = name"
proof -
  note small = byte_below and down_up = byte_down_up
  have char: "aros_char (ucast b) = [b]" if "HV_MARK \<noteq> b" for b
  proof -
    have "(ucast b :: u32) \<noteq> 0x25" 
    proof
      assume "(ucast b :: u32) = 0x25"
      then have "(ucast (ucast b :: u32) :: u8) = 0x25" by simp
      then show False using that by (simp add: HV_MARK_def down_up)
    qed
    then show ?thesis using small [of b] by (auto simp: aros_char_def word_less_nat_alt down_up)
  qed
  show "aros_name cs = name"
    using assms(2) unfolding cs_def aros_name_def by (induction name) (simp_all add: char)
  show "\<forall>c\<in>set cs. scalar c \<and> c \<noteq> 0"
    using assms(1) by (auto simp: cs_def byte_scalar byte_up_zero)
qed

text \<open>An AROS name without percent signs survives the trip through the host: its UTF-8 form converts back to the
  same Latin-1 bytes.\<close>

theorem aros_name_round_trip:
  assumes "0 \<notin> set name" and "HV_MARK \<notin> set name" and "length d1 = cap1" and "length d2 = cap2"
    and "hv_latin1_to_utf8 name d1 cap1 = (host, n1)" and "n1 < cap1"
    and "hv_utf8_to_latin1 host d2 cap2 = (aros, n2)" and "n2 < cap2"
  shows "c_string aros = name \<and> n2 = length name"
proof -
  let ?cs = "map ucast name :: u32 list"
  note cs = plain_name [OF assms(1,2)]
  have a: "(host, n1) = fitted cap1 (utf8_string ?cs) d1"
    using latin1_to_utf8_name [OF cs(1) _ assms(3), of "[]"] assms(5) cs(2) by simp
  then obtain s where s: "byte_at s 0 = 0" "host = utf8_string ?cs @ s"
    using fitted_array [of "utf8_string ?cs" cap1 d1] assms(6) by (metis fitted_def fst_conv snd_conv)
  have "(aros, n2) = fitted cap2 name d2"
    using utf8_to_latin1_string [OF cs(1) s(1) assms(4)] assms(7) s(2) cs(2) by simp
  then show ?thesis
    using c_string_fitted [OF assms(1), of cap2 d2] assms(8) by (metis fitted_def fst_conv snd_conv)
qed

theorem aros_name_round_trip_witness:
  "c_string (fst (hv_utf8_to_latin1 (fst (hv_latin1_to_utf8 [0x66, 0xFC, 0x72] (replicate 8 0xAA) 8)) (replicate 4 0xBB) 4))
    = [0x66, 0xFC, 0x72]"
proof -
  let ?n = "[0x66, 0xFC, 0x72] :: cstr"
  let ?x = "hv_latin1_to_utf8 ?n (replicate 8 0xAA) 8"
  let ?y = "hv_utf8_to_latin1 (fst ?x) (replicate 4 0xBB) 4"
  have x: "?x = ([0x66, 0xC3, 0xBC, 0x72, 0, 0xAA, 0xAA, 0xAA], 4)" by code_simp
  have y: "snd ?y = 3" unfolding x by code_simp
  show ?thesis
    using aros_name_round_trip [of ?n "replicate 8 0xAA" 8 "replicate 4 0xBB" 4 "fst ?x" "snd ?x" "fst ?y" "snd ?y"] x y
    by (simp add: HV_MARK_def)
qed

text \<open>The escape of code point 0 ends the host name early: \<open>a%u0000b\<close> becomes the host name \<open>a\<close>.\<close>

lemma nul_escape_cuts:
  "hv_latin1_to_utf8 [0x61, 0x25, 0x75, 0x30, 0x30, 0x30, 0x30, 0x62] (replicate 6 0xAA) 6 = ([0x61, 0, 0x62, 0, 0xAA, 0xAA], 3)"
  by code_simp

end
