(* ===== verification/HvMeta.thy ===== *)
theory HvMeta
  imports HvCharset
begin

text \<open>
  The metadata sidecar of the host-volume bridge (\<open>hosted/hostvolume/hv_meta.c\<close>): path and comment coding, the
  record's text, and reading and writing it on a host file system.

  The file system is a map from paths to contents. The system calls are steps on it; whether a call fails, how many
  bytes a read or a write transfers and which unique name \<open>mkstemp\<close> picks are the fields of an environment record.
\<close>

subsection \<open>Paths\<close>

definition SUFFIX :: cstr where
  "SUFFIX = [0x2E, 0x61, 0x6D, 0x69, 0x6D, 0x65, 0x74, 0x61]"

definition path_base :: "cstr \<Rightarrow> cstr" where
  "path_base f = rev (takeWhile (\<lambda>b. b \<noteq> 0x2F) (rev f))"

definition path_dir :: "cstr \<Rightarrow> cstr" where
  "path_dir f = rev (dropWhile (\<lambda>b. b \<noteq> 0x2F) (rev f))"

definition hv_sidecar_path :: "cstr \<Rightarrow> u8 list \<Rightarrow> nat \<Rightarrow> u8 list \<times> nat" where
  "hv_sidecar_path filepath dst dstcap =
     (let f = c_string filepath;
          o1 = puts dstcap (path_dir f) (dst, 0);
          o2 = put1 dstcap 0x2E o1;
          o3 = puts dstcap (path_base f) o2;
          o4 = puts dstcap SUFFIX o3
      in terminate_buf dstcap o4)"

definition hv_is_sidecar_name :: "cstr \<Rightarrow> bool" where
  "hv_is_sidecar_name name =
     (let n = c_string name; len = length n; slen = length SUFFIX in
      if byte_at name 0 \<noteq> 0x2E then False
      else if len < slen + 1 then False
      else drop (len - slen) n = SUFFIX)"

subsection \<open>The record\<close>

definition HV_COMMENT_MAX :: nat where "HV_COMMENT_MAX = 80"
definition HV_PROT_DEFAULT :: u32 where "HV_PROT_DEFAULT = 0"

record hv_meta =
  prot :: u32
  comment :: "u8 list"

definition hv_meta_is_default :: "hv_meta \<Rightarrow> bool" where
  "hv_meta_is_default m \<longleftrightarrow> prot m = HV_PROT_DEFAULT \<and> byte_at (comment m) 0 = 0"

definition is_transparent :: "u8 \<Rightarrow> bool" where
  "is_transparent c \<longleftrightarrow> c \<ge> 0x20 \<and> c \<le> 0x7E \<and> c \<noteq> 0x25"

definition esc_byte :: "u8 \<Rightarrow> cstr" where
  "esc_byte c = (if is_transparent c then [c]
                 else [0x25, hexd (ucast (drop_bit 4 c)), hexd (ucast (c AND 0xF))])"

definition esc_comment :: "cstr \<Rightarrow> u8 list \<Rightarrow> nat \<Rightarrow> u8 list \<times> nat" where
  "esc_comment inp out cap = terminate_buf cap (fold (\<lambda>c. puts cap (esc_byte c)) (c_string inp) (out, 0))"

function unesc_loop :: "nat \<Rightarrow> cstr \<Rightarrow> buf \<Rightarrow> buf" where
  "unesc_loop cap p out =
     (if byte_at p 0 = 0 then out
      else case (if byte_at p 0 = 0x25 then hexval (byte_at p 1) else None) of
        None \<Rightarrow> unesc_loop cap (drop 1 p) (put1 cap (byte_at p 0) out)
      | Some h \<Rightarrow>
          (case hexval (byte_at p 2) of
             None \<Rightarrow> unesc_loop cap (drop 1 p) (put1 cap (byte_at p 0) out)
           | Some l \<Rightarrow> unesc_loop cap (drop 3 p) (put1 cap (ucast (push_bit 4 h OR l)) out)))"
  by pat_completeness auto
termination
  by (relation "measure (\<lambda>(_, p, _). length p)") (auto simp: byte_at_def split: if_splits)

definition unesc_comment :: "cstr \<Rightarrow> u8 list \<Rightarrow> nat \<Rightarrow> u8 list" where
  "unesc_comment inp out cap = fst (terminate_buf cap (unesc_loop cap inp (out, 0)))"

declare unesc_loop.simps [simp del]

subsection \<open>The standard library's number parser\<close>

definition is_space :: "u8 \<Rightarrow> bool" where
  "is_space c \<longleftrightarrow> c = 0x20 \<or> c \<ge> 0x09 \<and> c \<le> 0x0D"

definition digit_value :: "nat \<Rightarrow> u8 \<Rightarrow> nat option" where
  "digit_value base c =
     (let v = (if c \<ge> 0x30 \<and> c \<le> 0x39 then unat c - 0x30
               else if c \<ge> 0x41 \<and> c \<le> 0x5A then unat c - 0x41 + 10
               else if c \<ge> 0x61 \<and> c \<le> 0x7A then unat c - 0x61 + 10 else 36)
      in if v < base then Some v else None)"

fun read_digits :: "nat \<Rightarrow> cstr \<Rightarrow> nat \<Rightarrow> nat" where
  "read_digits base [] acc = acc"
| "read_digits base (c # s) acc =
     (case digit_value base c of None \<Rightarrow> acc | Some v \<Rightarrow> read_digits base s (acc * base + v))"

text \<open>\<open>strtoul(s, NULL, 0)\<close> with a 64-bit \<open>unsigned long\<close>.\<close>

definition strtoul0 :: "cstr \<Rightarrow> u64" where
  "strtoul0 s0 =
     (let s1 = dropWhile is_space s0;
          neg = (byte_at s1 0 = 0x2D);
          s = (if byte_at s1 0 = 0x2D \<or> byte_at s1 0 = 0x2B then drop 1 s1 else s1);
          hex = (byte_at s 0 = 0x30 \<and> (byte_at s 1 = 0x78 \<or> byte_at s 1 = 0x58) \<and> digit_value 16 (byte_at s 2) \<noteq> None);
          v = (if hex then read_digits 16 (drop 2 s) 0
               else if byte_at s 0 = 0x30 then read_digits 8 s 0
               else read_digits 10 s 0)
      in if v \<ge> 2 ^ 64 then 0xFFFFFFFFFFFFFFFF else if neg then - of_nat v else of_nat v)"

subsection \<open>Reading\<close>

definition K_AMIMETA :: cstr where "K_AMIMETA = [0x61, 0x6D, 0x69, 0x6D, 0x65, 0x74, 0x61]"
definition K_PROT :: cstr where "K_PROT = [0x70, 0x72, 0x6F, 0x74]"
definition K_COMMENT :: cstr where "K_COMMENT = [0x63, 0x6F, 0x6D, 0x6D, 0x65, 0x6E, 0x74]"

definition strncpy0 :: "u8 list \<Rightarrow> cstr \<Rightarrow> nat \<Rightarrow> u8 list" where
  "strncpy0 dst src n = take n (c_string src @ replicate n 0) @ drop n dst"

definition parse_line :: "cstr \<Rightarrow> bool \<times> hv_meta \<Rightarrow> bool \<times> hv_meta" where
  "parse_line line st =
     (case st of (saw_header, out) \<Rightarrow>
      let key = takeWhile (\<lambda>b. b \<noteq> 0x20) line; val = drop (length key + 1) line in
      if key = K_AMIMETA then (True, out)
      else if key = K_PROT then (saw_header, out\<lparr>prot := ucast (strtoul0 val)\<rparr>)
      else if key = K_COMMENT then
        let tmp = unesc_comment val (replicate (HV_COMMENT_MAX * 3 + 1) 0) (HV_COMMENT_MAX * 3 + 1);
            c = strncpy0 (comment out) tmp HV_COMMENT_MAX
        in (saw_header, out\<lparr>comment := c[HV_COMMENT_MAX := 0]\<rparr>)
      else (saw_header, out))"

function parse_lines :: "cstr \<Rightarrow> bool \<times> hv_meta \<Rightarrow> bool \<times> hv_meta" where
  "parse_lines text st =
     (let line = takeWhile (\<lambda>b. b \<noteq> 0x0A) text; rest = drop (length line + 1) text; st' = parse_line line st in
      if rest = [] then st' else parse_lines rest st')"
  by pat_completeness auto
termination
  by (relation "measure (\<lambda>(text, _). length text)") auto

declare parse_lines.simps [simp del]

type_synonym files = "cstr \<Rightarrow> u8 list option"

record posix =
  e_open :: bool
  e_read :: "nat \<Rightarrow> nat option"
  e_unlink :: bool
  e_mkstemp :: "cstr option"
  e_write :: "nat \<Rightarrow> nat option"
  e_rename :: bool

definition BUF_MAX :: nat where "BUF_MAX = 8191"

function read_loop :: "posix \<Rightarrow> u8 list \<Rightarrow> nat \<Rightarrow> nat option" where
  "read_loop e data got =
     (let avail = min (BUF_MAX - got) (length data - got) in
      case e_read e got of
        None \<Rightarrow> None
      | Some k \<Rightarrow>
          if avail = 0 then Some got
          else let got' = got + max 1 (min k avail) in
            if got' \<ge> BUF_MAX then Some got' else read_loop e data got')"
  by pat_completeness auto
termination
proof (relation "measure (\<lambda>(_, data, got). length data - got)")
  fix e :: posix and data :: "u8 list" and got avail k got'
  assume av: "avail = min (BUF_MAX - got) (length data - got)" "avail \<noteq> 0" "got' = got + max 1 (min k avail)"
  have "got < got'" unfolding av(3) using max.cobounded1 [of 1 "min k avail"] by linarith
  moreover have "got < length data" using av(1,2) by (simp split: if_splits)
  ultimately show "((e, data, got'), e, data, got) \<in> measure (\<lambda>(_, data, got). length data - got)"
    by (simp add: diff_less_mono2)
qed simp

declare read_loop.simps [simp del]

definition sidecar_of :: "cstr \<Rightarrow> cstr" where
  "sidecar_of filepath = c_string (fst (hv_sidecar_path filepath (replicate 4096 0) 4096))"

definition hv_meta_read :: "posix \<Rightarrow> cstr \<Rightarrow> hv_meta \<Rightarrow> files \<Rightarrow> int \<times> hv_meta" where
  "hv_meta_read e filepath out fs =
     (let out0 = out\<lparr>prot := HV_PROT_DEFAULT, comment := (comment out)[0 := 0]\<rparr> in
      if e_open e then (-1, out0)
      else case fs (sidecar_of filepath) of
        None \<Rightarrow> (0, out0)
      | Some data \<Rightarrow>
          case read_loop e data 0 of
            None \<Rightarrow> (-1, out0)
          | Some got \<Rightarrow>
              let (saw_header, out1) = parse_lines (c_string (take got data)) (False, out0)
              in if \<not> saw_header then (-1, out1) else (1, out1))"

subsection \<open>Writing\<close>

fun append_str :: "u8 list \<Rightarrow> nat \<Rightarrow> nat \<Rightarrow> cstr \<Rightarrow> u8 list \<times> nat" where
  "append_str buf off cap [] = (buf, off)"
| "append_str buf off cap (c # s) =
     (if c \<noteq> 0 \<and> off + 1 < cap then append_str (buf[off := c]) (off + 1) cap s else (buf, off))"

function hex_digits_of :: "u32 \<Rightarrow> cstr" where
  "hex_digits_of v = (if v = 0 then [] else hexd (v AND 0xF) # hex_digits_of (drop_bit 4 v))"
  by pat_completeness auto
termination
  by (relation "measure unat") (simp_all add: unat_drop_bit_eq drop_bit_eq_div [where ?'a = nat] unat_gt_0)

declare hex_digits_of.simps [simp del]

fun append_back :: "u8 list \<Rightarrow> nat \<Rightarrow> nat \<Rightarrow> cstr \<Rightarrow> u8 list \<times> nat" where
  "append_back buf off cap [] = (buf, off)"
| "append_back buf off cap (c # d) =
     (if off + 1 < cap then append_back (buf[off := c]) (off + 1) cap d else (buf, off))"

definition append_hex32 :: "u8 list \<Rightarrow> nat \<Rightarrow> nat \<Rightarrow> u32 \<Rightarrow> u8 list \<times> nat" where
  "append_hex32 buf0 off0 cap v =
     (let (buf, off) = append_str buf0 off0 cap [0x30, 0x78] in
      if v = 0 then (if off + 1 < cap then (buf[off := 0x30], off + 1) else (buf, off))
      else append_back buf off cap (rev (hex_digits_of v)))"

definition T_HEADER :: cstr where "T_HEADER = K_AMIMETA @ [0x20, 0x31, 0x0A]"
definition T_PROT :: cstr where "T_PROT = K_PROT @ [0x20]"
definition T_COMMENT :: cstr where "T_COMMENT = K_COMMENT @ [0x20]"
definition T_NL :: cstr where "T_NL = [0x0A]"
definition T_TMP :: cstr where "T_TMP = [0x2E, 0x74, 0x6D, 0x70]"

definition BODY_MAX :: nat where "BODY_MAX = HV_COMMENT_MAX * 3 + 256"

definition meta_body :: "hv_meta \<Rightarrow> u8 list \<Rightarrow> u8 list \<times> nat" where
  "meta_body m body0 =
     (let (b1, o1) = append_str body0 0 BODY_MAX T_HEADER;
          (b2, o2) = append_str b1 o1 BODY_MAX T_PROT;
          (b3, o3) = append_hex32 b2 o2 BODY_MAX (prot m);
          (b4, o4) = append_str b3 o3 BODY_MAX T_NL
      in if byte_at (comment m) 0 = 0 then (b4, o4)
         else let esc = fst (esc_comment (comment m) (replicate (HV_COMMENT_MAX * 3 + 1) 0) (HV_COMMENT_MAX * 3 + 1));
                  (b5, o5) = append_str b4 o4 BODY_MAX T_COMMENT;
                  (b6, o6) = append_str b5 o5 BODY_MAX esc
              in append_str b6 o6 BODY_MAX T_NL)"

text \<open>Every system call's state is kept, newest first: what other processes can see while the writer runs.\<close>

definition sys_unlink :: "posix \<Rightarrow> cstr \<Rightarrow> files \<Rightarrow> files" where
  "sys_unlink e path fs = (if e_unlink e then fs else fs(path := None))"

function write_loop :: "posix \<Rightarrow> u8 list \<Rightarrow> nat \<Rightarrow> cstr \<Rightarrow> files list \<Rightarrow> files list \<times> bool" where
  "write_loop e body wr tmp tr =
     (if wr < length body then
        (case e_write e wr of
           None \<Rightarrow> (tr, False)
         | Some k \<Rightarrow>
             let n = max 1 (min k (length body - wr));
                 fs = (hd tr)(tmp := map_option (\<lambda>d. d @ take n (drop wr body)) (hd tr tmp))
             in write_loop e body (wr + n) tmp (fs # tr))
      else (tr, True))"
  by pat_completeness auto
termination
proof (relation "measure (\<lambda>(_, body, wr, _, _). length body - wr)")
  fix e :: posix and body :: "u8 list" and wr k n :: nat and tmp :: cstr and tr fs
  assume wr: "wr < length body" "n = max 1 (min k (length body - wr))"
  have "wr < wr + n" unfolding wr(2) using max.cobounded1 [of 1 "min k (length body - wr)"] by linarith
  then show "((e, body, wr + n, tmp, fs # tr), e, body, wr, tmp, tr) \<in> measure (\<lambda>(_, body, wr, _, _). length body - wr)"
    using wr(1) by (simp add: diff_less_mono2)
qed simp

declare write_loop.simps [simp del]

definition hv_meta_write :: "posix \<Rightarrow> cstr \<Rightarrow> hv_meta \<Rightarrow> files \<Rightarrow> files list \<times> int" where
  "hv_meta_write e filepath m fs =
     (let path = sidecar_of filepath in
      if hv_meta_is_default m then
        (if e_unlink e then ([fs], -1) else ([sys_unlink e path fs, fs], 0))
      else
        let (body, off) = meta_body m (replicate BODY_MAX 0); pl = length path in
        if pl + 11 \<ge> 4096 + 16 then ([fs], -1)
        else case e_mkstemp e of
          None \<Rightarrow> ([fs], -1)
        | Some x \<Rightarrow>
            let tmp = path @ T_TMP @ x in
            if fs tmp \<noteq> None then ([fs], -1)
            else case write_loop e (take off body) 0 tmp [fs(tmp := Some []), fs] of
              (tr, False) \<Rightarrow> (sys_unlink e tmp (hd tr) # tr, -1)
            | (tr, True) \<Rightarrow>
                if e_rename e then (sys_unlink e tmp (hd tr) # tr, -1)
                else ((hd tr)(path := hd tr tmp, tmp := None) # tr, 0))"

subsection \<open>Comment coding\<close>

lemma nibbles: "(ucast (drop_bit 4 (c :: u8)) :: u32) < 16" "(ucast (c AND 0xF) :: u32) < 16"
proof -
  have m: "(0xF :: u8) = mask 4" "(0xF :: u32) = mask 4" by (simp_all add: mask_eq_exp_minus_1)
  have "(ucast (drop_bit 4 c) :: u32) = ucast (drop_bit 4 c) AND 0xF" "(ucast (c AND 0xF) :: u32) = ucast c AND 0xF"
    by (auto simp: bit_eq_iff bit_simps m dest: bit_imp_le_length)
  then show "(ucast (drop_bit 4 c) :: u32) < 16" "(ucast (c AND 0xF) :: u32) < 16" using nibble_small by metis+
qed

lemma nibbles_join: "(ucast (push_bit 4 (ucast (drop_bit 4 c)) OR ucast (c AND 0xF) :: u32) :: u8) = (c :: u8)"
proof -
  have "(0xF :: u8) = mask 4" by (simp add: mask_eq_exp_minus_1)
  then show ?thesis by (auto simp: bit_eq_iff bit_simps)
qed

definition escaped :: "cstr \<Rightarrow> cstr" where
  "escaped cs = concat (map esc_byte cs)"

lemma escaped_simps [simp]: "escaped [] = []" "escaped (c # cs) = esc_byte c @ escaped cs"
  by (simp_all add: escaped_def)

lemma escape_reads: "byte_at (x # y # z # s) 1 = y" "byte_at (x # y # z # s) 2 = z" "drop 3 (x # y # z # s) = s" "drop 2 (x # y # s) = s"
  by (simp_all add: byte_at_def)

lemma unesc_loop_byte:
  assumes "c \<noteq> 0"
  shows "unesc_loop cap (esc_byte c @ s) out = unesc_loop cap s (put1 cap c out)"
proof (cases "is_transparent c")
  case True
  then show ?thesis using assms by (subst unesc_loop.simps) (simp add: esc_byte_def is_transparent_def)
next
  case False
  then show ?thesis
    by (subst unesc_loop.simps) (simp add: esc_byte_def nibbles nibbles_join escape_reads del: One_nat_def)
qed

lemma unesc_escaped:
  assumes "0 \<notin> set cs" "byte_at t 0 = 0"
  shows "unesc_loop cap (escaped cs @ t) out = puts cap cs out"
  using assms
proof (induction cs arbitrary: out)
  case Nil
  then show ?case by (subst unesc_loop.simps) simp
next
  case (Cons c cs)
  then show ?case by (simp add: unesc_loop_byte put1_puts eq_commute [of 0])
qed

lemma esc_comment_fitted: "length out = cap \<Longrightarrow> esc_comment s out cap = fitted cap (escaped (c_string s)) out"
proof -
  assume "length out = cap"
  have "fold (\<lambda>c. puts cap (esc_byte c)) cs b = puts cap (escaped cs) b" for cs b
    by (induction cs arbitrary: b) simp_all
  then show ?thesis using terminate_puts [OF \<open>length out = cap\<close>] by (simp add: esc_comment_def)
qed

lemma c_string_no_nul: "0 \<notin> set (c_string s)"
  by (auto simp: c_string_def dest: set_takeWhileD)

lemma c_string_id: "0 \<notin> set s \<Longrightarrow> c_string s = s"
  by (auto simp: c_string_def takeWhile_eq_all_conv)

lemma hexd_plain: "d < 16 \<Longrightarrow> hexd d \<noteq> 0x0A \<and> hexd d \<noteq> 0x20 \<and> hexd d \<noteq> 0"
  by (rule nibble_cases [of d]) (simp_all add: hexd_def byte_at_def)

lemma escaped_plain: "0 \<notin> set (escaped cs)" "0x0A \<notin> set (escaped cs)" "length (escaped cs) \<le> 3 * length cs"
proof -
  have b: "0 \<notin> set (esc_byte c)" "0x0A \<notin> set (esc_byte c)" "length (esc_byte c) \<le> 3" for c
    using hexd_plain [OF nibbles(1), of c] hexd_plain [OF nibbles(2), of c]
    by (auto simp: esc_byte_def is_transparent_def word_le_nat_alt)
  show "0 \<notin> set (escaped cs)" "0x0A \<notin> set (escaped cs)"
    by (induction cs) (auto simp: b)
  show "length (escaped cs) \<le> 3 * length cs"
  proof (induction cs)
    case (Cons c cs)
    then show ?case using b(3) [of c] by simp
  qed simp
qed

subsection \<open>The record's text\<close>

definition hex_string :: "u32 \<Rightarrow> cstr" where
  "hex_string v = [0x30, 0x78] @ (if v = 0 then [0x30] else rev (hex_digits_of v))"

text \<open>The sidecar of a record: what \<open>hv_meta_write\<close> is to store.\<close>

definition record_text :: "hv_meta \<Rightarrow> cstr" where
  "record_text m = T_HEADER @ T_PROT @ hex_string (prot m) @ T_NL @
     (if byte_at (comment m) 0 = 0 then [] else T_COMMENT @ escaped (c_string (comment m)) @ T_NL)"

definition filled :: "nat \<Rightarrow> cstr \<Rightarrow> u8 list \<times> nat \<Rightarrow> bool" where
  "filled cap xs b \<longleftrightarrow> length (fst b) = cap \<and> snd b = length xs \<and> take (snd b) (fst b) = xs"

lemma filled_snoc:
  assumes "filled cap xs (buf, off)" "off + 1 < cap"
  shows "filled cap (xs @ [c]) (buf[off := c], off + 1)"
  using assms by (auto simp: filled_def take_Suc_conv_app_nth)

lemma append_str_filled:
  assumes "filled cap xs (buf, off)" "off + length s < cap" "0 \<notin> set s" "byte_at t 0 = 0"
  shows "filled cap (xs @ s) (append_str buf off cap (s @ t))"
  using assms
proof (induction s arbitrary: xs buf off)
  case Nil
  then show ?case by (cases t) simp_all
next
  case (Cons c s)
  then have "filled cap ((xs @ [c]) @ s) (append_str (buf[off := c]) (off + 1) cap (s @ t))"
    by (intro Cons.IH filled_snoc) simp_all
  then show ?case using Cons.prems by simp
qed

lemma append_back_filled:
  assumes "filled cap xs (buf, off)" "off + length s < cap"
  shows "filled cap (xs @ s) (append_back buf off cap s)"
  using assms
proof (induction s arbitrary: xs buf off)
  case (Cons c s)
  then have "filled cap ((xs @ [c]) @ s) (append_back (buf[off := c]) (off + 1) cap s)"
    by (intro Cons.IH filled_snoc) simp_all
  then show ?case using Cons.prems by simp
qed simp

lemma append_hex32_filled:
  assumes "filled cap xs (buf, off)" "off + length (hex_string v) < cap"
  shows "filled cap (xs @ hex_string v) (append_hex32 buf off cap v)"
proof -
  obtain b o1 where b: "append_str buf off cap [0x30, 0x78] = (b, o1)" by force
  have f: "filled cap (xs @ [0x30, 0x78]) (b, o1)"
    using append_str_filled [OF assms(1), of "[0x30, 0x78]" "[]"] assms(2) b by (simp add: hex_string_def)
  then have o1: "o1 = off + 2" using assms(1) by (simp add: filled_def)
  show ?thesis
  proof (cases "v = 0")
    case True
    then show ?thesis using filled_snoc [OF f, of "0x30"] assms(2) by (simp add: append_hex32_def b hex_string_def o1 del: append_str.simps)
  next
    case False
    then show ?thesis using append_back_filled [OF f, of "rev (hex_digits_of v)"] assms(2)
      by (simp add: append_hex32_def b hex_string_def o1 del: append_str.simps)
  qed
qed

lemma unat_drop4: "unat (drop_bit 4 (v :: u32)) = unat v div 16"
  by (simp add: unat_drop_bit_eq drop_bit_eq_div [where ?'a = nat])

lemma hex_digits_of_plain: "\<forall>d\<in>set (hex_digits_of v). \<exists>x < 16. d = hexd x"
proof (induction v rule: hex_digits_of.induct)
  case (1 v)
  moreover have "\<exists>x<16. hexd (v AND 0xF) = hexd x" using nibble_small [of v] by blast
  ultimately show ?case by (subst hex_digits_of.simps) auto
qed

lemma hex_string_plain: "0 \<notin> set (hex_string v)" "0x0A \<notin> set (hex_string v)"
  using hex_digits_of_plain [of v] hexd_plain by (auto simp: hex_string_def)

lemma length_hex_digits_of: "unat v < 16 ^ k \<Longrightarrow> length (hex_digits_of v) \<le> k"
proof (induction k arbitrary: v)
  case 0
  then have "v = 0" by (simp add: unat_eq_0)
  then show ?case by (subst hex_digits_of.simps) simp
next
  case (Suc k)
  have "unat (drop_bit 4 v) < 16 ^ k"
    using Suc.prems by (simp add: unat_drop4 less_mult_imp_div_less mult.commute)
  from Suc.IH [OF this] show ?case by (subst hex_digits_of.simps) simp
qed

lemma length_hex_string: "length (hex_string v) \<le> 10"
  using length_hex_digits_of [of v 8] unsigned_less [of v, where ?'a = nat] by (simp add: hex_string_def)

lemma nibble_sum: "16 * unat (drop_bit 4 (v :: u32)) + unat (v AND 0xF) = unat v"
proof -
  have m: "(0xF :: u32) = mask 4" by (simp add: mask_eq_exp_minus_1)
  have "unat (v AND 0xF) = take_bit 4 (unat v)" unfolding m by (simp only: take_bit_eq_mask [symmetric] unsigned_take_bit_eq)
  then have "unat (v AND 0xF) = unat v mod 16" by (simp add: take_bit_eq_mod)
  then show ?thesis by (simp add: unat_drop4)
qed

lemma digit_value_hexd: "d < 16 \<Longrightarrow> digit_value 16 (hexd d) = Some (unat d)"
  by (rule nibble_cases [of d]) (simp_all add: hexd_def byte_at_def digit_value_def)

lemma read_digits_snoc:
  "(\<forall>d\<in>set s. digit_value base d \<noteq> None) \<Longrightarrow> digit_value base c = Some v \<Longrightarrow>
    read_digits base (s @ [c]) acc = read_digits base s acc * base + v"
  by (induction s arbitrary: acc) auto

lemma read_hex_digits_of: "read_digits 16 (rev (hex_digits_of v)) 0 = unat v"
proof (induction v rule: hex_digits_of.induct)
  case (1 v)
  show ?case
  proof (cases "v = 0")
    case True
    then show ?thesis by (subst hex_digits_of.simps) simp
  next
    case False
    have "\<forall>d\<in>set (rev (hex_digits_of (drop_bit 4 v))). digit_value 16 d \<noteq> None"
      using hex_digits_of_plain [of "drop_bit 4 v"] digit_value_hexd by fastforce
    from read_digits_snoc [OF this digit_value_hexd [OF nibble_small]] show ?thesis
      using False 1 nibble_sum [of v] by (subst hex_digits_of.simps) (simp add: mult.commute)
  qed
qed

lemma strtoul0_hex_string: "ucast (strtoul0 (hex_string v)) = v"
proof (cases "v = 0")
  case True
  then show ?thesis
    by (simp add: strtoul0_def hex_string_def is_space_def digit_value_def Let_def escape_reads del: One_nat_def)
next
  case False
  obtain d ds where d: "rev (hex_digits_of v) = d # ds" 
    using False by (cases "rev (hex_digits_of v)") (subst (asm) hex_digits_of.simps, simp_all)
  then have "d \<in> set (hex_digits_of v)" by (metis list.set_intros(1) set_rev)
  then have "digit_value 16 d \<noteq> None" using hex_digits_of_plain [of v] digit_value_hexd by fastforce
  moreover have "unat v < 2 ^ 64" using unsigned_less [of v, where ?'a = nat] by simp
  ultimately have "strtoul0 (hex_string v) = of_nat (unat v)"
    using read_hex_digits_of [of v] False
    by (simp add: strtoul0_def hex_string_def is_space_def d Let_def escape_reads del: One_nat_def)
  then show ?thesis by (simp add: bit_eq_iff bit_simps)
qed

lemmas text_defs = T_HEADER_def T_PROT_def T_COMMENT_def T_NL_def K_AMIMETA_def K_PROT_def K_COMMENT_def

definition meta_ok :: "hv_meta \<Rightarrow> bool" where
  "meta_ok m \<longleftrightarrow> length (comment m) = HV_COMMENT_MAX + 1 \<and> 0 \<in> set (comment m)"

lemma c_string_less: "0 \<in> set xs \<Longrightarrow> length (c_string xs) < length xs"
  by (induction xs) (auto simp: c_string_def)

lemma comment_length: "meta_ok m \<Longrightarrow> length (c_string (comment m)) \<le> 80"
proof -
  assume "meta_ok m"
  then have "length (c_string (comment m)) < length (comment m)" 
    using c_string_less [of "comment m"] by (simp add: meta_ok_def)
  then show ?thesis using \<open>meta_ok m\<close> by (simp add: meta_ok_def HV_COMMENT_MAX_def)
qed

lemma escaped_comment_length: "meta_ok m \<Longrightarrow> length (escaped (c_string (comment m))) \<le> 240"
  using comment_length [of m] escaped_plain(3) [of "c_string (comment m)"] by linarith

lemma record_text_length: "meta_ok m \<Longrightarrow> length (record_text m) \<le> 275"
  using escaped_comment_length [of m] length_hex_string [of "prot m"] by (simp add: record_text_def text_defs)

lemma record_text_plain: "0 \<notin> set (record_text m)"
  using hex_string_plain(1) escaped_plain(1) by (auto simp: record_text_def text_defs)

lemma meta_body_filled:
  assumes "meta_ok m" "length body0 = BODY_MAX"
  shows "filled BODY_MAX (record_text m) (meta_body m body0)"
proof -
  note max = BODY_MAX_def HV_COMMENT_MAX_def
  have hl: "length (hex_string (prot m)) \<le> 10" by (rule length_hex_string)
  obtain b1 o1 where 1: "append_str body0 0 BODY_MAX T_HEADER = (b1, o1)" by force
  obtain b2 o2 where 2: "append_str b1 o1 BODY_MAX T_PROT = (b2, o2)" by force
  obtain b3 o3 where 3: "append_hex32 b2 o2 BODY_MAX (prot m) = (b3, o3)" by force
  obtain b4 o4 where 4: "append_str b3 o3 BODY_MAX T_NL = (b4, o4)" by force
  have f0: "filled BODY_MAX [] (body0, 0)" using assms(2) by (simp add: filled_def)
  have f1: "filled BODY_MAX T_HEADER (b1, o1)"
    using append_str_filled [OF f0, of T_HEADER "[]"] 1 by (simp add: max text_defs)
  then have o1: "o1 = 10" by (simp add: filled_def text_defs)
  have f2: "filled BODY_MAX (T_HEADER @ T_PROT) (b2, o2)"
    using append_str_filled [OF f1, of T_PROT "[]"] 2 o1 by (simp add: max text_defs)
  then have o2: "o2 = 15" by (simp add: filled_def text_defs)
  have f3: "filled BODY_MAX ((T_HEADER @ T_PROT) @ hex_string (prot m)) (b3, o3)"
    using append_hex32_filled [OF f2, of "prot m"] 3 o2 hl by (simp add: max)
  then have o3: "o3 = 15 + length (hex_string (prot m))" by (simp add: filled_def text_defs)
  have f4: "filled BODY_MAX (((T_HEADER @ T_PROT) @ hex_string (prot m)) @ T_NL) (b4, o4)"
    using append_str_filled [OF f3, of T_NL "[]"] 4 o3 hl by (simp add: max text_defs)
  then have o4: "o4 = 16 + length (hex_string (prot m))" by (simp add: filled_def text_defs)
  show ?thesis
  proof (cases "byte_at (comment m) 0 = 0")
    case True
    then show ?thesis using f4 by (simp add: meta_body_def record_text_def 1 2 3 4)
  next
    case False
    let ?e = "escaped (c_string (comment m))"
    have el: "length ?e \<le> 240" by (rule escaped_comment_length [OF assms(1)])
    have esc: "esc_comment (comment m) (replicate (HV_COMMENT_MAX * 3 + 1) 0) (HV_COMMENT_MAX * 3 + 1)
        = fitted 241 ?e (replicate 241 0)"
      using esc_comment_fitted [of "replicate 241 0" 241 "comment m"] by (simp add: max)
    obtain t where t: "byte_at t 0 = 0" "fst (fitted 241 ?e (replicate 241 0)) = ?e @ t"
      using fitted_array [of ?e 241 "replicate 241 0"] el by auto
    obtain b5 o5 where 5: "append_str b4 o4 BODY_MAX T_COMMENT = (b5, o5)" by force
    obtain b6 o6 where 6: "append_str b5 o5 BODY_MAX (?e @ t) = (b6, o6)" by force
    have f5: "filled BODY_MAX ((((T_HEADER @ T_PROT) @ hex_string (prot m)) @ T_NL) @ T_COMMENT) (b5, o5)"
      using append_str_filled [OF f4, of T_COMMENT "[]"] 5 o4 hl by (simp add: max text_defs)
    then have o5: "o5 = 24 + length (hex_string (prot m))" by (simp add: filled_def text_defs)
    have f6: "filled BODY_MAX (((((T_HEADER @ T_PROT) @ hex_string (prot m)) @ T_NL) @ T_COMMENT) @ ?e) (b6, o6)"
      using append_str_filled [OF f5, of ?e t] 6 o5 hl el escaped_plain(1) t(1) by (simp add: max)
    then have o6: "o6 = 24 + length (hex_string (prot m)) + length ?e" by (simp add: filled_def text_defs)
    have f7: "filled BODY_MAX ((((((T_HEADER @ T_PROT) @ hex_string (prot m)) @ T_NL) @ T_COMMENT) @ ?e) @ T_NL) (append_str b6 o6 BODY_MAX T_NL)"
      using append_str_filled [OF f6, of T_NL "[]"] o6 hl el by (simp add: max text_defs)
    have "meta_body m body0 = append_str b6 o6 BODY_MAX T_NL"
      unfolding meta_body_def 1 2 3 4 5 6 esc t(2) Let_def prod.case using False by (simp only: if_False)
    then show ?thesis using f7 False by (simp add: record_text_def)
  qed
qed

subsection \<open>Reading the record back\<close>

lemma parse_lines_line:
  assumes "0x0A \<notin> set line"
  shows "parse_lines (line @ 0x0A # rest) st = (if rest = [] then parse_line line st else parse_lines rest (parse_line line st))"
proof -
  have "takeWhile (\<lambda>b. b \<noteq> 0x0A) (line @ 0x0A # rest) = line" using assms by (subst takeWhile_append2) auto
  then show ?thesis by (subst parse_lines.simps) (simp add: Let_def)
qed

definition stored :: "hv_meta \<Rightarrow> hv_meta \<Rightarrow> bool" where
  "stored m m' \<longleftrightarrow> prot m' = prot m \<and> c_string (comment m') = c_string (comment m)"

lemma parse_header: "parse_line (K_AMIMETA @ [0x20, 0x31]) (h, out) = (True, out)"
  by (simp add: parse_line_def K_AMIMETA_def Let_def)

lemma parse_prot: "parse_line (K_PROT @ 0x20 # hex_string v) (h, out) = (h, out\<lparr>prot := v\<rparr>)"
  by (simp add: parse_line_def K_AMIMETA_def K_PROT_def Let_def strtoul0_hex_string)

lemma c_string_zeros: "0 \<notin> set cs \<Longrightarrow> byte_at t 0 = 0 \<Longrightarrow> c_string (cs @ t) = cs"
  by (cases t) (auto simp: c_string_def takeWhile_append takeWhile_eq_all_conv)

lemma parse_comment:
  assumes "0 \<notin> set cs" "length cs \<le> 80" "length (comment out) = 81"
  shows "\<exists>c. parse_line (K_COMMENT @ 0x20 # escaped cs) (h, out) = (h, out\<lparr>comment := c\<rparr>) \<and> c_string c = cs"
proof -
  let ?tmp = "unesc_comment (escaped cs) (replicate 241 0) 241"
  have "unesc_loop 241 (escaped cs) (replicate 241 0, 0) = puts 241 cs (replicate 241 0, 0)"
    using unesc_escaped [OF assms(1), of "[]" 241] by simp
  then have "?tmp = fst (fitted 241 cs (replicate 241 0))"
    by (simp add: unesc_comment_def terminate_puts [of "replicate 241 0" 241, simplified])
  then have tmp: "c_string ?tmp = cs" using c_string_fitted [OF assms(1)] assms(2) by simp
  let ?c = "(strncpy0 (comment out) ?tmp 80)[80 := 0]"
  have "length (drop 80 (comment out)) = 1" using assms(3) by simp
  then obtain x where x: "drop 80 (comment out) = [x]" by (metis One_nat_def length_0_conv length_Suc_conv)
  have "strncpy0 (comment out) ?tmp 80 = (cs @ replicate (80 - length cs) 0) @ [x]"
    using assms(2) by (simp add: strncpy0_def tmp x)
  moreover have "((cs @ replicate (80 - length cs) 0) @ [x])[80 := 0] = (cs @ replicate (80 - length cs) 0) @ [0]"
    using assms(2) by (subst list_update_append) simp
  ultimately have "?c = cs @ replicate (80 - length cs) 0 @ [0]" by simp
  moreover have "byte_at (replicate (80 - length cs) 0 @ [0]) 0 = 0" by (cases "80 - length cs") simp_all
  ultimately have "c_string ?c = cs" using c_string_zeros [OF assms(1)] by (simp only:)
  moreover have "parse_line (K_COMMENT @ 0x20 # escaped cs) (h, out) = (h, out\<lparr>comment := ?c\<rparr>)"
    by (simp add: parse_line_def K_AMIMETA_def K_PROT_def K_COMMENT_def Let_def HV_COMMENT_MAX_def)
  ultimately show ?thesis by blast
qed

lemma parse_record:
  assumes "meta_ok m" "meta_ok out" "byte_at (comment out) 0 = 0"
  shows "\<exists>m'. parse_lines (record_text m) (False, out) = (True, m') \<and> stored m m'"
proof -
  let ?l1 = "K_AMIMETA @ [0x20, 0x31]" and ?l2 = "K_PROT @ 0x20 # hex_string (prot m)"
  let ?cs = "c_string (comment m)" and ?out = "out\<lparr>prot := prot m\<rparr>"
  have l1: "0x0A \<notin> set ?l1" and l2: "0x0A \<notin> set ?l2" and l3: "0x0A \<notin> set (K_COMMENT @ 0x20 # escaped ?cs)"
    using hex_string_plain(2) escaped_plain(2) by (simp_all add: K_AMIMETA_def K_PROT_def K_COMMENT_def)
  have rt: "record_text m = ?l1 @ 0x0A # ?l2 @ 0x0A # (if byte_at (comment m) 0 = 0 then [] else (K_COMMENT @ 0x20 # escaped ?cs) @ [0x0A])"
    by (simp add: record_text_def T_HEADER_def T_PROT_def T_COMMENT_def T_NL_def)
  have two: "parse_lines (record_text m) (False, out) =
      (if byte_at (comment m) 0 = 0 then (True, ?out) else parse_lines ((K_COMMENT @ 0x20 # escaped ?cs) @ [0x0A]) (True, ?out))"
    unfolding rt by (simp only: parse_lines_line [OF l1] parse_lines_line [OF l2] parse_header parse_prot) simp
  show ?thesis
  proof (cases "byte_at (comment m) 0 = 0")
    case True
    then have "c_string (comment m) = []" "c_string (comment out) = []"
      using assms(3) c_string_zeros [of "[]"] by simp_all
    then show ?thesis using two True by (simp add: stored_def)
  next
    case False
    obtain c where "parse_line (K_COMMENT @ 0x20 # escaped ?cs) (True, ?out) = (True, ?out\<lparr>comment := c\<rparr>)" "c_string c = ?cs"
      using parse_comment [OF c_string_no_nul comment_length [OF assms(1)], of ?out True] assms(2)
      by (auto simp: meta_ok_def HV_COMMENT_MAX_def)
    then show ?thesis unfolding two using False parse_lines_line [OF l3, of "[]"] by (simp add: stored_def)
  qed
qed

lemma read_loop_all:
  assumes "\<forall>i. e_read e i \<noteq> None" "length data < BUF_MAX" "got \<le> length data"
  shows "read_loop e data got = Some (length data)"
  using assms
proof (induction "length data - got" arbitrary: got rule: less_induct)
  case less
  obtain k where k: "e_read e got = Some k" using less.prems(1) by blast
  define n where "n = max 1 (min k (length data - got))"
  have av: "min (BUF_MAX - got) (length data - got) = length data - got" using less.prems by linarith
  show ?case
  proof (cases "got = length data")
    case True
    then show ?thesis using k by (subst read_loop.simps) (simp add: av Let_def)
  next
    case False
    then have n: "1 \<le> n" "got + n \<le> length data" using less.prems(3) by (auto simp: n_def)
    then have "read_loop e data (got + n) = Some (length data)"
      using less.hyps [of "got + n"] less.prems by simp
    moreover have "\<not> length data - got = 0" "\<not> BUF_MAX \<le> got + n" using n False less.prems by linarith+
    then have "read_loop e data got = read_loop e data (got + n)"
      using read_loop.simps [of e data got] k by (simp only: av Let_def option.case n_def if_False)
    ultimately show ?thesis by simp
  qed
qed

lemma write_loop_states:
  assumes "write_loop e body wr tmp tr = (tr', done)" "tr \<noteq> []" "hd tr tmp = Some (take wr body)" "wr \<le> length body"
  shows "\<exists>new. tr' = new @ tr \<and> (\<forall>g\<in>set new. \<forall>q. q \<noteq> tmp \<longrightarrow> g q = hd tr q) \<and>
    (\<exists>d. hd tr' tmp = Some d \<and> (done \<longrightarrow> d = body))"
  using assms
proof (induction "length body - wr" arbitrary: wr tr rule: less_induct)
  case less
  show ?case
  proof (cases "wr < length body")
    case False
    then have "tr' = tr" "done" using less.prems(1) by (subst (asm) write_loop.simps; simp)+
    then show ?thesis using less.prems False by simp
  next
    case True
    show ?thesis
    proof (cases "e_write e wr")
      case None
      then have "tr' = tr" "\<not> done" using less.prems(1) True by (subst (asm) write_loop.simps; simp)+
      then show ?thesis using less.prems by simp
    next
      case (Some k)
      define n where "n = max 1 (min k (length body - wr))"
      have n: "1 \<le> n" "wr + n \<le> length body" using True by (auto simp: n_def)
      let ?fs = "(hd tr)(tmp := Some (take (wr + n) body))"
      have step: "write_loop e body (wr + n) tmp (?fs # tr) = (tr', done)"
        using less.prems(1,3) True Some by (subst (asm) write_loop.simps) (simp add: Let_def n_def take_add)
      have "length body - (wr + n) < length body - wr" using n by linarith
      from less.hyps [OF this step] n obtain new where "tr' = new @ ?fs # tr" "\<forall>g\<in>set new. \<forall>q. q \<noteq> tmp \<longrightarrow> g q = ?fs q"
        "\<exists>d. hd tr' tmp = Some d \<and> (done \<longrightarrow> d = body)" by auto
      then show ?thesis by (intro exI [of _ "new @ [?fs]"]) auto
    qed
  qed
qed

lemma temp_distinct: "path @ T_TMP @ x \<noteq> path"
  by (simp add: T_TMP_def)

lemma take_meta_body:
  assumes "meta_ok m"
  shows "take (snd (meta_body m (replicate BODY_MAX 0))) (fst (meta_body m (replicate BODY_MAX 0))) = record_text m"
proof -
  have "filled BODY_MAX (record_text m) (meta_body m (replicate BODY_MAX 0))" using meta_body_filled [OF assms] by simp
  then show ?thesis unfolding filled_def by (elim conjE)
qed

text \<open>What a write goes through and leaves: other files keep their contents, and the sidecar has the old or the new.\<close>

definition intact :: "cstr \<Rightarrow> files \<Rightarrow> u8 list option \<Rightarrow> files \<Rightarrow> bool" where
  "intact path fs new g \<longleftrightarrow> (g path = fs path \<or> g path = new) \<and> (\<forall>q. q \<noteq> path \<and> fs q \<noteq> None \<longrightarrow> g q = fs q)"

lemma write_outcome:
  assumes "hv_meta_write e f m fs = (tr, r)" "meta_ok m"
  defines "path \<equiv> sidecar_of f"
  defines "new \<equiv> if hv_meta_is_default m then None else Some (record_text m)"
  shows "(\<forall>g\<in>set tr. intact path fs new g) \<and>
    (r = 0 \<and> hd tr = fs(path := new) \<or> r = -1 \<and> hd tr path = fs path \<and> (\<not> e_unlink e \<longrightarrow> hd tr = fs))"
proof (cases "hv_meta_is_default m")
  case True
  then show ?thesis using assms(1)
    by (auto simp: hv_meta_write_def Let_def sys_unlink_def intact_def new_def path_def split: if_splits)
next
  case False
  have body: "take (snd (meta_body m (replicate BODY_MAX 0))) (fst (meta_body m (replicate BODY_MAX 0))) = record_text m"
    by (rule take_meta_body [OF assms(2)])
  have unchanged: ?thesis if "tr = [fs]" "r = -1" using that by (simp add: intact_def)
  show ?thesis
  proof (cases "length path + 11 \<ge> 4096 + 16 \<or> e_mkstemp e = None \<or> (\<exists>x. e_mkstemp e = Some x \<and> fs (path @ T_TMP @ x) \<noteq> None)")
    case True
    then show ?thesis using assms(1) False
      by (intro unchanged) (auto simp: hv_meta_write_def Let_def path_def case_prod_beta split: option.splits if_splits)
  next
    case ok: False
    then obtain x where x: "e_mkstemp e = Some x" "fs (path @ T_TMP @ x) = None" by auto
    define tmp where "tmp = path @ T_TMP @ x"
    have tmp: "fs tmp = None" "tmp \<noteq> path" using x(2) by (simp_all add: tmp_def T_TMP_def)
    obtain tr1 d where w: "write_loop e (record_text m) 0 tmp [fs(tmp := Some []), fs] = (tr1, d)" by force
    obtain states c where st: "tr1 = states @ [fs(tmp := Some []), fs]" "\<forall>g\<in>set states. \<forall>q. q \<noteq> tmp \<longrightarrow> g q = fs q"
      "hd tr1 tmp = Some c" "d \<longrightarrow> c = record_text m"
      using write_loop_states [OF w] by auto
    have other: "\<forall>g\<in>set tr1. \<forall>q. q \<noteq> tmp \<longrightarrow> g q = fs q" "hd tr1 \<in> set tr1"
      using st(1,2) by (auto, cases states, auto)
    have res: "(tr, r) = (if d \<and> \<not> e_rename e then ((hd tr1)(path := hd tr1 tmp, tmp := None) # tr1, 0)
        else (sys_unlink e tmp (hd tr1) # tr1, -1))"
      using assms(1) False ok x w body
      by (cases d) (auto simp: hv_meta_write_def Let_def path_def tmp_def case_prod_beta split: if_splits)
    have inner: "\<forall>g\<in>set tr1. intact path fs new g" 
      unfolding intact_def using other(1) tmp by (metis not_None_eq)
    have gone: "(hd tr1)(tmp := None) = fs" using other tmp(1) by (intro ext) auto
    show ?thesis
    proof (cases "d \<and> \<not> e_rename e")
      case True
      then have "(hd tr1)(path := hd tr1 tmp, tmp := None) = fs(path := new)"
        using st(3,4) False other tmp by (auto simp: new_def fun_eq_iff)
      then show ?thesis using True res inner by (auto simp: intact_def)
    next
      case no: False
      have "sys_unlink e tmp (hd tr1) path = fs path" using other tmp(2) by (simp add: sys_unlink_def)
      moreover have "intact path fs new (sys_unlink e tmp (hd tr1))"
      proof (cases "e_unlink e")
        case True
        then show ?thesis using inner other(2) by (simp add: sys_unlink_def)
      next
        case False
        then show ?thesis using gone by (simp add: sys_unlink_def intact_def)
      qed
      ultimately show ?thesis using no res inner gone by (auto simp: sys_unlink_def)
    qed
  qed
qed

text \<open>C26. Writing metadata is atomic: every state of the file system that another process can see while
  \<open>hv_meta_write\<close> runs has in the sidecar either what was there before or the complete new record (nothing, for
  default metadata), and in every other file what was there before. A return of 0 means that the new record and nothing
  else is in place; a return of -1 means that the sidecar is as it was, and, unless removing the temporary file
  failed too, so is everything else.\<close>

theorem meta_write_atomic:
  assumes "hv_meta_write e f m fs = (tr, r)" and "meta_ok m"
    and "new = (if hv_meta_is_default m then None else Some (record_text m))"
  shows "(\<forall>g\<in>set tr. (g (sidecar_of f) = fs (sidecar_of f) \<or> g (sidecar_of f) = new) \<and>
      (\<forall>q. q \<noteq> sidecar_of f \<and> fs q \<noteq> None \<longrightarrow> g q = fs q)) \<and>
    (r = 0 \<and> hd tr = fs(sidecar_of f := new) \<or>
     r = -1 \<and> hd tr (sidecar_of f) = fs (sidecar_of f) \<and> (\<not> e_unlink e \<longrightarrow> hd tr = fs))"
  using write_outcome [OF assms(1,2)] assms(3) by (simp add: intact_def)

definition calm :: posix where
  "calm = \<lparr>e_open = False, e_read = (\<lambda>_. Some 16), e_unlink = False, e_mkstemp = Some [0x61, 0x62, 0x63, 0x64, 0x65, 0x66],
           e_write = (\<lambda>_. Some 7), e_rename = False\<rparr>"

definition sample_meta :: hv_meta where
  "sample_meta = \<lparr>prot = 0x15, comment = [0x68, 0x69, 0x0A, 0x25] @ replicate 77 0\<rparr>"

text \<open>C25. Metadata survives in its sidecar: after a write that returned 0, reading without I/O errors gives the same
  protection word and the same comment, whatever bytes it has, and returns 1, or 0 when the metadata is the default
  and no sidecar is kept.\<close>

theorem meta_round_trip:
  assumes "hv_meta_write e f m fs = (tr, 0)" and "meta_ok m" and "meta_ok out"
    and "\<not> e_open e'" and "\<forall>i. e_read e' i \<noteq> None"
  shows "\<exists>m'. hv_meta_read e' f out (hd tr) = (if hv_meta_is_default m then 0 else 1, m') \<and>
    prot m' = prot m \<and> c_string (comment m') = c_string (comment m)"
proof -
  let ?out = "out\<lparr>prot := HV_PROT_DEFAULT, comment := (comment out)[0 := 0]\<rparr>"
  have fs: "hd tr (sidecar_of f) = (if hv_meta_is_default m then None else Some (record_text m))"
    using write_outcome [OF assms(1,2)] by auto
  have ne: "comment out \<noteq> []" using assms(3) by (auto simp: meta_ok_def)
  then have first: "byte_at ((comment out)[0 := 0]) 0 = 0" by (cases "comment out") simp_all
  show ?thesis
  proof (cases "hv_meta_is_default m")
    case True
    have "c_string s = []" if "byte_at s 0 = 0" for s using that c_string_zeros [of "[]" s] by simp
    then show ?thesis using True fs first assms(4)
      by (simp add: hv_meta_read_def Let_def hv_meta_is_default_def)
  next
    case False
    have len: "length (record_text m) < BUF_MAX" using record_text_length [OF assms(2)] by (simp add: BUF_MAX_def)
    have "meta_ok ?out" using assms(3) first ne by (cases "comment out") (auto simp: meta_ok_def)
    then obtain m' where m': "parse_lines (record_text m) (False, ?out) = (True, m')" "stored m m'"
      using parse_record [OF assms(2), of ?out] first by auto
    have "read_loop e' (record_text m) 0 = Some (length (record_text m))"
      using read_loop_all [OF assms(5) len] by simp
    then show ?thesis using False fs m' assms(4) c_string_id [OF record_text_plain [of m]]
      by (simp add: hv_meta_read_def Let_def stored_def)
  qed
qed

subsection \<open>Sidecar names\<close>

lemma sidecar_path_fitted:
  "length dst = cap \<Longrightarrow> hv_sidecar_path f dst cap =
    fitted cap (path_dir (c_string f) @ 0x2E # path_base (c_string f) @ SUFFIX) dst"
  by (simp add: hv_sidecar_path_def Let_def put1_puts terminate_puts)

lemma sidecar_of_path:
  assumes "length (c_string f) < 4000"
  shows "sidecar_of f = path_dir (c_string f) @ 0x2E # path_base (c_string f) @ SUFFIX"
proof -
  have "length (path_dir (c_string f)) \<le> length (c_string f)" "length (path_base (c_string f)) \<le> length (c_string f)"
    "path_dir (c_string f) @ path_base (c_string f) = c_string f"
    unfolding path_dir_def path_base_def
    by (metis length_dropWhile_le length_rev, metis length_takeWhile_le length_rev,
        metis rev_append rev_rev_ident takeWhile_dropWhile_id)
  moreover from this(3) have "length (path_dir (c_string f)) + length (path_base (c_string f)) = length (c_string f)"
    by (metis length_append)
  moreover have "0 \<notin> set (path_dir (c_string f))" "0 \<notin> set (path_base (c_string f))"
    using c_string_no_nul [of f] by (auto simp: path_dir_def path_base_def dest: set_takeWhileD set_dropWhileD)
  ultimately show ?thesis
    using assms by (auto simp: sidecar_of_def sidecar_path_fitted SUFFIX_def intro!: c_string_fitted)
qed

subsection \<open>Witnesses\<close>

lemma sample_ok: "meta_ok sample_meta" "\<not> hv_meta_is_default sample_meta"
  by (simp_all add: meta_ok_def sample_meta_def HV_COMMENT_MAX_def hv_meta_is_default_def HV_PROT_DEFAULT_def)

lemma write_loop_succeeds: "\<forall>i. e_write e i \<noteq> None \<Longrightarrow> snd (write_loop e body wr tmp tr)"
proof (induction e body wr tmp tr rule: write_loop.induct)
  case (1 e body wr tmp tr)
  obtain k where "e_write e wr = Some k" using 1(2) by blast
  then show ?case using 1 by (subst write_loop.simps) (simp add: Let_def)
qed

lemma calm_write: "\<exists>tr. hv_meta_write calm [0x66] sample_meta Map.empty = (tr, 0)"
proof -
  have "sidecar_of [0x66] = [0x2E, 0x66] @ SUFFIX"
    using sidecar_of_path [of "[0x66]"] by (simp add: c_string_def path_dir_def path_base_def)
  moreover have "snd (write_loop calm body 0 tmp tr)" for body tmp tr
    by (rule write_loop_succeeds) (simp add: calm_def)
  ultimately show ?thesis using sample_ok(2)
    by (simp add: hv_meta_write_def Let_def case_prod_beta calm_def SUFFIX_def split: bool.split)
qed

theorem meta_write_atomic_witness:
  "\<exists>tr. hv_meta_write calm [0x66] sample_meta Map.empty = (tr, 0) \<and>
    hd tr = [sidecar_of [0x66] \<mapsto> record_text sample_meta]"
proof -
  obtain tr where tr: "hv_meta_write calm [0x66] sample_meta Map.empty = (tr, 0)" using calm_write by blast
  then show ?thesis using meta_write_atomic [OF tr sample_ok(1) refl] sample_ok(2) by simp
qed

theorem meta_round_trip_witness:
  "\<exists>tr m'. hv_meta_write calm [0x66] sample_meta Map.empty = (tr, 0) \<and>
    hv_meta_read calm [0x66] \<lparr>prot = 9, comment = replicate 81 0\<rparr> (hd tr) = (1, m') \<and>
    prot m' = 0x15 \<and> c_string (comment m') = [0x68, 0x69, 0x0A, 0x25]"
proof -
  obtain tr where tr: "hv_meta_write calm [0x66] sample_meta Map.empty = (tr, 0)" using calm_write by blast
  have "meta_ok \<lparr>prot = 9, comment = replicate 81 0\<rparr>" by (simp add: meta_ok_def HV_COMMENT_MAX_def)
  from meta_round_trip [OF tr sample_ok(1) this, of calm] tr sample_ok(2) show ?thesis
    by (simp add: calm_def sample_meta_def c_string_def)
qed

end
