(* ===== verification/EmuGuest.thy ===== *)
theory EmuGuest
  imports HunkLoader
begin

unbundle bit_operations_syntax

text \<open>
  Guest memory as the 68k service of \<open>hosted/emu68k/emu68k_host.c\<close> sees it: the accessors that store 68k values
  big-endian in the arena, the bump allocator behind every guest allocation, and the guest strings.

  The arena is the \<open>j4_sandbox\<close> of the hunk loader. Every address test is the one of the code, on 32-bit words
  where the code adds 32-bit words and on unbounded numbers where it widens to 64 bits. The fields of
  \<open>struct emu68k_run\<close> that the modelled operations use are the fields of \<open>emu_run\<close>.
\<close>

subsection \<open>The accessors\<close>

definition gread8 :: "sandbox \<Rightarrow> u32 \<Rightarrow> u8" where
  "gread8 s a = host_mem s (j4_sandbox_host s a)"

definition gwrite8 :: "sandbox \<Rightarrow> u32 \<Rightarrow> u8 \<Rightarrow> sandbox" where
  "gwrite8 s a v =
     (if a < sandbox_origin s \<or> a \<ge> sandbox_origin s + sb_size s then s
      else s\<lparr>host_mem := (host_mem s)(j4_sandbox_host s a := v)\<rparr>)"

definition gread32 :: "sandbox \<Rightarrow> u32 \<Rightarrow> u32" where
  "gread32 s a =
     (if a < sandbox_origin s \<or> a + 4 > sandbox_origin s + sb_size s then 0
      else sb_read_be32 (host_mem s) (j4_sandbox_host s a))"

definition gwrite32 :: "sandbox \<Rightarrow> u32 \<Rightarrow> u32 \<Rightarrow> sandbox" where
  "gwrite32 s a v =
     (if a < sandbox_origin s \<or> a + 4 > sandbox_origin s + sb_size s then s
      else s\<lparr>host_mem := sb_write_be32 (host_mem s) (j4_sandbox_host s a) v\<rparr>)"

definition gread16 :: "sandbox \<Rightarrow> u32 \<Rightarrow> u32" where
  "gread16 s a =
     (if a < sandbox_origin s \<or> a + 2 > sandbox_origin s + sb_size s then 0
      else push_bit 8 (ucast (host_mem s (j4_sandbox_host s a))) OR ucast (host_mem s (j4_sandbox_host s a + 1)))"

definition gwrite16 :: "sandbox \<Rightarrow> u32 \<Rightarrow> u32 \<Rightarrow> sandbox" where
  "gwrite16 s a v =
     (if a < sandbox_origin s \<or> a + 2 > sandbox_origin s + sb_size s then s
      else s\<lparr>host_mem := (host_mem s)(j4_sandbox_host s a := ucast (drop_bit 8 v),
                                      j4_sandbox_host s a + 1 := ucast v)\<rparr>)"

definition guest_span_ok :: "sandbox \<Rightarrow> u32 \<Rightarrow> u32 \<Rightarrow> bool" where
  "guest_span_ok s a n \<longleftrightarrow>
     a \<ge> sandbox_origin s \<and> unat a + unat n \<le> unat (sandbox_origin s) + unat (sb_size s)"

text \<open>\<open>memset\<close> and \<open>memcpy\<close> through the host pointer of a guest address.\<close>

definition gfill :: "sandbox \<Rightarrow> u32 \<Rightarrow> u8 \<Rightarrow> nat \<Rightarrow> sandbox" where
  "gfill s a v n =
     s\<lparr>host_mem := (\<lambda>i. if j4_sandbox_host s a \<le> i \<and> i < j4_sandbox_host s a + n then v else host_mem s i)\<rparr>"

definition gput :: "sandbox \<Rightarrow> u32 \<Rightarrow> u8 list \<Rightarrow> sandbox" where
  "gput s a bs = s\<lparr>host_mem := mem_copy (host_mem s) (j4_sandbox_host s a) bs\<rparr>"

definition gbytes :: "sandbox \<Rightarrow> u32 \<Rightarrow> nat \<Rightarrow> u8 list" where
  "gbytes s a n = map (host_mem s) [j4_sandbox_host s a ..< j4_sandbox_host s a + n]"

definition emu68k_guest_cstr :: "sandbox \<Rightarrow> u32 \<Rightarrow> u8 list option" where
  "emu68k_guest_cstr s a =
     (if a < sandbox_origin s \<or> a \<ge> sandbox_origin s + sb_size s then None
      else let bs = gbytes s a (unat (sandbox_origin s + sb_size s - a)) in
        if 0 \<notin> set bs then None else Some (takeWhile (\<lambda>b. b \<noteq> 0) bs))"

subsection \<open>The run and its allocator\<close>

record emu_run =
  run_sb :: sandbox
  exec_heap :: u32
  exec_heap_end :: u32

definition emu68k_guest_alloc :: "'a emu_run_scheme \<Rightarrow> u32 \<Rightarrow> u32 \<times> 'a emu_run_scheme" where
  "emu68k_guest_alloc r size0 =
     (let size = (size0 + 7) AND NOT 7 in
      if size = 0 \<or> exec_heap r + size > exec_heap_end r then (0, r)
      else let a = exec_heap r; top = a + size; s = run_sb r;
             s = (if next_alloc s < top then s\<lparr>next_alloc := top\<rparr> else s)
           in (a, r\<lparr>exec_heap := top, run_sb := gfill s a 0 (unat size)\<rparr>))"

definition emu68k_guest_strdup :: "'a emu_run_scheme \<Rightarrow> u8 list \<Rightarrow> u32 \<times> 'a emu_run_scheme" where
  "emu68k_guest_strdup r txt =
     (case emu68k_guest_alloc r (of_nat (length txt) + 1) of (a, r') \<Rightarrow>
        if a = 0 then (0, r') else (a, r'\<lparr>run_sb := gput (run_sb r') a (txt @ [0])\<rparr>))"

subsection \<open>Arenas that do not wrap\<close>

definition arena_ok :: "sandbox \<Rightarrow> bool" where
  "arena_ok s \<longleftrightarrow> 0 < unat (sandbox_origin s) \<and> unat (sandbox_origin s) + unat (sb_size s) < 2 ^ 32"

definition run_ok :: "'a emu_run_scheme \<Rightarrow> bool" where
  "run_ok r \<longleftrightarrow> arena_ok (run_sb r) \<and> unat (sandbox_origin (run_sb r)) \<le> unat (exec_heap r) \<and>
     unat (exec_heap r) \<le> unat (exec_heap_end r) \<and>
     unat (exec_heap_end r) \<le> unat (sandbox_origin (run_sb r)) + unat (sb_size (run_sb r))"

text \<open>The \<open>n\<close> bytes at \<open>a\<close> lie inside the arena.\<close>

definition inside :: "sandbox \<Rightarrow> u32 \<Rightarrow> nat \<Rightarrow> bool" where
  "inside s a n \<longleftrightarrow> unat (sandbox_origin s) \<le> unat a \<and> unat a + n \<le> unat (sandbox_origin s) + unat (sb_size s)"

lemma guest_span_inside: "guest_span_ok s a n \<longleftrightarrow> inside s a (unat n)"
  by (auto simp: guest_span_ok_def inside_def word_le_nat_alt)

named_theorems guest "the arena geometry is unchanged by writes"

lemma region_write [guest]:
  "sandbox_origin (gwrite32 s a v) = sandbox_origin s" "sb_size (gwrite32 s a v) = sb_size s"
  "sandbox_origin (gwrite16 s a v) = sandbox_origin s" "sb_size (gwrite16 s a v) = sb_size s"
  "sandbox_origin (gwrite8 s a b) = sandbox_origin s" "sb_size (gwrite8 s a b) = sb_size s"
  "sandbox_origin (gfill s a b n) = sandbox_origin s" "sb_size (gfill s a b n) = sb_size s"
  "sandbox_origin (gput s a bs) = sandbox_origin s" "sb_size (gput s a bs) = sb_size s"
  "next_alloc (gwrite32 s a v) = next_alloc s" "next_alloc (gwrite16 s a v) = next_alloc s"
  "next_alloc (gwrite8 s a b) = next_alloc s" "next_alloc (gfill s a b n) = next_alloc s"
  "next_alloc (gput s a bs) = next_alloc s"
  by (simp_all add: gwrite32_def gwrite16_def gwrite8_def gfill_def gput_def)

lemma arena_write [simp]:
  "arena_ok (gwrite32 s a v) = arena_ok s" "arena_ok (gwrite16 s a v) = arena_ok s"
  "arena_ok (gwrite8 s a b) = arena_ok s" "arena_ok (gfill s a b n) = arena_ok s" "arena_ok (gput s a bs) = arena_ok s"
  "inside (gwrite32 s a v) = inside s" "inside (gwrite16 s a v) = inside s" "inside (gwrite8 s a b) = inside s"
  "inside (gfill s a b n) = inside s" "inside (gput s a bs) = inside s"
  by (simp_all add: arena_ok_def inside_def guest fun_eq_iff)

lemma region_alloc [simp]:
  "sandbox_origin (s\<lparr>next_alloc := v\<rparr>) = sandbox_origin s" "sb_size (s\<lparr>next_alloc := v\<rparr>) = sb_size s"
  by simp_all

lemma inside_mono: "inside s a n \<Longrightarrow> m \<le> n \<Longrightarrow> inside s a m"
  by (simp add: inside_def)

lemma unat_offset:
  assumes "inside s a n" "arena_ok s" "unat (k :: u32) \<le> n"
  shows "unat (a + k) = unat a + unat k"
  using assms by (subst unat_plus_if') (auto simp: inside_def arena_ok_def)

lemma inside_offset: "inside s a n \<Longrightarrow> arena_ok s \<Longrightarrow> unat (k :: u32) + m \<le> n \<Longrightarrow> inside s (a + k) m"
  using unat_offset [of s a n k] by (auto simp: inside_def)

lemma inside_nonzero: "inside s a n \<Longrightarrow> arena_ok s \<Longrightarrow> a \<noteq> 0"
  by (auto simp: inside_def arena_ok_def)

lemma guest_host: "inside s a n \<Longrightarrow> j4_sandbox_host s a = unat a - unat (sandbox_origin s)"
  by (simp add: j4_sandbox_host_def inside_def unat_sub word_le_nat_alt)

lemma accepts32:
  assumes "inside s a 4" "arena_ok s"
  shows "\<not> (a < sandbox_origin s \<or> a + 4 > sandbox_origin s + sb_size s)"
proof -
  have "unat (a + 4) = unat a + 4" using unat_offset [OF assms, of 4] by simp
  moreover have "unat (sandbox_origin s + sb_size s) = unat (sandbox_origin s) + unat (sb_size s)"
    using assms(2) by (subst unat_plus_if') (auto simp: arena_ok_def)
  ultimately show ?thesis using assms(1) by (auto simp: inside_def word_less_nat_alt)
qed

lemma read_in: "inside s a 4 \<Longrightarrow> arena_ok s \<Longrightarrow> gread32 s a = sb_read_be32 (host_mem s) (unat a - unat (sandbox_origin s))"
  using accepts32 [of s a] by (simp add: gread32_def guest_host)

lemma write_in:
  "inside s a 4 \<Longrightarrow> arena_ok s \<Longrightarrow>
   gwrite32 s a v = s\<lparr>host_mem := sb_write_be32 (host_mem s) (unat a - unat (sandbox_origin s)) v\<rparr>"
  using accepts32 [of s a] by (simp add: gwrite32_def guest_host)

lemma gread_gwrite_same: "inside s a 4 \<Longrightarrow> arena_ok s \<Longrightarrow> gread32 (gwrite32 s a v) a = v"
  by (subst read_in) (simp_all add: guest, simp add: write_in)

text \<open>The host bytes of a range, by guest address.\<close>

definition apart :: "u32 \<Rightarrow> nat \<Rightarrow> u32 \<Rightarrow> nat \<Rightarrow> bool" where
  "apart a n b m \<longleftrightarrow> unat a + n \<le> unat b \<or> unat b + m \<le> unat a"

lemma apart_sym: "apart a n b m \<Longrightarrow> apart b m a n"
  by (auto simp: apart_def)

lemma gread_gwrite_other:
  assumes "inside s a 4" "inside s b 4" "arena_ok s" "apart a 4 b 4"
  shows "gread32 (gwrite32 s a v) b = gread32 s b"
proof -
  have "unat b - unat (sandbox_origin s) + 4 \<le> unat a - unat (sandbox_origin s) \<or>
        unat a - unat (sandbox_origin s) + 4 \<le> unat b - unat (sandbox_origin s)"
    using assms by (auto simp: inside_def apart_def)
  with assms show ?thesis by (simp add: read_in guest) (simp add: write_in read_write_other)
qed

text \<open>The host bytes that a guest range occupies.\<close>

definition host_range :: "sandbox \<Rightarrow> u32 \<Rightarrow> nat \<Rightarrow> nat set" where
  "host_range s a n = {unat a - unat (sandbox_origin s) ..< unat a - unat (sandbox_origin s) + n}"

subsection \<open>Agreement of arenas\<close>

text \<open>Two arenas with the same geometry that agree on a set of host bytes.\<close>

definition same_arena :: "sandbox \<Rightarrow> sandbox \<Rightarrow> bool" where
  "same_arena s s' \<longleftrightarrow> sandbox_origin s' = sandbox_origin s \<and> sb_size s' = sb_size s \<and> next_alloc s' = next_alloc s"

definition agree_on :: "nat set \<Rightarrow> sandbox \<Rightarrow> sandbox \<Rightarrow> bool" where
  "agree_on K s s' \<longleftrightarrow> same_arena s s' \<and> (\<forall>i \<in> K. host_mem s' i = host_mem s i)"

lemma same_arenaD: "same_arena s s' \<Longrightarrow> arena_ok s' = arena_ok s" "same_arena s s' \<Longrightarrow> inside s' = inside s"
  "same_arena s s' \<Longrightarrow> host_range s' = host_range s"
  by (auto simp: same_arena_def arena_ok_def inside_def host_range_def fun_eq_iff)

lemma agree_trans: "agree_on K s s' \<Longrightarrow> agree_on K s' s'' \<Longrightarrow> agree_on K s s''"
  by (auto simp: agree_on_def same_arena_def)

lemma agree_mono: "agree_on K s s' \<Longrightarrow> J \<subseteq> K \<Longrightarrow> agree_on J s s'"
  by (auto simp: agree_on_def)

lemma agree_read:
  assumes "agree_on K s s'" "inside s a n" "arena_ok s" "unat k + 4 \<le> n" "host_range s a n \<subseteq> K"
  shows "gread32 s' (a + k) = gread32 s (a + k)"
proof -
  have ik: "inside s (a + k) 4" using inside_offset assms by blast
  have ak: "unat (a + k) = unat a + unat k" using unat_offset assms by simp
  have sub: "i \<in> K" if "unat (a + k) - unat (sandbox_origin s) \<le> i" "i < unat (a + k) - unat (sandbox_origin s) + 4" for i
  proof -
    have "i \<in> host_range s a n" using that ak assms(2,4) unfolding host_range_def inside_def atLeastLessThan_iff by linarith
    with assms(5) show ?thesis by blast
  qed
  have sa: "same_arena s s'" using assms(1) by (simp add: agree_on_def)
  then have "sandbox_origin s' = sandbox_origin s" by (simp add: same_arena_def)
  then have "gread32 s' (a + k) = sb_read_be32 (host_mem s') (unat (a + k) - unat (sandbox_origin s))"
    using ik assms(3) same_arenaD [OF sa] by (subst read_in) simp_all
  also have "\<dots> = sb_read_be32 (host_mem s) (unat (a + k) - unat (sandbox_origin s))"
    by (rule read_cong) (use sub assms(1) in \<open>auto simp: agree_on_def\<close>)
  finally show ?thesis using ik assms(3) by (simp add: read_in)
qed

lemma write_agree:
  assumes "inside s a n" "arena_ok s" "unat k + 4 \<le> n"
  shows "agree_on (- host_range s a n) s (gwrite32 s (a + k) v)"
proof -
  have ik: "inside s (a + k) 4" using inside_offset assms by blast
  have "unat (a + k) = unat a + unat k" using unat_offset assms by simp
  then show ?thesis using assms ik
    by (auto simp: agree_on_def same_arena_def guest write_in host_range_def inside_def intro!: sb_write_outside)
qed

lemma agree_read4:
  assumes "agree_on K s s'" "inside s a 4" "arena_ok s" "host_range s a 4 \<subseteq> K"
  shows "gread32 s' a = gread32 s a"
  using agree_read [OF assms(1,2,3) _ assms(4), of 0] by simp

subsection \<open>Allocation\<close>

text \<open>What one guest allocation does.\<close>

lemma rounded8: "unat ((n + 7) AND NOT (7 :: u32)) = unat (n + 7) - unat (n + 7) mod 8"
proof -
  have "(7 :: u32) = mask 3" by (simp add: mask_eq_exp_minus_1)
  then show ?thesis using unat_and_not_mask [of "n + 7" 3] by simp
qed

definition round8 :: "nat \<Rightarrow> nat" where
  "round8 n = 8 * ((n + 7) div 8)"

lemma round8_le: "n \<le> round8 n"
  by (simp add: round8_def)

lemma rounded8_nat:
  assumes "unat (n :: u32) + 7 < 2 ^ 32"
  shows "unat ((n + 7) AND NOT 7) = round8 (unat n)"
proof -
  have "unat (n + 7) = unat n + 7" using assms by (subst unat_plus_if') auto
  then show ?thesis by (simp only: rounded8 round8_def minus_mod_eq_mult_div)
qed

lemma rounded8_wraps:
  assumes "2 ^ 32 \<le> unat (n :: u32) + 7"
  shows "(n + 7) AND NOT 7 = 0" "round8 (unat n) = 2 ^ 32"
proof -
  have lt: "unat n < 2 ^ 32" by (rule unat_u32)
  have "unat (n + 7) = unat n + 7 - 2 ^ 32" using assms by (subst unat_plus_if') auto
  then have "unat (n + 7) < 8" using lt by simp
  then have "unat ((n + 7) AND NOT 7) = 0" by (simp only: rounded8) simp
  then show "(n + 7) AND NOT 7 = 0" by (simp only: unat_eq_0)
  have "(unat n + 7) div 8 = 2 ^ 29" using assms lt by auto
  then show "round8 (unat n) = 2 ^ 32" by (simp add: round8_def)
qed

lemma gfill_bytes:
  "host_mem (gfill s a v n) i = (if j4_sandbox_host s a \<le> i \<and> i < j4_sandbox_host s a + n then v else host_mem s i)"
  by (simp add: gfill_def)

lemma alloc_fits:
  assumes ok: "run_ok r" and n: "0 < unat sz" and fits: "unat (exec_heap r) + round8 (unat sz) \<le> unat (exec_heap_end r)"
  obtains r' where "emu68k_guest_alloc r sz = (exec_heap r, r')" "run_ok r'"
    "unat (exec_heap r') = unat (exec_heap r) + round8 (unat sz)" "exec_heap_end r' = exec_heap_end r"
    "inside (run_sb r') = inside (run_sb r)" "inside (run_sb r) (exec_heap r) (round8 (unat sz))"
    "sandbox_origin (run_sb r') = sandbox_origin (run_sb r)"
    "\<And>i. host_mem (run_sb r') i =
       (if i \<in> host_range (run_sb r) (exec_heap r) (round8 (unat sz)) then 0 else host_mem (run_sb r) i)"
proof -
  let ?s = "run_sb r"
  define n where "n = (sz + 7) AND NOT 7"
  have b: "unat (exec_heap_end r) < 2 ^ 32" by (rule unat_u32)
  have "unat sz + 7 < 2 ^ 32"
  proof (rule ccontr)
    assume "\<not> unat sz + 7 < 2 ^ 32"
    then have "round8 (unat sz) = 2 ^ 32" using rounded8_wraps(2) [of sz] by linarith
    then show False using fits b by linarith
  qed
  then have un: "unat n = round8 (unat sz)" unfolding n_def by (rule rounded8_nat)
  have nz: "n \<noteq> 0" using n un round8_le [of "unat sz"] by (metis leD unat_0)
  have top: "unat (exec_heap r + n) = unat (exec_heap r) + round8 (unat sz)"
    using fits b un by (subst unat_plus_if') auto
  have go: "\<not> exec_heap r + n > exec_heap_end r" using fits top by (simp add: word_less_nat_alt)
  have ins: "inside ?s (exec_heap r) (round8 (unat sz))"
    using ok fits by (auto simp: run_ok_def inside_def)
  define s' where "s' = (if next_alloc ?s < exec_heap r + n then ?s\<lparr>next_alloc := exec_heap r + n\<rparr> else ?s)"
  define r' where "r' = r\<lparr>exec_heap := exec_heap r + n, run_sb := gfill s' (exec_heap r) 0 (unat n)\<rparr>"
  have geo: "sandbox_origin s' = sandbox_origin ?s" "sb_size s' = sb_size ?s" "host_mem s' = host_mem ?s"
    by (simp_all add: s'_def)
  show thesis
  proof
    show "emu68k_guest_alloc r sz = (exec_heap r, r')"
      using nz go unfolding emu68k_guest_alloc_def n_def [symmetric] Let_def by (simp add: r'_def s'_def)
    show "unat (exec_heap r') = unat (exec_heap r) + round8 (unat sz)" by (simp add: r'_def top)
    show "exec_heap_end r' = exec_heap_end r" by (simp add: r'_def)
    show "inside (run_sb r') = inside ?s" using geo by (auto simp: r'_def inside_def guest fun_eq_iff)
    show "inside ?s (exec_heap r) (round8 (unat sz))" by (rule ins)
    show "sandbox_origin (run_sb r') = sandbox_origin ?s" using geo by (simp add: r'_def guest)
    show "run_ok r'" using ok geo fits by (simp add: run_ok_def arena_ok_def r'_def guest top)
    show "host_mem (run_sb r') i =
       (if i \<in> host_range ?s (exec_heap r) (round8 (unat sz)) then 0 else host_mem ?s i)" for i
      using guest_host [OF ins] geo
      by (simp add: r'_def gfill_bytes host_range_def un j4_sandbox_host_def)
  qed
qed

lemma alloc_refused:
  assumes "round8 (unat sz) = 0 \<or> round8 (unat sz) = 2 ^ 32 \<or>
      (unat (exec_heap_end r) < unat (exec_heap r) + round8 (unat sz) \<and> unat (exec_heap r) + round8 (unat sz) < 2 ^ 32)"
  shows "emu68k_guest_alloc r sz = (0, r)"
proof (cases "unat sz + 7 < 2 ^ 32")
  case True
  define n where "n = (sz + 7) AND NOT 7"
  have un: "unat n = round8 (unat sz)" unfolding n_def by (rule rounded8_nat [OF True])
  have "round8 (unat sz) \<noteq> 2 ^ 32" using un unat_u32 [of n] by linarith
  moreover have "n = 0 \<or> exec_heap r + n > exec_heap_end r" if "unat n = 0 \<or> unat (exec_heap_end r) < unat (exec_heap r) + unat n \<and> unat (exec_heap r) + unat n < 2 ^ 32"
  proof -
    have "unat (exec_heap r + n) = unat (exec_heap r) + unat n" if "unat (exec_heap r) + unat n < 2 ^ 32"
      using that by (subst unat_plus_if') auto
    then show ?thesis using that by (auto simp: word_less_nat_alt unat_eq_0)
  qed
  ultimately have "n = 0 \<or> exec_heap r + n > exec_heap_end r" using assms un by metis
  then show ?thesis unfolding emu68k_guest_alloc_def n_def [symmetric] Let_def by auto
next
  case False
  then show ?thesis unfolding emu68k_guest_alloc_def using rounded8_wraps(1) [of sz] by (simp only: Let_def) simp
qed

lemma alloc_wraps:
  assumes n: "0 < round8 (unat sz)" "round8 (unat sz) < 2 ^ 32" and over: "2 ^ 32 \<le> unat (exec_heap r) + round8 (unat sz)"
    and ok: "run_ok r"
  obtains r' where "emu68k_guest_alloc r sz = (exec_heap r, r')"
    "unat (exec_heap r') = unat (exec_heap r) + round8 (unat sz) - 2 ^ 32"
    "\<And>i. i \<in> host_range (run_sb r) (exec_heap r) (round8 (unat sz)) \<Longrightarrow> host_mem (run_sb r') i = 0"
proof -
  define n where "n = (sz + 7) AND NOT 7"
  have "unat sz + 7 < 2 ^ 32" using n(2) rounded8_wraps(2) [of sz] by linarith
  then have un: "unat n = round8 (unat sz)" unfolding n_def by (rule rounded8_nat)
  have h: "unat (exec_heap r) < 2 ^ 32" by (rule unat_u32)
  have top: "unat (exec_heap r + n) = unat (exec_heap r) + round8 (unat sz) - 2 ^ 32"
    using over un by (subst unat_plus_if') auto
  have "unat (exec_heap r) \<le> unat (exec_heap_end r)" using ok by (simp add: run_ok_def)
  then have go: "n \<noteq> 0" "\<not> exec_heap r + n > exec_heap_end r"
    using n un top by (auto simp: word_less_nat_alt)
  let ?s = "run_sb r"
  define s' where "s' = (if next_alloc ?s < exec_heap r + n then ?s\<lparr>next_alloc := exec_heap r + n\<rparr> else ?s)"
  define r' where "r' = r\<lparr>exec_heap := exec_heap r + n, run_sb := gfill s' (exec_heap r) 0 (unat n)\<rparr>"
  have geo: "sandbox_origin s' = sandbox_origin ?s" by (simp add: s'_def)
  have off: "j4_sandbox_host s' (exec_heap r) = unat (exec_heap r) - unat (sandbox_origin ?s)"
    using ok geo by (simp add: j4_sandbox_host_def run_ok_def unat_sub word_le_nat_alt)
  show thesis
  proof
    show "emu68k_guest_alloc r sz = (exec_heap r, r')"
      using go unfolding emu68k_guest_alloc_def n_def [symmetric] Let_def by (simp add: r'_def s'_def)
    show "unat (exec_heap r') = unat (exec_heap r) + round8 (unat sz) - 2 ^ 32" by (simp add: r'_def top)
    show "host_mem (run_sb r') i = 0" if "i \<in> host_range ?s (exec_heap r) (round8 (unat sz))" for i
      using that off by (simp add: r'_def gfill_bytes host_range_def un)
  qed
qed

text \<open>C27. What one guest allocation does, for every request size. A request of 0 bytes, one that rounds up to
  \<open>2 ^ 32\<close>, or one that ends above the heap without passing \<open>2 ^ 32\<close> is refused and changes nothing. One that fits
  below the end of the heap is served at the heap cursor, zeroed, inside the arena, with every other byte
  untouched. A request so large that the cursor plus its size passes \<open>2 ^ 32\<close> is not refused: the 32-bit sum wraps
  below the end of the heap, the call returns the cursor, moves it DOWN, and the \<open>memset\<close> clears host memory past the arena.\<close>

theorem guest_alloc_outcomes:
  assumes "run_ok r"
  shows "let n = round8 (unat sz); top = unat (exec_heap r) + n; s = run_sb r; (a, r') = emu68k_guest_alloc r sz in
     if n = 0 \<or> n = 2 ^ 32 \<or> unat (exec_heap_end r) < top \<and> top < 2 ^ 32 then a = 0 \<and> r' = r
     else if top \<le> unat (exec_heap_end r) then
       a = exec_heap r \<and> inside s a n \<and> run_ok r' \<and> unat (exec_heap r') = top \<and>
       (\<forall>i. host_mem (run_sb r') i = (if i \<in> host_range s a n then 0 else host_mem s i))
     else a = exec_heap r \<and> \<not> inside s a n \<and> unat (exec_heap r') = top - 2 ^ 32 \<and>
       (\<forall>i \<in> host_range s a n. host_mem (run_sb r') i = 0)"
proof -
  let ?n = "round8 (unat sz)" and ?top = "unat (exec_heap r) + round8 (unat sz)"
  have le: "?n \<le> 2 ^ 32"
    using rounded8_wraps(2) [of sz] rounded8_nat [of sz] unat_u32 [of "(sz + 7) AND NOT 7"] by linarith
  consider "?n = 0 \<or> ?n = 2 ^ 32 \<or> unat (exec_heap_end r) < ?top \<and> ?top < 2 ^ 32"
    | "?n \<noteq> 0" "?top \<le> unat (exec_heap_end r)"
    | "?n \<noteq> 0" "?n < 2 ^ 32" "2 ^ 32 \<le> ?top"
    using le by linarith
  then show ?thesis
  proof cases
    case 1
    then show ?thesis using alloc_refused [of sz r] by (simp add: Let_def)
  next
    case 2
    have "0 < unat sz" using 2(1) by (cases "unat sz = 0") (auto simp: round8_def)
    with 2 obtain r' where "emu68k_guest_alloc r sz = (exec_heap r, r')" "run_ok r'" "unat (exec_heap r') = ?top"
      "inside (run_sb r) (exec_heap r) ?n"
      "\<And>i. host_mem (run_sb r') i = (if i \<in> host_range (run_sb r) (exec_heap r) ?n then 0 else host_mem (run_sb r) i)"
      using alloc_fits [OF assms, of sz] by metis
    moreover have "\<not> (?n = 0 \<or> ?n = 2 ^ 32 \<or> unat (exec_heap_end r) < ?top \<and> ?top < 2 ^ 32)"
      using 2 unat_u32 [of "exec_heap_end r"] by linarith
    ultimately show ?thesis using 2 by (simp add: Let_def)
  next
    case 3
    then obtain r' where "emu68k_guest_alloc r sz = (exec_heap r, r')" "unat (exec_heap r') = ?top - 2 ^ 32"
      "\<And>i. i \<in> host_range (run_sb r) (exec_heap r) ?n \<Longrightarrow> host_mem (run_sb r') i = 0"
      using alloc_wraps [of sz r] assms by auto
    moreover have "\<not> inside (run_sb r) (exec_heap r) ?n"
      using 3 assms by (auto simp: inside_def run_ok_def arena_ok_def)
    moreover have "\<not> ?top \<le> unat (exec_heap_end r)" using 3 unat_u32 [of "exec_heap_end r"] by linarith
    ultimately show ?thesis using 3 by (simp add: Let_def)
  qed
qed

text \<open>The arena that \<open>emu68k_run_new\<close> maps, with a heap cursor after a small program.\<close>

definition demo_run :: emu_run where
  "demo_run = \<lparr>run_sb = \<lparr>host_mem = (\<lambda>_. 1), sandbox_origin = 0x210000, sb_size = 0x1DF0000, next_alloc = 0x260000\<rparr>,
     exec_heap = 0x260000, exec_heap_end = 0xBED000\<rparr>"

lemma demo_run_ok: "run_ok demo_run"
  by (simp add: demo_run_def run_ok_def arena_ok_def)

lemma guest_alloc_outcomes_witness:
  "fst (emu68k_guest_alloc demo_run 100) = 0x260000 \<and> unat (exec_heap (snd (emu68k_guest_alloc demo_run 100))) = 0x260068 \<and>
   fst (emu68k_guest_alloc demo_run 0x1000000) = 0 \<and>
   fst (emu68k_guest_alloc demo_run 0xFFFFFFF0) = 0x260000 \<and>
   unat (exec_heap (snd (emu68k_guest_alloc demo_run 0xFFFFFFF0))) = 0x25FFF0"
  using guest_alloc_outcomes [OF demo_run_ok, of 100] guest_alloc_outcomes [OF demo_run_ok, of "0x1000000"]
    guest_alloc_outcomes [OF demo_run_ok, of "0xFFFFFFF0"]
  by (simp add: Let_def round8_def demo_run_def split: prod.splits)

end
