(* ===== verification/EmuAvl.thy ===== *)
theory EmuAvl
  imports EmuGuest "HOL-Library.Tree"
begin

unbundle bit_operations_syntax

text \<open>
  The AVL trees of exec.library in guest memory (\<open>hosted/emu68k/emu68k_exec.c\<close>). The nodes are the guest's own
  16-byte structures (left, right, parent, balance). The host never rotates: it walks the tree in order through the parent
  links, edits the list of nodes and writes a new tree of minimal height over the same nodes.

  A walk that leaves guest memory or exceeds its guard returns \<open>UINT32_MAX\<close>; an operation that then fails (\<open>return 1\<close>, which
  ends the run with a message) is \<open>None\<close>. The key comparison is the guest's own code, run by the translator: it is a
  parameter that may do anything to the run. Exhausted host memory (\<open>realloc\<close>) is not modelled.
\<close>

subsection \<open>Walking\<close>

definition UINT32_MAX :: u32 where "UINT32_MAX = 0xFFFFFFFF"
definition EXEC_BASE :: u32 where "EXEC_BASE = 0x00220000"
definition AVL_PARENT_OFF :: u32 where "AVL_PARENT_OFF = 8"

definition avl_link :: "bool \<Rightarrow> u32" where
  "avl_link d = (if d then 4 else 0)"

fun extreme_loop :: "sandbox \<Rightarrow> bool \<Rightarrow> nat \<Rightarrow> u32 \<Rightarrow> u32" where
  "extreme_loop s direction 0 node = UINT32_MAX"
| "extreme_loop s direction (Suc guard) node =
     (if node = 0 then 0
      else if \<not> guest_span_ok s node 16 then UINT32_MAX
      else let nxt = gread32 s (node + avl_link direction) in
        if nxt = 0 then node else extreme_loop s direction guard nxt)"

definition avl_extreme :: "sandbox \<Rightarrow> u32 \<Rightarrow> bool \<Rightarrow> u32" where
  "avl_extreme s node direction = extreme_loop s direction 65537 node"

fun climb_loop :: "sandbox \<Rightarrow> bool \<Rightarrow> nat \<Rightarrow> u32 \<Rightarrow> u32 \<Rightarrow> u32" where
  "climb_loop s nxt 0 child parent = UINT32_MAX"
| "climb_loop s nxt (Suc guard) child parent =
     (if parent = 0 then 0
      else if \<not> guest_span_ok s parent 16 then UINT32_MAX
      else if gread32 s (parent + avl_link (\<not> nxt)) = child then parent
      else climb_loop s nxt guard parent (gread32 s (parent + AVL_PARENT_OFF)))"

definition avl_adjacent :: "sandbox \<Rightarrow> u32 \<Rightarrow> bool \<Rightarrow> u32" where
  "avl_adjacent s node nxt =
     (if node = 0 then 0
      else if \<not> guest_span_ok s node 16 then UINT32_MAX
      else let branch = gread32 s (node + avl_link nxt) in
        if branch \<noteq> 0 then avl_extreme s branch (\<not> nxt)
        else climb_loop s nxt 65537 node (gread32 s (node + AVL_PARENT_OFF)))"

text \<open>
  \<open>avl_collect\<close>. The node array grows from 32 entries by doubling up to 65536, so the only growth that is refused is the
  one at 65536 nodes.
\<close>

function collect_loop :: "sandbox \<Rightarrow> u32 list \<Rightarrow> u32 \<Rightarrow> u32 list option" where
  "collect_loop s nodes node =
     (if node = 0 then Some nodes
      else if length nodes \<ge> 65536 then None
      else let nxt = avl_adjacent s node True in
        if nxt = UINT32_MAX then None
        else if nxt = node then None
        else collect_loop s (nodes @ [node]) nxt)"
  by pat_completeness auto
termination by (relation "measure (\<lambda>(s, nodes, node). 65536 - length nodes)") auto

declare collect_loop.simps [simp del]

definition avl_collect :: "sandbox \<Rightarrow> u32 \<Rightarrow> u32 list option" where
  "avl_collect s root =
     (let node = avl_extreme s root False in if node = UINT32_MAX then None else collect_loop s [] node)"

subsection \<open>Rebuilding\<close>

function avl_rebuild_range :: "sandbox \<Rightarrow> u32 list \<Rightarrow> nat \<Rightarrow> nat \<Rightarrow> u32 \<Rightarrow> u32 \<times> int \<times> sandbox" where
  "avl_rebuild_range s nodes lo hi parent =
     (if lo \<ge> hi then (0, 0, s)
      else let mid = lo + (hi - lo) div 2; node = nodes ! mid;
             (lc, lh, s1) = avl_rebuild_range s nodes lo mid node;
             (rc, rh, s2) = avl_rebuild_range s1 nodes (mid + 1) hi node;
             s3 = gwrite32 s2 (node + avl_link False) lc;
             s4 = gwrite32 s3 (node + avl_link True) rc;
             s5 = gwrite32 s4 (node + AVL_PARENT_OFF) parent;
             s6 = gwrite32 s5 (node + 12) (word_of_int (rh - lh))
           in (node, max lh rh + 1, s6))"
  by pat_completeness auto
termination by (relation "measure (\<lambda>(s, nodes, lo, hi, parent). hi - lo)") auto

declare avl_rebuild_range.simps [simp del]

definition avl_rebuild :: "sandbox \<Rightarrow> u32 \<Rightarrow> u32 list \<Rightarrow> sandbox" where
  "avl_rebuild s rootp nodes =
     (case avl_rebuild_range s nodes 0 (length nodes) 0 of (root, h, s') \<Rightarrow> gwrite32 s' rootp root)"

subsection \<open>The operations\<close>

text \<open>
  A call into guest code: the entry point, the initial registers and the stack, giving the result in D0 and the run
  afterwards, or nothing when the guest code stops the run.
\<close>

record regs =
  dr :: "nat \<Rightarrow> u32"
  ar :: "nat \<Rightarrow> u32"
  rpc :: u32

definition no_regs :: regs where
  "no_regs = \<lparr>dr = (\<lambda>_. 0), ar = (\<lambda>_. 0), rpc = 0\<rparr>"

type_synonym 'a guest_code = "'a emu_run_scheme \<Rightarrow> u32 \<Rightarrow> regs \<Rightarrow> u32 \<Rightarrow> (u32 \<times> 'a emu_run_scheme) option"

definition avl_compare_key :: "'a guest_code \<Rightarrow> 'a emu_run_scheme \<Rightarrow> u32 \<Rightarrow> u32 \<Rightarrow> u32 \<Rightarrow> (u32 \<times> 'a emu_run_scheme) option" where
  "avl_compare_key sub r callback node key =
     (if callback = 0 then None
      else sub r callback (no_regs\<lparr>ar := (\<lambda>_. 0)(0 := node, 1 := key, 6 := EXEC_BASE)\<rparr>) 0)"

text \<open>The comparison loop of \<open>AVL_AddNode\<close>: an equal node (\<open>Inl\<close>) or the place to insert (\<open>Inr\<close>).\<close>

fun add_scan :: "'a guest_code \<Rightarrow> u32 \<Rightarrow> u32 \<Rightarrow> 'a emu_run_scheme \<Rightarrow> nat \<Rightarrow> u32 list \<Rightarrow> ((u32 + nat) \<times> 'a emu_run_scheme) option" where
  "add_scan sub callback node r at [] = Some (Inr at, r)"
| "add_scan sub callback node r at (n # ns) =
     (case avl_compare_key sub r callback n node of
        None \<Rightarrow> None
      | Some (cmp, r') \<Rightarrow>
          if cmp = 0 then Some (Inl n, r')
          else if 0 <s cmp then Some (Inr at, r')
          else add_scan sub callback node r' (at + 1) ns)"

definition AVL_AddNode :: "'a guest_code \<Rightarrow> u32 \<Rightarrow> u32 \<Rightarrow> u32 \<Rightarrow> 'a emu_run_scheme \<Rightarrow> (u32 \<times> 'a emu_run_scheme) option" where
  "AVL_AddNode sub rootp node callback r =
     (if \<not> guest_span_ok (run_sb r) rootp 4 \<or> \<not> guest_span_ok (run_sb r) node 16 then None
      else case avl_collect (run_sb r) (gread32 (run_sb r) rootp) of
        None \<Rightarrow> None
      | Some nodes \<Rightarrow>
          (case add_scan sub callback node r 0 nodes of
             None \<Rightarrow> None
           | Some (Inl n, r') \<Rightarrow> Some (n, r')
           | Some (Inr at, r') \<Rightarrow>
               Some (0, r'\<lparr>run_sb := avl_rebuild (run_sb r') rootp (take at nodes @ node # drop at nodes)\<rparr>)))"

text \<open>The search loop of the two removals: the index of the node to remove, if there is one.\<close>

fun rem_scan :: "'a guest_code \<Rightarrow> bool \<Rightarrow> u32 \<Rightarrow> u32 \<Rightarrow> 'a emu_run_scheme \<Rightarrow> nat \<Rightarrow> u32 list \<Rightarrow> (nat option \<times> 'a emu_run_scheme) option" where
  "rem_scan sub by_address callback wanted r at [] = Some (None, r)"
| "rem_scan sub by_address callback wanted r at (n # ns) =
     (if by_address then
        if n = wanted then Some (Some at, r) else rem_scan sub by_address callback wanted r (at + 1) ns
      else case avl_compare_key sub r callback n wanted of
        None \<Rightarrow> None
      | Some (cmp, r') \<Rightarrow>
          if cmp = 0 then Some (Some at, r')
          else if 0 <s cmp then Some (None, r')
          else rem_scan sub by_address callback wanted r' (at + 1) ns)"

definition AVL_RemNode :: "'a guest_code \<Rightarrow> bool \<Rightarrow> u32 \<Rightarrow> u32 \<Rightarrow> u32 \<Rightarrow> 'a emu_run_scheme \<Rightarrow> (u32 \<times> 'a emu_run_scheme) option" where
  "AVL_RemNode sub by_address rootp wanted callback r =
     (if \<not> guest_span_ok (run_sb r) rootp 4 then None
      else case avl_collect (run_sb r) (gread32 (run_sb r) rootp) of
        None \<Rightarrow> None
      | Some nodes \<Rightarrow>
          (case rem_scan sub by_address callback wanted r 0 nodes of
             None \<Rightarrow> None
           | Some (None, r') \<Rightarrow> Some (0, r')
           | Some (Some at, r') \<Rightarrow>
               let removed = nodes ! at;
                   s = avl_rebuild (run_sb r') rootp (take at nodes @ drop (at + 1) nodes);
                   s = gwrite32 s (removed + avl_link False) 0;
                   s = gwrite32 s (removed + avl_link True) 0;
                   s = gwrite32 s (removed + AVL_PARENT_OFF) 0;
                   s = gwrite32 s (removed + 12) 0
               in Some (removed, r'\<lparr>run_sb := s\<rparr>)))"

definition AVL_FindEnd :: "sandbox \<Rightarrow> bool \<Rightarrow> u32 \<Rightarrow> u32 option" where
  "AVL_FindEnd s lst root = (let out = avl_extreme s root lst in if out = UINT32_MAX then None else Some out)"

definition AVL_FindByAddress :: "sandbox \<Rightarrow> bool \<Rightarrow> u32 \<Rightarrow> u32 option" where
  "AVL_FindByAddress s nxt node = (let out = avl_adjacent s node nxt in if out = UINT32_MAX then None else Some out)"

datatype avl_query = AvlNode | AvlPrev | AvlNext

fun find_loop :: "'a guest_code \<Rightarrow> avl_query \<Rightarrow> u32 \<Rightarrow> u32 \<Rightarrow> nat \<Rightarrow> 'a emu_run_scheme \<Rightarrow> u32 \<Rightarrow> u32 \<Rightarrow> (u32 \<times> 'a emu_run_scheme) option" where
  "find_loop sub q callback key 0 r node candidate = None"
| "find_loop sub q callback key (Suc guard) r node candidate =
     (if node = 0 then Some (candidate, r)
      else if \<not> guest_span_ok (run_sb r) node 16 then None
      else case avl_compare_key sub r callback node key of
        None \<Rightarrow> None
      | Some (cmp, r') \<Rightarrow>
          if cmp = 0 then Some (node, r')
          else let candidate = (if q = AvlPrev \<and> cmp <s 0 then node else candidate);
                   candidate = (if q = AvlNext \<and> 0 <s cmp then node else candidate)
            in find_loop sub q callback key guard r' (gread32 (run_sb r') (node + avl_link (cmp <s 0))) candidate)"

definition AVL_FindByKey :: "'a guest_code \<Rightarrow> avl_query \<Rightarrow> u32 \<Rightarrow> u32 \<Rightarrow> u32 \<Rightarrow> 'a emu_run_scheme \<Rightarrow> (u32 \<times> 'a emu_run_scheme) option" where
  "AVL_FindByKey sub q root key callback r = find_loop sub q callback key 65537 r root 0"

subsection \<open>Trees in guest memory\<close>

text \<open>
  \<open>tree_at d s p par t\<close>: the node addresses at \<open>p\<close> form the tree \<open>t\<close> with correct parent links, read in the forward
  direction for \<open>d\<close> and mirrored otherwise. The walks towards smaller and larger keys are the same lemma for the two directions.
\<close>

fun tree_at :: "bool \<Rightarrow> sandbox \<Rightarrow> u32 \<Rightarrow> u32 \<Rightarrow> u32 tree \<Rightarrow> bool" where
  "tree_at d s p par Leaf \<longleftrightarrow> p = 0"
| "tree_at d s p par (Node l a r) \<longleftrightarrow>
     p = a \<and> inside s a 16 \<and> gread32 s (a + AVL_PARENT_OFF) = par \<and>
     tree_at d s (gread32 s (a + avl_link (\<not> d))) a l \<and> tree_at d s (gread32 s (a + avl_link d)) a r"

lemma tree_at_mirror: "tree_at (\<not> d) s p par t \<longleftrightarrow> tree_at d s p par (mirror t)"
  by (induction t arbitrary: p par) auto

lemma tree_at_nonzero: "tree_at d s p par t \<Longrightarrow> arena_ok s \<Longrightarrow> (p = 0) = (t = Leaf)"
  by (cases t) (auto dest: inside_nonzero)

lemma tree_at_root: "tree_at d s p par t \<Longrightarrow> t \<noteq> Leaf \<Longrightarrow> p \<in> set (inorder t)"
  by (cases t) auto

lemma walks_zero: "0 < k \<Longrightarrow> extreme_loop s d k 0 = 0" "0 < k \<Longrightarrow> climb_loop s d k c 0 = 0"
  by (cases k; simp)+

lemma span_node: "inside s a 16 \<Longrightarrow> guest_span_ok s a 16"
  by (simp add: guest_span_inside)

lemma extreme_first:
  assumes "tree_at d s p par t" "t \<noteq> Leaf" "arena_ok s" "height t \<le> k"
  shows "extreme_loop s (\<not> d) k p = hd (inorder t)"
  using assms
proof (induction t arbitrary: p par k)
  case (Node l a r)
  obtain k' where k: "k = Suc k'" using Node.prems by (cases k) auto
  have a: "inside s a 16" "p = a" and l: "tree_at d s (gread32 s (a + avl_link (\<not> d))) a l" using Node.prems by auto
  have nz: "a \<noteq> 0" using inside_nonzero [OF a(1) Node.prems(3)] .
  show ?case
  proof (cases "l = Leaf")
    case True
    then show ?thesis using k a nz l span_node by simp
  next
    case False
    then have "gread32 s (a + avl_link (\<not> d)) \<noteq> 0" using tree_at_nonzero [OF l Node.prems(3)] by simp
    moreover have "extreme_loop s (\<not> d) k' (gread32 s (a + avl_link (\<not> d))) = hd (inorder l)"
      using Node.IH(1) [OF l False Node.prems(3)] Node.prems(4) k by simp
    moreover have "inorder l \<noteq> []" using False by (cases l) auto
    ultimately show ?thesis using k a nz span_node by (simp add: Let_def hd_append)
  qed
qed simp

text \<open>Climbing from the last node of a subtree arrives at the subtree's own parent.\<close>

lemma climb_out:
  assumes "tree_at d s p par t" "arena_ok s" "distinct (inorder t)" "inorder t = xs @ [a]"
  shows "gread32 s (a + avl_link d) = 0 \<and> inside s a 16 \<and>
    (\<exists>j < height t. \<forall>m. climb_loop s d (j + m) a (gread32 s (a + AVL_PARENT_OFF)) = climb_loop s d m p par)"
  using assms
proof (induction t arbitrary: p par xs)
  case (Node l b r)
  note t = Node.prems(1)
  show ?case
  proof (cases "r = Leaf")
    case True
    then have "a = b" using Node.prems(4) by simp
    moreover have "\<exists>j < height (Node l b r). \<forall>m. climb_loop s d (j + m) b (gread32 s (b + AVL_PARENT_OFF)) = climb_loop s d m p par"
      using t by (intro exI [of _ 0]) auto
    ultimately show ?thesis using t True by auto
  next
    case False
    define rr where "rr = gread32 s (b + avl_link d)"
    have r: "tree_at d s rr b r" and b: "inside s b 16" "p = b" "gread32 s (b + AVL_PARENT_OFF) = par"
      and l: "tree_at d s (gread32 s (b + avl_link (\<not> d))) b l" using t by (auto simp: rr_def)
    obtain ys where ys: "inorder r = ys @ [a]"
      using Node.prems(4) False by (cases "inorder r" rule: rev_cases) (auto simp: eq_commute [of "[]"])
    from Node.IH(2) [OF r Node.prems(2) _ ys] Node.prems(3) obtain j where
      j: "gread32 s (a + avl_link d) = 0" "inside s a 16" "j < height r"
        "\<And>m. climb_loop s d (j + m) a (gread32 s (a + AVL_PARENT_OFF)) = climb_loop s d m rr b" by auto
    have "gread32 s (b + avl_link (\<not> d)) \<noteq> rr"
    proof
      assume eq: "gread32 s (b + avl_link (\<not> d)) = rr"
      have "rr \<in> set (inorder r)" using tree_at_root [OF r False] .
      moreover have "rr \<noteq> 0" using tree_at_nonzero [OF r Node.prems(2)] False by simp
      moreover have "l \<noteq> Leaf" using l eq \<open>rr \<noteq> 0\<close> by auto
      then have "rr \<in> set (inorder l)" using tree_at_root [OF l] eq by simp
      ultimately show False using Node.prems(3) by auto
    qed
    then have step: "climb_loop s d (Suc m) rr b = climb_loop s d m p par" for m
      using b inside_nonzero [OF b(1) Node.prems(2)] span_node by simp
    have "climb_loop s d (Suc j + m) a (gread32 s (a + AVL_PARENT_OFF)) = climb_loop s d m p par" for m
      using j(4) [of "Suc m"] step [of m] by simp
    moreover have "Suc j < height (Node l b r)" using j(3) by simp
    ultimately show ?thesis using j by blast
  qed
qed simp

text \<open>The next node in order, for both directions.\<close>

lemma adjacent_next:
  assumes "tree_at d s p par t" "arena_ok s" "distinct (inorder t)" "height t \<le> 65536" "inorder t = xs @ a # b # ys"
  shows "avl_adjacent s a d = b"
  using assms
proof (induction t arbitrary: p par xs ys)
  case (Node l c r)
  note t = Node.prems(1) and ok = Node.prems(2)
  define rr where "rr = gread32 s (c + avl_link d)"
  define ll where "ll = gread32 s (c + avl_link (\<not> d))"
  have r: "tree_at d s rr c r" and l: "tree_at d s ll c l" and c: "inside s c 16" using t by (auto simp: rr_def ll_def)
  have dist: "distinct (inorder l)" "distinct (inorder r)" using Node.prems(3) by auto
  have h: "height l \<le> 65536" "height r \<le> 65536" using Node.prems(4) by auto
  have eq: "inorder l @ c # inorder r = xs @ a # b # ys" using Node.prems(5) by simp
  then consider (left) zs where "inorder l = xs @ a # b # zs" | (edge) "inorder l = xs @ [a]" "b = c"
    | (mid) "a = c" "inorder r = b # ys" | (right) zs where "inorder r = zs @ a # b # ys"
    by (auto simp: append_eq_append_conv2 Cons_eq_append_conv append_eq_Cons_conv)
  then show ?case
  proof cases
    case left
    then show ?thesis using Node.IH(1) [OF l ok dist(1) h(1)] by blast
  next
    case right
    then show ?thesis using Node.IH(2) [OF r ok dist(2) h(2)] by blast
  next
    case mid
    then have ne: "r \<noteq> Leaf" by auto
    then have "rr \<noteq> 0" using tree_at_nonzero [OF r ok] by simp
    moreover have "extreme_loop s (\<not> d) 65537 rr = b"
      using extreme_first [OF r ne ok] h(2) mid(2) by simp
    ultimately show ?thesis using mid(1) c inside_nonzero [OF c ok] span_node
      by (simp add: avl_adjacent_def avl_extreme_def rr_def)
  next
    case edge
    from climb_out [OF l ok dist(1) edge(1)] obtain j where
      j: "gread32 s (a + avl_link d) = 0" "inside s a 16" "j < height l"
        "\<And>m. climb_loop s d (j + m) a (gread32 s (a + AVL_PARENT_OFF)) = climb_loop s d m ll c" by auto
    have "climb_loop s d 65537 a (gread32 s (a + AVL_PARENT_OFF)) = climb_loop s d (65537 - j) ll c"
      using j(4) [of "65537 - j"] j(3) h(1) by simp
    also have "\<dots> = c"
    proof -
      obtain m where "65537 - j = Suc m" using j(3) h(1) by (cases "65537 - j") auto
      then show ?thesis using c inside_nonzero [OF c ok] span_node by (simp add: ll_def)
    qed
    finally show ?thesis using j edge inside_nonzero [OF j(2) ok] span_node by (simp add: avl_adjacent_def)
  qed
qed simp

lemma adjacent_last:
  assumes "tree_at d s p 0 t" "arena_ok s" "distinct (inorder t)" "height t \<le> 65536" "inorder t = xs @ [a]"
  shows "avl_adjacent s a d = 0"
proof -
  from climb_out [OF assms(1,2,3,5)] obtain j where
    j: "gread32 s (a + avl_link d) = 0" "inside s a 16" "j < height t"
      "\<And>m. climb_loop s d (j + m) a (gread32 s (a + AVL_PARENT_OFF)) = climb_loop s d m p 0" by auto
  have "j + (65537 - j) = 65537" "0 < 65537 - j" using j(3) assms(4) by auto
  then have "climb_loop s d 65537 a (gread32 s (a + AVL_PARENT_OFF)) = 0"
    using j(4) [of "65537 - j"] assms(1) walks_zero(2) [of "65537 - j" s d p] by (simp only:)
  then show ?thesis using j inside_nonzero [OF j(2) assms(2)] span_node by (simp add: avl_adjacent_def)
qed

lemma node_not_max: "inside s a 16 \<Longrightarrow> arena_ok s \<Longrightarrow> a \<noteq> UINT32_MAX"
  by (auto simp: inside_def arena_ok_def UINT32_MAX_def)

lemma tree_nodes_inside: "tree_at d s p par t \<Longrightarrow> a \<in> set (inorder t) \<Longrightarrow> inside s a 16"
  by (induction t arbitrary: p par) auto

lemma collect_tree:
  assumes "tree_at True s p 0 t" "arena_ok s" "distinct (inorder t)" "length (inorder t) \<le> 65536"
  shows "avl_collect s p = Some (inorder t)"
proof -
  have h: "height t \<le> 65536" using assms(4) height_le_size_tree [of t] by (simp add: length_inorder)
  have tail: "collect_loop s xs (if ys = [] then 0 else hd ys) = Some (xs @ ys)" if "xs @ ys = inorder t" for xs ys
    using that
  proof (induction ys arbitrary: xs)
    case Nil
    then show ?case by (simp add: collect_loop.simps)
  next
    case (Cons y ys)
    have y: "inside s y 16" using tree_nodes_inside [OF assms(1), of y] Cons.prems [symmetric] by auto
    have nxt: "avl_adjacent s y True = (if ys = [] then 0 else hd ys)"
      using adjacent_last [OF assms(1-3) h, of xs y] adjacent_next [OF assms(1-3) h, of xs y "hd ys" "tl ys"] Cons.prems
      by (cases ys) auto
    have other: "avl_adjacent s y True \<noteq> y"
      using nxt assms(3) inside_nonzero [OF y assms(2)] Cons.prems [symmetric] by (cases ys) auto
    have nm: "avl_adjacent s y True \<noteq> UINT32_MAX"
      using nxt node_not_max [OF tree_nodes_inside [OF assms(1)] assms(2), of "hd ys"] Cons.prems [symmetric]
      by (cases ys) (auto simp: UINT32_MAX_def)
    have "length xs < 65536" using assms(4) Cons.prems [symmetric] by simp
    then show ?case using other nm nxt Cons.IH [of "xs @ [y]"] Cons.prems inside_nonzero [OF y assms(2)]
      by (subst collect_loop.simps) (simp add: Let_def)
  qed
  show ?thesis
  proof (cases "t = Leaf")
    case True
    then show ?thesis using assms(1) walks_zero(1) [of 65537 s False] by (simp add: avl_collect_def avl_extreme_def UINT32_MAX_def collect_loop.simps)
  next
    case False
    have ne: "inorder t \<noteq> []" using False by (cases t) auto
    have "avl_extreme s p False = hd (inorder t)"
      using extreme_first [OF assms(1) False assms(2), of 65537] h by (simp add: avl_extreme_def)
    moreover have "hd (inorder t) \<noteq> UINT32_MAX"
      using node_not_max [OF tree_nodes_inside [OF assms(1) hd_in_set [OF ne]] assms(2)] .
    ultimately show ?thesis using tail [of "[]" "inorder t"] ne by (simp add: avl_collect_def)
  qed
qed

subsection \<open>Writing nodes\<close>

abbreviation node_bytes :: "sandbox \<Rightarrow> u32 \<Rightarrow> nat set" where
  "node_bytes s a \<equiv> host_range s a 16"

lemma avl_offsets: "unat (avl_link d) + 4 \<le> 16" "unat AVL_PARENT_OFF + 4 \<le> 16" "unat (12 :: u32) + 4 \<le> 16"
  by (simp_all add: avl_link_def AVL_PARENT_OFF_def)

lemma tree_at_agree:
  assumes "agree_on K s s'" "arena_ok s" "tree_at d s p par t" "\<And>a. a \<in> set (inorder t) \<Longrightarrow> node_bytes s a \<subseteq> K"
  shows "tree_at d s' p par t"
  using assms(3,4)
proof (induction t arbitrary: p par)
  case (Node l a r)
  have a: "inside s a 16" "node_bytes s a \<subseteq> K" using Node.prems by auto
  note rd = agree_read [OF assms(1) a(1) assms(2) _ a(2)]
  have "inside s' = inside s" using assms(1) same_arenaD(2) by (auto simp: agree_on_def)
  then show ?case using Node rd [OF avl_offsets(1)] rd [OF avl_offsets(2)] by auto
qed simp

text \<open>The stored balance factors are the height differences, and the tree is an AVL tree.\<close>

fun balanced_at :: "sandbox \<Rightarrow> u32 tree \<Rightarrow> bool" where
  "balanced_at s Leaf \<longleftrightarrow> True"
| "balanced_at s (Node l a r) \<longleftrightarrow>
     gread32 s (a + 12) = word_of_int (int (height r) - int (height l)) \<and>
     \<bar>int (height r) - int (height l)\<bar> \<le> 1 \<and> balanced_at s l \<and> balanced_at s r"

lemma balanced_at_agree:
  assumes "agree_on K s s'" "arena_ok s" "balanced_at s t"
    "\<And>a. a \<in> set (inorder t) \<Longrightarrow> inside s a 16 \<and> node_bytes s a \<subseteq> K"
  shows "balanced_at s' t"
  using assms(3,4)
proof (induction t)
  case (Node l a r)
  have a: "inside s a 16" "node_bytes s a \<subseteq> K" using Node.prems by auto
  show ?case using Node agree_read [OF assms(1) a(1) assms(2) avl_offsets(3) a(2)] by auto
qed simp

text \<open>Four longwords of a node, written one after the other.\<close>

lemma node_written:
  assumes a: "inside s a 16" "arena_ok s"
    and s'_def: "s' = gwrite32 (gwrite32 (gwrite32 (gwrite32 s (a + avl_link False) lc) (a + avl_link True) rc) (a + AVL_PARENT_OFF) par) (a + 12) bal"
  shows "gread32 s' (a + avl_link False) = lc" "gread32 s' (a + avl_link True) = rc" "gread32 s' (a + AVL_PARENT_OFF) = par"
    "gread32 s' (a + 12) = bal" "agree_on (- node_bytes s a) s s'"
proof -
  have in4: "inside s (a + k) 4" if "unat k + 4 \<le> 16" for k using inside_offset [OF a that] .
  have ap: "apart (a + k) 4 (a + m) 4" if "unat k + 4 \<le> 16" "unat m + 4 \<le> 16" "unat k + 4 \<le> unat m \<or> unat m + 4 \<le> unat k" for k m :: u32
    using that unat_offset [OF a, of k] unat_offset [OF a, of m] by (auto simp: apart_def)
  note o = avl_offsets [unfolded avl_link_def]
  show "gread32 s' (a + avl_link False) = lc" "gread32 s' (a + avl_link True) = rc" "gread32 s' (a + AVL_PARENT_OFF) = par"
    "gread32 s' (a + 12) = bal"
    unfolding s'_def avl_link_def AVL_PARENT_OFF_def
    using a in4 [of 0] in4 [of 4] in4 [of 8] in4 [of 12] ap [of 0 4] ap [of 0 8] ap [of 0 12] ap [of 4 0] ap [of 4 8] ap [of 4 12]
      ap [of 8 0] ap [of 8 4] ap [of 8 12] ap [of 12 0] ap [of 12 4] ap [of 12 8]
    by (simp_all add: gread_gwrite_same gread_gwrite_other)
  have w: "agree_on (- node_bytes s a) t (gwrite32 t (a + k) v)" if "same_arena s t" "unat k + 4 \<le> 16" for t k v
    using write_agree [of t a 16 k v] a that same_arenaD [OF that(1)] by simp
  have sa: "same_arena s (gwrite32 t b v)" if "same_arena s t" for t b v
    using that by (simp add: same_arena_def guest)
  have "same_arena s s" by (simp add: same_arena_def)
  then show "agree_on (- node_bytes s a) s s'" unfolding s'_def
    by (intro agree_trans [OF w agree_trans [OF w agree_trans [OF w w]]] sa avl_offsets)
qed

subsection \<open>What a rebuild writes\<close>

text \<open>The height of the tree over \<open>n\<close> nodes whose root is the middle one.\<close>

function hgt :: "nat \<Rightarrow> nat" where
  "hgt n = (if n = 0 then 0 else 1 + max (hgt (n div 2)) (hgt (n - 1 - n div 2)))"
  by pat_completeness auto
termination by (relation "measure id") auto

declare hgt.simps [simp del]

lemma hgt_Suc: "hgt n \<le> hgt (Suc n) \<and> hgt (Suc n) \<le> hgt n + 1"
proof (induction n rule: less_induct)
  case (less n)
  show ?case
  proof (cases "n = 0")
    case True
    then show ?thesis by (simp add: hgt.simps [of 0] hgt.simps [of "Suc 0"])
  next
    case False
    obtain k where k: "n = 2 * k \<or> n = Suc (2 * k)" by (metis evenE oddE Suc_eq_plus1)
    then show ?thesis
    proof
      assume n: "n = 2 * k"
      then obtain j where j: "k = Suc j" using False by (cases k) auto
      have "hgt n = 1 + max (hgt (Suc j)) (hgt j)" using n j by (subst hgt.simps) simp
      moreover have "hgt (Suc n) = 1 + max (hgt (Suc j)) (hgt (Suc j))" using n j by (subst hgt.simps) simp
      ultimately show ?thesis using less [of j] n j by auto
    next
      assume n: "n = Suc (2 * k)"
      have "hgt n = 1 + max (hgt k) (hgt k)" using n by (subst hgt.simps) simp
      moreover have "hgt (Suc n) = 1 + max (hgt (Suc k)) (hgt k)" using n by (subst hgt.simps) simp
      ultimately show ?thesis using less [of k] n by auto
    qed
  qed
qed

lemma hgt_halves: "0 < n \<Longrightarrow> \<bar>int (hgt (n - 1 - n div 2)) - int (hgt (n div 2))\<bar> \<le> 1"
proof -
  assume "0 < n"
  then consider "n div 2 = n - 1 - n div 2" | "n div 2 = Suc (n - 1 - n div 2)" by linarith
  then show ?thesis using hgt_Suc [of "n - 1 - n div 2"] by cases auto
qed

definition nodes_apart :: "sandbox \<Rightarrow> u32 list \<Rightarrow> bool" where
  "nodes_apart s nodes \<longleftrightarrow> (\<forall>a \<in> set nodes. inside s a 16) \<and>
     (\<forall>i < length nodes. \<forall>j < length nodes. i \<noteq> j \<longrightarrow> node_bytes s (nodes ! i) \<inter> node_bytes s (nodes ! j) = {})"

lemma nodes_apartD:
  "nodes_apart s nodes \<Longrightarrow> i < length nodes \<Longrightarrow> j < length nodes \<Longrightarrow> i \<noteq> j \<Longrightarrow>
   node_bytes s (nodes ! i) \<inter> node_bytes s (nodes ! j) = {}"
  by (simp add: nodes_apart_def)

definition slice_bytes :: "sandbox \<Rightarrow> u32 list \<Rightarrow> nat \<Rightarrow> nat \<Rightarrow> nat set" where
  "slice_bytes s nodes lo hi = (\<Union>i \<in> {lo..<hi}. node_bytes s (nodes ! i))"

lemma in_slice: "b \<in> set xs \<Longrightarrow> xs = map ((!) ns) [lo..<hi] \<Longrightarrow> \<exists>k. b = ns ! k \<and> lo \<le> k \<and> k < hi"
  by auto

lemma slice_disjoint:
  assumes "nodes_apart s nodes" "hi \<le> length nodes" "k < length nodes" "k < lo \<or> hi \<le> k"
  shows "node_bytes s (nodes ! k) \<subseteq> - slice_bytes s nodes lo hi"
proof -
  have dj: "node_bytes s (nodes ! k) \<inter> node_bytes s (nodes ! i) = {}" if "lo \<le> i" "i < hi" for i
    by (rule nodes_apartD [OF assms(1,3)]) (use assms that in auto)
  have "node_bytes s (nodes ! k) \<inter> slice_bytes s nodes lo hi = {}"
    by (simp add: slice_bytes_def Int_UN_distrib dj)
  then show ?thesis by (simp only: disjoint_eq_subset_Compl)
qed

lemma rebuild_range:
  assumes "arena_ok s" "nodes_apart s nodes" "hi \<le> length nodes"
  shows "\<exists>t s'. avl_rebuild_range s nodes lo hi par = (if t = Leaf then 0 else value t, int (height t), s') \<and>
     inorder t = map ((!) nodes) [lo..<hi] \<and> height t = hgt (hi - lo) \<and>
     tree_at True s' (if t = Leaf then 0 else value t) par t \<and> balanced_at s' t \<and>
     agree_on (- slice_bytes s nodes lo hi) s s'"
  using assms
proof (induction "hi - lo" arbitrary: s lo hi par rule: less_induct)
  case less
  show ?case
  proof (cases "lo < hi")
    case False
    then show ?thesis
      by (intro exI [of _ Leaf] exI [of _ s]) (simp add: avl_rebuild_range.simps hgt.simps agree_on_def same_arena_def)
  next
    case True
    define mid where "mid = lo + (hi - lo) div 2"
    define a where "a = nodes ! mid"
    have m: "lo \<le> mid" "mid < hi" "mid < length nodes" "mid - lo < hi - lo" "hi - Suc mid < hi - lo"
      using True less.prems(3) by (auto simp: mid_def)
    have ins: "inside s (nodes ! i) 16" if "i < length nodes" for i
      using less.prems(2) that by (auto simp: nodes_apart_def)
    from less.hyps [OF m(4) less.prems(1,2), of a] m obtain l s1 where
      l: "avl_rebuild_range s nodes lo mid a = (if l = Leaf then 0 else value l, int (height l), s1)"
        "inorder l = map ((!) nodes) [lo..<mid]" "height l = hgt (mid - lo)"
        "tree_at True s1 (if l = Leaf then 0 else value l) a l" "balanced_at s1 l" "agree_on (- slice_bytes s nodes lo mid) s s1"
      by auto
    have g1: "arena_ok s1" "nodes_apart s1 nodes" "slice_bytes s1 = slice_bytes s" "inside s1 = inside s" "host_range s1 = host_range s"
      using less.prems(1,2) l(6) same_arenaD [of s s1] by (auto simp: agree_on_def nodes_apart_def slice_bytes_def fun_eq_iff)
    from less.hyps [OF m(5) g1(1,2) less.prems(3), of a] obtain r s2 where
      r: "avl_rebuild_range s1 nodes (Suc mid) hi a = (if r = Leaf then 0 else value r, int (height r), s2)"
        "inorder r = map ((!) nodes) [Suc mid..<hi]" "height r = hgt (hi - Suc mid)"
        "tree_at True s2 (if r = Leaf then 0 else value r) a r" "balanced_at s2 r" "agree_on (- slice_bytes s nodes (Suc mid) hi) s1 s2"
      using g1 by auto
    have g2: "arena_ok s2" "inside s2 = inside s" "host_range s2 = host_range s"
      using g1 r(6) same_arenaD [of s1 s2] by (auto simp: agree_on_def)
    define t where "t = Node l a r"
    define s' where "s' = gwrite32 (gwrite32 (gwrite32 (gwrite32 s2 (a + avl_link False) (if l = Leaf then 0 else value l))
      (a + avl_link True) (if r = Leaf then 0 else value r)) (a + AVL_PARENT_OFF) par) (a + 12) (word_of_int (int (height r) - int (height l)))"
    have ia: "inside s2 a 16" using ins [OF m(3)] g2 by (simp add: a_def)
    note w = node_written [OF ia g2(1) s'_def]
    have lnodes: "node_bytes s b \<subseteq> - slice_bytes s nodes (Suc mid) hi \<and> node_bytes s b \<subseteq> - node_bytes s a \<and> inside s b 16"
      if b: "b \<in> set (inorder l)" for b
    proof -
      obtain k where k: "b = nodes ! k" "k < mid" using in_slice [OF b l(2)] by auto
      have "node_bytes s b \<inter> node_bytes s a = {}"
        unfolding k a_def by (rule nodes_apartD [OF less.prems(2)]) (use k m in auto)
      then show ?thesis using slice_disjoint [OF less.prems(2,3), of k "Suc mid"] k m ins [of k] by auto
    qed
    have rnodes: "node_bytes s b \<subseteq> - node_bytes s a \<and> inside s b 16" if b: "b \<in> set (inorder r)" for b
    proof -
      obtain k where k: "b = nodes ! k" "mid < k" "k < hi" using in_slice [OF b r(2)] by auto
      have "node_bytes s b \<inter> node_bytes s a = {}"
        unfolding k a_def by (rule nodes_apartD [OF less.prems(2)]) (use k m less.prems(3) in auto)
      then show ?thesis using k less.prems(3) ins [of k] by auto
    qed
    have tl: "tree_at True s' (if l = Leaf then 0 else value l) a l"
      by (rule tree_at_agree [OF w(5) g2(1) tree_at_agree [OF r(6) g1(1) l(4)]]) (use lnodes g1 g2 in auto)
    have tr: "tree_at True s' (if r = Leaf then 0 else value r) a r"
      by (rule tree_at_agree [OF w(5) g2(1) r(4)]) (use rnodes g2 in auto)
    have bl: "balanced_at s' l"
      by (rule balanced_at_agree [OF w(5) g2(1) balanced_at_agree [OF r(6) g1(1) l(5)]]) (use lnodes g1 g2 in auto)
    have br: "balanced_at s' r"
      by (rule balanced_at_agree [OF w(5) g2(1) r(5)]) (use rnodes g2 in auto)
    have ia': "inside s' a 16" using ia w(5) same_arenaD [of s2 s'] by (auto simp: agree_on_def)
    have n: "0 < hi - lo" "mid - lo = (hi - lo) div 2" "hi - Suc mid = hi - lo - 1 - (hi - lo) div 2"
      using True by (auto simp: mid_def)
    have dif: "\<bar>int (height r) - int (height l)\<bar> \<le> 1" using hgt_halves [OF n(1)] l(3) r(3) n by simp
    have ht: "height t = hgt (hi - lo)" using l(3) r(3) n by (simp add: t_def hgt.simps [of "hi - lo"])
    have io: "inorder t = map ((!) nodes) [lo..<hi]"
    proof -
      have "[lo..<hi] = [lo..<mid] @ mid # [Suc mid..<hi]"
        using m upt_add_eq_append [of lo mid "hi - mid"] by (simp add: upt_conv_Cons)
      then show ?thesis using l(2) r(2) by (simp add: t_def a_def)
    qed
    have ag: "agree_on (- slice_bytes s nodes lo hi) s s'"
    proof (rule agree_trans [OF agree_mono [OF l(6)] agree_trans [OF agree_mono [OF r(6)] agree_mono [OF w(5)]]])
      show "- slice_bytes s nodes lo hi \<subseteq> - slice_bytes s nodes lo mid" using m by (force simp: slice_bytes_def)
      show "- slice_bytes s nodes lo hi \<subseteq> - slice_bytes s nodes (Suc mid) hi" using m by (force simp: slice_bytes_def)
      show "- slice_bytes s nodes lo hi \<subseteq> - node_bytes s2 a" using m g2 by (force simp: slice_bytes_def a_def)
    qed
    have run: "avl_rebuild_range s nodes lo hi par = (a, int (height t), s')"
      using True l(1) r(1) unfolding mid_def a_def
      by (subst avl_rebuild_range.simps) (simp add: Let_def t_def s'_def a_def mid_def del: of_nat_max)
    show ?thesis using run io ht tl tr bl br dif w ia' ag by (intro exI [of _ t] exI [of _ s']) (simp add: t_def)
  qed
qed

subsection \<open>Search trees over guest nodes\<close>

text \<open>
  The guest's comparison routine, as exec.library documents it: it reads its two arguments, changes nothing, and returns a
  negative, zero or positive number. \<open>nk\<close> gives the key of a node and \<open>kk\<close> the key that the second argument stands for.
\<close>

definition compares :: "'a guest_code \<Rightarrow> u32 \<Rightarrow> (u32 \<Rightarrow> int) \<Rightarrow> (u32 \<Rightarrow> int) \<Rightarrow> bool" where
  "compares sub callback nk kk \<longleftrightarrow>
     (\<forall>r a k. \<exists>v. avl_compare_key sub r callback a k = Some (v, r) \<and>
        (v = 0 \<longleftrightarrow> nk a = kk k) \<and> (v <s 0 \<longleftrightarrow> nk a < kk k) \<and> (0 <s v \<longleftrightarrow> kk k < nk a))"

definition avl_tree :: "sandbox \<Rightarrow> u32 \<Rightarrow> (u32 \<Rightarrow> int) \<Rightarrow> u32 tree \<Rightarrow> bool" where
  "avl_tree s rootp nk t \<longleftrightarrow> inside s rootp 4 \<and> tree_at True s (gread32 s rootp) 0 t \<and> nodes_apart s (inorder t) \<and>
     (\<forall>a \<in> set (inorder t). node_bytes s a \<inter> host_range s rootp 4 = {}) \<and> sorted_wrt (<) (map nk (inorder t))"

definition tree_bytes :: "sandbox \<Rightarrow> u32 \<Rightarrow> u32 list \<Rightarrow> nat set" where
  "tree_bytes s rootp ns = host_range s rootp 4 \<union> (\<Union>a \<in> set ns. node_bytes s a)"

lemma nodes_apart_distinct: "nodes_apart s ns \<Longrightarrow> distinct ns"
proof -
  assume ap: "nodes_apart s ns"
  have "ns ! i \<noteq> ns ! j" if "i < length ns" "j < length ns" "i \<noteq> j" for i j
    using nodes_apartD [OF ap that] by (auto simp: host_range_def)
  then show ?thesis by (simp add: distinct_conv_nth)
qed

lemma nodes_apart_iff:
  "nodes_apart s ns \<longleftrightarrow> distinct ns \<and> (\<forall>a \<in> set ns. inside s a 16) \<and>
     (\<forall>a \<in> set ns. \<forall>b \<in> set ns. a \<noteq> b \<longrightarrow> node_bytes s a \<inter> node_bytes s b = {})"
proof
  assume ap: "nodes_apart s ns"
  then show "distinct ns \<and> (\<forall>a \<in> set ns. inside s a 16) \<and>
     (\<forall>a \<in> set ns. \<forall>b \<in> set ns. a \<noteq> b \<longrightarrow> node_bytes s a \<inter> node_bytes s b = {})"
    using nodes_apart_distinct [OF ap] nodes_apartD [OF ap]
    unfolding in_set_conv_nth by (auto simp: nodes_apart_def set_conv_nth)
next
  assume "distinct ns \<and> (\<forall>a \<in> set ns. inside s a 16) \<and>
     (\<forall>a \<in> set ns. \<forall>b \<in> set ns. a \<noteq> b \<longrightarrow> node_bytes s a \<inter> node_bytes s b = {})"
  then show "nodes_apart s ns" by (auto simp: nodes_apart_def nth_eq_iff_index_eq)
qed

lemma nodes_apart_insert:
  assumes "nodes_apart s (xs @ ys)" "inside s n 16" "\<And>b. b \<in> set (xs @ ys) \<Longrightarrow> node_bytes s n \<inter> node_bytes s b = {}"
  shows "nodes_apart s (xs @ n # ys)"
proof -
  have "n \<notin> set (xs @ ys)" using assms(3) [of n] by (auto simp: host_range_def)
  moreover have "node_bytes s b \<inter> node_bytes s n = {}" if "b \<in> set (xs @ ys)" for b using assms(3) [OF that] by blast
  ultimately show ?thesis using assms unfolding nodes_apart_iff
    by (simp add: ball_Un)
qed

lemma slice_all: "slice_bytes s ns 0 (length ns) = (\<Union>a \<in> set ns. node_bytes s a)"
proof -
  have "slice_bytes s ns 0 (length ns) = \<Union> (node_bytes s ` ((!) ns ` {0..<length ns}))"
    by (simp only: slice_bytes_def image_image)
  also have "(!) ns ` {0..<length ns} = set ns" by (auto simp: set_conv_nth)
  finally show ?thesis .
qed

lemma rebuild_tree:
  assumes ok: "arena_ok s" and ap: "nodes_apart s ns" and rp: "inside s rootp 4"
    and away: "\<And>a. a \<in> set ns \<Longrightarrow> node_bytes s a \<inter> host_range s rootp 4 = {}" and srt: "sorted_wrt (<) (map nk ns)"
  obtains t where "inorder t = ns" "avl_tree (avl_rebuild s rootp ns) rootp nk t" "balanced_at (avl_rebuild s rootp ns) t"
    "agree_on (- tree_bytes s rootp ns) s (avl_rebuild s rootp ns)"
proof -
  from rebuild_range [OF ok ap, of "length ns" 0 0] obtain t s1 where t:
    "avl_rebuild_range s ns 0 (length ns) 0 = (if t = Leaf then 0 else value t, int (height t), s1)"
    "inorder t = map ((!) ns) [0..<length ns]" "tree_at True s1 (if t = Leaf then 0 else value t) 0 t" "balanced_at s1 t"
    "agree_on (- (\<Union>a \<in> set ns. node_bytes s a)) s s1" by (auto simp: slice_all)
  have io: "inorder t = ns" using t(2) by (simp add: map_nth)
  have sa: "same_arena s s1" using t(5) by (simp add: agree_on_def)
  note g = same_arenaD [OF sa]
  define s' where "s' = avl_rebuild s rootp ns"
  have s': "s' = gwrite32 s1 rootp (if t = Leaf then 0 else value t)" by (simp add: s'_def avl_rebuild_def t(1))
  have ag: "agree_on (- host_range s rootp 4) s1 s'"
    using write_agree [of s1 rootp 4 0] rp ok g by (simp add: s')
  have nodes: "inside s1 a 16 \<and> node_bytes s1 a \<subseteq> - host_range s rootp 4" if "a \<in> set (inorder t)" for a
    using that ap away [of a] g unfolding io by (auto simp: nodes_apart_def disjoint_eq_subset_Compl)
  have ok1: "arena_ok s1" using ok g by simp
  have "tree_at True s' (if t = Leaf then 0 else value t) 0 t"
    by (rule tree_at_agree [OF ag ok1 t(3)]) (use nodes in blast)
  moreover have root: "gread32 s' rootp = (if t = Leaf then 0 else value t)"
    using gread_gwrite_same [of s1 rootp] rp ok g by (simp add: s')
  moreover have "same_arena s1 s'" by (simp add: s' same_arena_def guest)
  then have "inside s' = inside s" "host_range s' = host_range s" using same_arenaD [of s1 s'] g by auto
  ultimately have "avl_tree s' rootp nk t"
    using rp ap away srt by (simp add: avl_tree_def io nodes_apart_def)
  moreover have "balanced_at s' t"
    by (rule balanced_at_agree [OF ag ok1 t(4)]) (use nodes in blast)
  moreover have "agree_on (- tree_bytes s rootp ns) s s'"
    by (rule agree_trans [OF agree_mono [OF t(5)] agree_mono [OF ag]]) (auto simp: tree_bytes_def)
  ultimately show thesis using that io by (simp add: s'_def)
qed

lemma collect_avl:
  "avl_tree s rootp nk t \<Longrightarrow> arena_ok s \<Longrightarrow> length (inorder t) \<le> 65536 \<Longrightarrow> avl_collect s (gread32 s rootp) = Some (inorder t)"
  by (rule collect_tree) (auto simp: avl_tree_def dest: nodes_apart_distinct)

lemma add_scan_sorted:
  assumes "compares sub callback nk nk"
  shows "add_scan sub callback node r at ns =
    (let lt = takeWhile (\<lambda>n. nk n < nk node) ns; rest = dropWhile (\<lambda>n. nk n < nk node) ns in
     Some (if rest \<noteq> [] \<and> nk (hd rest) = nk node then Inl (hd rest) else Inr (at + length lt), r))"
proof (induction ns arbitrary: at)
  case (Cons n ns)
  from assms obtain v where "avl_compare_key sub r callback n node = Some (v, r)"
    "v = 0 \<longleftrightarrow> nk n = nk node" "0 <s v \<longleftrightarrow> nk node < nk n" unfolding compares_def by blast
  then show ?case using Cons [of "at + 1"] by (auto simp: Let_def)
qed simp

lemma sorted_split:
  fixes k :: int
  assumes "sorted_wrt (<) (map f ns)"
  shows "ns = takeWhile (\<lambda>n. f n < k) ns @ filter (\<lambda>n. f n = k) ns @ filter (\<lambda>n. k < f n) ns"
    "dropWhile (\<lambda>n. f n < k) ns = filter (\<lambda>n. f n = k) ns @ filter (\<lambda>n. k < f n) ns"
proof -
  show d: "dropWhile (\<lambda>n. f n < k) ns = filter (\<lambda>n. f n = k) ns @ filter (\<lambda>n. k < f n) ns"
    using assms
  proof (induction ns)
    case (Cons a ns)
    have gt: "f a < f x" if "x \<in> set ns" for x using Cons.prems that by simp
    have e: "filter (\<lambda>n. f n = k) ns = []" "filter (\<lambda>n. k < f n) ns = ns" if "k \<le> f a"
      using that gt by (force simp: filter_empty_conv, force intro!: filter_True)
    show ?case
    proof (cases "f a < k")
      case True
      then show ?thesis using Cons by simp
    next
      case False
      then show ?thesis using e by auto
    qed
  qed simp
  show "ns = takeWhile (\<lambda>n. f n < k) ns @ filter (\<lambda>n. f n = k) ns @ filter (\<lambda>n. k < f n) ns"
    unfolding d [symmetric] by simp
qed

lemma avl_update:
  assumes "arena_ok s" "inside s rootp 4" "nodes_apart s ns" "sorted_wrt (<) (map nk ns)"
    "\<And>a. a \<in> set ns \<Longrightarrow> node_bytes s a \<inter> host_range s rootp 4 = {}"
  shows "\<exists>t'. inorder t' = ns \<and> avl_tree (avl_rebuild s rootp ns) rootp nk t' \<and> balanced_at (avl_rebuild s rootp ns) t' \<and>
     agree_on (- tree_bytes s rootp ns) s (avl_rebuild s rootp ns)"
  using rebuild_tree [OF assms(1,3,2,5,4)] by metis

lemma add_inserts:
  assumes tree: "avl_tree (run_sb r) rootp nk t" "arena_ok (run_sb r)" "length (inorder t) \<le> 65536"
    and node: "inside (run_sb r) node 16" "node_bytes (run_sb r) node \<inter> tree_bytes (run_sb r) rootp (inorder t) = {}"
    and cmp: "compares sub callback nk nk"
  shows "if \<exists>n \<in> set (inorder t). nk n = nk node
    then \<exists>n \<in> set (inorder t). nk n = nk node \<and> AVL_AddNode sub rootp node callback r = Some (n, r)
    else \<exists>t' s'. AVL_AddNode sub rootp node callback r = Some (0, r\<lparr>run_sb := s'\<rparr>) \<and>
      avl_tree s' rootp nk t' \<and> balanced_at s' t' \<and> set (inorder t') = insert node (set (inorder t)) \<and>
      agree_on (- tree_bytes (run_sb r) rootp (node # inorder t)) (run_sb r) s'"
proof -
  let ?ns = "inorder t" and ?s = "run_sb r" and ?k = "nk node"
  define lt where "lt = takeWhile (\<lambda>n. nk n < ?k) ?ns"
  define eq where "eq = filter (\<lambda>n. nk n = ?k) ?ns"
  define gt where "gt = filter (\<lambda>n. ?k < nk n) ?ns"
  have srt: "sorted_wrt (<) (map nk ?ns)" and rp: "inside ?s rootp 4" and ap: "nodes_apart ?s ?ns"
    and away: "\<And>a. a \<in> set ?ns \<Longrightarrow> node_bytes ?s a \<inter> host_range ?s rootp 4 = {}"
    using tree(1) by (auto simp: avl_tree_def)
  have split: "?ns = lt @ eq @ gt" "dropWhile (\<lambda>n. nk n < ?k) ?ns = eq @ gt"
    unfolding lt_def eq_def gt_def by (rule sorted_split [OF srt])+
  have call: "AVL_AddNode sub rootp node callback r =
     (case add_scan sub callback node r 0 ?ns of
        None \<Rightarrow> None
      | Some (Inl n, r') \<Rightarrow> Some (n, r')
      | Some (Inr at, r') \<Rightarrow> Some (0, r'\<lparr>run_sb := avl_rebuild (run_sb r') rootp (take at ?ns @ node # drop at ?ns)\<rparr>))"
    using rp node(1) collect_avl [OF tree] by (simp add: AVL_AddNode_def guest_span_inside)
  have scan: "add_scan sub callback node r 0 ?ns =
     Some (if eq @ gt \<noteq> [] \<and> nk (hd (eq @ gt)) = ?k then Inl (hd (eq @ gt)) else Inr (length lt), r)"
    using add_scan_sorted [OF cmp, of node r 0 ?ns] by (simp add: split(2) Let_def lt_def [symmetric])
  show ?thesis
  proof (cases "eq = []")
    case False
    then have "hd eq \<in> set eq" by simp
    then have h: "hd eq \<in> set ?ns" "nk (hd eq) = ?k" by (auto simp: eq_def)
    then show ?thesis using False call scan by (auto intro!: bexI [of _ "hd eq"])
  next
    case True
    have no: "\<not> (\<exists>n \<in> set ?ns. nk n = ?k)" using True by (auto simp: eq_def filter_empty_conv)
    let ?new = "lt @ node # gt"
    have gtk: "\<And>n. n \<in> set gt \<Longrightarrow> ?k < nk n" and ltk: "\<And>n. n \<in> set lt \<Longrightarrow> nk n < ?k"
      by (auto simp: gt_def lt_def dest: set_takeWhileD)
    have ns: "?ns = lt @ gt" using split(1) True by simp
    have "add_scan sub callback node r 0 ?ns = Some (Inr (length lt), r)" using scan True gtk by (cases gt) force+
    then have res: "AVL_AddNode sub rootp node callback r = Some (0, r\<lparr>run_sb := avl_rebuild ?s rootp ?new\<rparr>)"
      using call ns by simp
    have "nodes_apart ?s ?new"
      by (rule nodes_apart_insert) (use ap node in \<open>auto simp: ns tree_bytes_def\<close>)
    moreover have "sorted_wrt (<) (map nk ?new)"
      using srt gtk ltk unfolding ns by (force simp: sorted_wrt_append)
    moreover have "node_bytes ?s a \<inter> host_range ?s rootp 4 = {}" if "a \<in> set ?new" for a
      using away [of a] that node(2) by (auto simp: ns tree_bytes_def)
    ultimately obtain t' where t': "inorder t' = ?new" "avl_tree (avl_rebuild ?s rootp ?new) rootp nk t'"
      "balanced_at (avl_rebuild ?s rootp ?new) t'" "agree_on (- tree_bytes ?s rootp ?new) ?s (avl_rebuild ?s rootp ?new)"
      using avl_update [OF tree(2) rp] by metis
    have "set (inorder t') = insert node (set ?ns)" unfolding t'(1) ns by simp
    moreover have "tree_bytes ?s rootp ?new = tree_bytes ?s rootp (node # ?ns)" unfolding ns by (auto simp: tree_bytes_def)
    ultimately show ?thesis unfolding if_not_P [OF no] using res t'
      by (intro exI [of _ t'] exI [of _ "avl_rebuild ?s rootp ?new"]) (simp del: set_inorder)
  qed
qed


lemma rem_scan_sorted:
  assumes "compares sub callback nk kk" "distinct ns" "sorted_wrt (<) (map nk ns)"
  shows "rem_scan sub by_address callback wanted r at ns =
    (case filter (\<lambda>n. if by_address then n = wanted else nk n = kk wanted) ns of
       [] \<Rightarrow> Some (None, r)
     | n # _ \<Rightarrow> Some (Some (at + length (takeWhile (\<lambda>m. m \<noteq> n) ns)), r))"
  using assms(2,3)
proof (induction ns arbitrary: at)
  case (Cons n ns)
  from assms(1) obtain v where v: "avl_compare_key sub r callback n wanted = Some (v, r)"
    "v = 0 \<longleftrightarrow> nk n = kk wanted" "0 <s v \<longleftrightarrow> kk wanted < nk n" unfolding compares_def by blast
  have "filter (\<lambda>m. nk m = kk wanted) ns = []" if "kk wanted < nk n"
    using that Cons.prems(2) by (auto simp: filter_empty_conv)
  note gt = this
  define P where "P = (\<lambda>n. if by_address then n = wanted else nk n = kk wanted)"
  show ?case
  proof (cases "P n")
    case True
    then show ?thesis using v unfolding P_def by (cases by_address) simp_all
  next
    case False
    note ih = Cons.IH [of "at + 1", folded P_def] Cons.prems
    show ?thesis
    proof (cases "filter P ns")
      case Nil
      then show ?thesis using False gt ih v unfolding P_def by (cases by_address) simp_all
    next
      case (Cons x xs)
      then have "x \<in> set ns" by (metis filter_is_subset list.set_intros(1) subsetD)
      then have "x \<noteq> n" using ih by auto
      moreover have "\<not> by_address \<Longrightarrow> \<not> kk wanted < nk n" using gt Cons by (auto simp: P_def)
      ultimately show ?thesis using False Cons ih v unfolding P_def by (cases by_address) simp_all
    qed
  qed
qed simp

lemma remove_split:
  assumes "distinct ns" "n \<in> set ns"
  obtains xs ys where "ns = xs @ n # ys" "takeWhile (\<lambda>m. m \<noteq> n) ns = xs" "n \<notin> set xs" "n \<notin> set ys"
proof -
  from split_list [OF assms(2)] obtain xs ys where s: "ns = xs @ n # ys" by blast
  then have "n \<notin> set xs" "n \<notin> set ys" using assms(1) by auto
  moreover have "takeWhile (\<lambda>m. m \<noteq> n) ns = xs" unfolding s using \<open>n \<notin> set xs\<close> by (simp add: takeWhile_tail takeWhile_append)
  ultimately show thesis using that s by blast
qed


subsection \<open>Searching\<close>

text \<open>What a search for key \<open>k\<close> over the sorted nodes \<open>ns\<close> answers, \<open>c\<close> being the answer when no node qualifies.\<close>

definition avl_answer :: "avl_query \<Rightarrow> (u32 \<Rightarrow> int) \<Rightarrow> int \<Rightarrow> u32 \<Rightarrow> u32 list \<Rightarrow> u32" where
  "avl_answer q nk k c ns =
     (case filter (\<lambda>n. nk n = k) ns of n # _ \<Rightarrow> n
      | [] \<Rightarrow> (case q of AvlNode \<Rightarrow> c
               | AvlPrev \<Rightarrow> last (c # filter (\<lambda>n. nk n < k) ns)
               | AvlNext \<Rightarrow> hd (filter (\<lambda>n. k < nk n) ns @ [c])))"

lemma filter_none_above: "(\<And>x. x \<in> set xs \<Longrightarrow> nk x < (k :: int)) \<Longrightarrow>
    filter (\<lambda>n. nk n = k) xs = [] \<and> filter (\<lambda>n. nk n < k) xs = xs \<and> filter (\<lambda>n. k < nk n) xs = []"
  by (induction xs) force+

lemma filter_none_below: "(\<And>x. x \<in> set xs \<Longrightarrow> k < (nk x :: int)) \<Longrightarrow>
    filter (\<lambda>n. nk n = k) xs = [] \<and> filter (\<lambda>n. nk n < k) xs = [] \<and> filter (\<lambda>n. k < nk n) xs = xs"
  by (induction xs) force+

lemma answer_right:
  assumes "\<And>x. x \<in> set (xs @ [a]) \<Longrightarrow> nk x < k"
  shows "avl_answer q nk k c (xs @ a # ys) = avl_answer q nk k (if q = AvlPrev then a else c) ys"
  using filter_none_above [of "xs @ [a]" nk k] assms
  by (cases q) (auto simp: avl_answer_def split: list.splits)

lemma answer_left:
  assumes "\<And>x. x \<in> set (a # ys) \<Longrightarrow> k < nk x"
  shows "avl_answer q nk k c (xs @ a # ys) = avl_answer q nk k (if q = AvlNext then a else c) xs"
  using filter_none_below [of "a # ys" k nk] assms
  by (cases q) (auto simp: avl_answer_def hd_append split: list.splits)

lemma find_tree:
  assumes cmp: "compares sub callback nk kk"
  shows "tree_at True (run_sb r) p par t \<Longrightarrow> arena_ok (run_sb r) \<Longrightarrow> sorted_wrt (<) (map nk (inorder t)) \<Longrightarrow> height t < g \<Longrightarrow>
    find_loop sub q callback key g r p c = Some (avl_answer q nk (kk key) c (inorder t), r)"
proof (induction t arbitrary: p par g c)
  case Leaf
  then show ?case by (cases g; cases q) (auto simp: avl_answer_def)
next
  case (Node l a u)
  obtain g' where g: "g = Suc g'" using Node.prems(4) by (cases g) auto
  have a: "p = a" "inside (run_sb r) a 16" using Node.prems(1) by auto
  from cmp obtain v where v: "avl_compare_key sub r callback a key = Some (v, r)"
    "v = 0 \<longleftrightarrow> nk a = kk key" "v <s 0 \<longleftrightarrow> nk a < kk key" "0 <s v \<longleftrightarrow> kk key < nk a" unfolding compares_def by blast
  note nz = inside_nonzero [OF a(2) Node.prems(2)] span_node [OF a(2)]
  have srt: "sorted_wrt (<) (map nk (inorder l))" "sorted_wrt (<) (map nk (inorder u))"
    "\<And>x. x \<in> set (inorder l) \<Longrightarrow> nk x < nk a" "\<And>x. x \<in> set (inorder u) \<Longrightarrow> nk a < nk x"
    using Node.prems(3) by (auto simp: sorted_wrt_append)
  have hl: "height l < g'" "height u < g'" using Node.prems(4) g by auto
  consider (eq) "nk a = kk key" | (less) "nk a < kk key" | (gr) "kk key < nk a" by linarith
  then show ?case
  proof cases
    case eq
    have "filter (\<lambda>n. nk n = kk key) (inorder l) = []" using srt(3) eq by (force simp: filter_empty_conv)
    then show ?thesis using eq v a nz g by (simp add: avl_answer_def)
  next
    case less
    have "nk x < kk key" if "x \<in> set (inorder l @ [a])" for x using that srt(3) [of x] less by auto
    then have "avl_answer q nk (kk key) c (inorder (Node l a u)) = avl_answer q nk (kk key) (if q = AvlPrev then a else c) (inorder u)"
      using answer_right [of "inorder l" a nk "kk key" q c "inorder u"] by simp
    moreover have "tree_at True (run_sb r) (gread32 (run_sb r) (a + avl_link True)) a u" using Node.prems(1) by simp
    ultimately show ?thesis using less v a nz g Node.IH(2) [OF _ Node.prems(2) srt(2) hl(2)] by (simp add: Let_def)
  next
    case gr
    have "kk key < nk x" if "x \<in> set (a # inorder u)" for x using that srt(4) [of x] gr by auto
    then have "avl_answer q nk (kk key) c (inorder (Node l a u)) = avl_answer q nk (kk key) (if q = AvlNext then a else c) (inorder l)"
      using answer_left [of a "inorder u" "kk key" nk q c "inorder l"] by simp
    moreover have "tree_at True (run_sb r) (gread32 (run_sb r) (a + avl_link False)) a l" using Node.prems(1) by simp
    ultimately show ?thesis using gr v a nz g Node.IH(1) [OF _ Node.prems(2) srt(1) hl(1)] by (simp add: Let_def)
  qed
qed

lemma avl_search_parts:
  assumes tree: "avl_tree (run_sb r) rootp nk t" "arena_ok (run_sb r)" "length (inorder t) \<le> 65536"
    and cmp: "compares sub callback nk kk"
  shows "AVL_FindByKey sub q (gread32 (run_sb r) rootp) key callback r = Some (avl_answer q nk (kk key) 0 (inorder t), r)"
    and "AVL_FindEnd (run_sb r) False (gread32 (run_sb r) rootp) = Some (hd (inorder t @ [0]))"
    and "AVL_FindEnd (run_sb r) True (gread32 (run_sb r) rootp) = Some (last (0 # inorder t))"
    and "inorder t = xs @ a # ys \<longrightarrow>
      AVL_FindByAddress (run_sb r) True a = Some (hd (ys @ [0])) \<and> AVL_FindByAddress (run_sb r) False a = Some (last (0 # xs))"
proof -
  let ?s = "run_sb r"
  have srt: "sorted_wrt (<) (map nk (inorder t))" and at: "tree_at True ?s (gread32 ?s rootp) 0 t" and ap: "nodes_apart ?s (inorder t)"
    using tree(1) by (auto simp: avl_tree_def)
  have h: "height t \<le> 65536" using tree(3) height_le_size_tree [of t] by (simp add: length_inorder)
  have dist: "distinct (inorder t)" by (rule nodes_apart_distinct [OF ap])
  have atm: "tree_at False ?s (gread32 ?s rootp) 0 (mirror t)" using at tree_at_mirror [of True ?s "gread32 ?s rootp" 0 "mirror t"] by simp
  have m: "inorder (mirror t) = rev (inorder t)" "height (mirror t) \<le> 65536" "distinct (inorder (mirror t))"
    using h dist by (simp_all add: inorder_mirror)
  have nm: "b \<noteq> UINT32_MAX" if "b \<in> set (inorder t)" for b using node_not_max ap tree(2) that by (auto simp: nodes_apart_def)
  have z: "0 \<noteq> UINT32_MAX" by (simp add: UINT32_MAX_def)
  show "AVL_FindByKey sub q (gread32 ?s rootp) key callback r = Some (avl_answer q nk (kk key) 0 (inorder t), r)"
    using find_tree [OF cmp at tree(2) srt, of 65537] h by (simp add: AVL_FindByKey_def)
  have e: "avl_extreme ?s (gread32 ?s rootp) False = hd (inorder t @ [0]) \<and> avl_extreme ?s (gread32 ?s rootp) True = last (0 # inorder t)"
  proof (cases "t = Leaf")
    case True
    then show ?thesis using at walks_zero(1) [of 65537 ?s] by (simp add: avl_extreme_def)
  next
    case False
    then have ne: "inorder t \<noteq> []" "mirror t \<noteq> Leaf" by (cases t; simp)+
    then show ?thesis
      using extreme_first [OF at False tree(2), of 65537] extreme_first [OF atm ne(2) tree(2), of 65537] h m
      by (simp add: avl_extreme_def hd_rev)
  qed
  have "hd (inorder t @ [0]) \<noteq> UINT32_MAX" "last (0 # inorder t) \<noteq> UINT32_MAX"
    using nm [of "hd (inorder t)"] nm [of "last (inorder t)"] z by (cases "inorder t"; simp)+
  then show "AVL_FindEnd ?s False (gread32 ?s rootp) = Some (hd (inorder t @ [0]))"
    "AVL_FindEnd ?s True (gread32 ?s rootp) = Some (last (0 # inorder t))"
    using e by (simp_all add: AVL_FindEnd_def)
  show "inorder t = xs @ a # ys \<longrightarrow>
      AVL_FindByAddress ?s True a = Some (hd (ys @ [0])) \<and> AVL_FindByAddress ?s False a = Some (last (0 # xs))"
  proof
    assume io: "inorder t = xs @ a # ys"
    have n: "avl_adjacent ?s a True = hd (ys @ [0])"
      using adjacent_last [OF at tree(2) dist h, of xs a] adjacent_next [OF at tree(2) dist h, of xs a "hd ys" "tl ys"] io
      by (cases ys) auto
    have p: "avl_adjacent ?s a False = last (0 # xs)"
      using adjacent_last [OF atm tree(2) m(3,2), of "rev ys" a] adjacent_next [OF atm tree(2) m(3,2), of "rev ys" a "last xs" "rev (butlast xs)"] io m(1)
      by (cases xs rule: rev_cases) auto
    have "hd (ys @ [0]) \<noteq> UINT32_MAX" "last (0 # xs) \<noteq> UINT32_MAX"
      using nm [of "hd ys"] nm [of "last xs"] z io by (cases ys; cases xs; auto)+
    then show "AVL_FindByAddress ?s True a = Some (hd (ys @ [0])) \<and> AVL_FindByAddress ?s False a = Some (last (0 # xs))"
      using n p by (simp add: AVL_FindByAddress_def)
  qed
qed


subsection \<open>A concrete tree\<close>

text \<open>
  The guest routine that subtracts the longword at offset 16 of its second argument from the one of its first; the witnesses
  apply the operations to the arena of \<open>demo_run\<close> with an empty tree whose root cell is the first longword of the heap.
\<close>

definition by_address_code :: "'a guest_code" where
  "by_address_code r callback g sp = Some (if ar g 0 = ar g 1 then 0 else if ar g 0 < ar g 1 then 0xFFFFFFFF else 1, r)"

definition demo_tree_run :: emu_run where
  "demo_tree_run = demo_run\<lparr>run_sb := gwrite32 (run_sb demo_run) 0x260000 0\<rparr>"

lemma by_address_compares: "callback \<noteq> 0 \<Longrightarrow> compares by_address_code callback uint uint"
  by (auto simp: compares_def avl_compare_key_def by_address_code_def no_regs_def word_sless_alt word_less_def word_uint_eq_iff [symmetric])
    (metis linorder_neqE word_uint_eq_iff)

lemma demo_tree: "avl_tree (run_sb demo_tree_run) 0x260000 nk Leaf" "arena_ok (run_sb demo_tree_run)"
  "run_sb demo_tree_run = gwrite32 (run_sb demo_run) 0x260000 0"
proof -
  have i: "inside (run_sb demo_run) 0x260000 4" "arena_ok (run_sb demo_run)"
    by (simp_all add: demo_run_def inside_def arena_ok_def)
  then show "avl_tree (run_sb demo_tree_run) 0x260000 nk Leaf" "arena_ok (run_sb demo_tree_run)"
    "run_sb demo_tree_run = gwrite32 (run_sb demo_run) 0x260000 0"
    by (simp_all add: demo_tree_run_def avl_tree_def gread_gwrite_same nodes_apart_def)
qed

lemma demo_node: "inside (run_sb demo_tree_run) 0x260010 16"
  "node_bytes (run_sb demo_tree_run) 0x260010 \<inter> tree_bytes (run_sb demo_tree_run) 0x260000 (inorder Leaf) = {}"
  unfolding demo_tree(3) by (simp_all add: demo_run_def inside_def tree_bytes_def host_range_def guest)

text \<open>The same run after one node was added.\<close>

lemma demo_one_node:
  obtains t r where "AVL_AddNode by_address_code 0x260000 0x260010 1 demo_tree_run = Some (0, r)"
    "avl_tree (run_sb r) 0x260000 uint t" "arena_ok (run_sb r)" "inorder t = [0x260010]"
proof -
  from add_inserts [OF demo_tree(1,2) _ demo_node by_address_compares [of 1]] obtain t s where
    t: "AVL_AddNode by_address_code 0x260000 0x260010 1 demo_tree_run = Some (0, demo_tree_run\<lparr>run_sb := s\<rparr>)"
      "avl_tree s 0x260000 uint t" "set (inorder t) = {0x260010}"
      "agree_on (- tree_bytes (run_sb demo_tree_run) 0x260000 [0x260010]) (run_sb demo_tree_run) s" by auto
  have "distinct (inorder t)" using t(2) by (auto simp: avl_tree_def dest: nodes_apart_distinct)
  then have "inorder t = [0x260010]" using t(3)
    by (cases "inorder t"; cases "tl (inorder t)") (auto simp del: set_inorder)
  moreover have "arena_ok s" using t(4) demo_tree(2) same_arenaD(1) [of "run_sb demo_tree_run" s] by (simp add: agree_on_def)
  ultimately show thesis using that t(1,2) by simp
qed




end
