(* ===== verification/EmuLists.thy ===== *)
theory EmuLists
  imports EmuGuest
begin

unbundle bit_operations_syntax

text \<open>
  The exec lists of a 68k program, operated on in guest memory by \<open>hosted/emu68k/emu68k_exec.c\<close>: a \<open>List\<close> is the three
  longwords \<open>lh_Head\<close>, \<open>lh_Tail\<close>, \<open>lh_TailPred\<close>, a \<open>Node\<close> begins with \<open>ln_Succ\<close> and \<open>ln_Pred\<close> and has its signed
  priority byte at offset 9. The header overlays two sentinel nodes, at the list's own address and four bytes after it.
\<close>

subsection \<open>The operations\<close>

definition exec_AddHead :: "u32 \<Rightarrow> u32 \<Rightarrow> sandbox \<Rightarrow> sandbox" where
  "exec_AddHead list node s =
     (let head = gread32 s list;
          s = gwrite32 s node head;
          s = gwrite32 s (node + 4) list;
          s = gwrite32 s (head + 4) node
      in gwrite32 s list node)"

definition exec_AddTail :: "u32 \<Rightarrow> u32 \<Rightarrow> sandbox \<Rightarrow> sandbox" where
  "exec_AddTail list node s =
     (let tailpred = gread32 s (list + 8);
          s = gwrite32 s node (list + 4);
          s = gwrite32 s (node + 4) tailpred;
          s = gwrite32 s tailpred node
      in gwrite32 s (list + 8) node)"

definition exec_Remove :: "u32 \<Rightarrow> sandbox \<Rightarrow> sandbox" where
  "exec_Remove node s =
     (let succ = gread32 s node; pred = gread32 s (node + 4);
          s = gwrite32 s pred succ
      in gwrite32 s (succ + 4) pred)"

text \<open>\<open>RemHead\<close> refuses a list whose head is the header itself (\<open>None\<close>, the run ends with a message).\<close>

definition exec_RemHead :: "u32 \<Rightarrow> sandbox \<Rightarrow> (u32 \<times> sandbox) option" where
  "exec_RemHead list s =
     (let node = gread32 s list in
      if node = list then None
      else let succ = gread32 s node in
        if succ = 0 then Some (0, s)
        else let s = gwrite32 s list succ;
                 s = gwrite32 s (succ + 4) list
          in Some (node, s))"

definition exec_RemTail :: "u32 \<Rightarrow> sandbox \<Rightarrow> u32 \<times> sandbox" where
  "exec_RemTail list s =
     (let node = gread32 s (list + 8); pred = gread32 s (node + 4) in
      if pred = 0 then (0, s)
      else let s = gwrite32 s (list + 8) pred;
               s = gwrite32 s pred (list + 4)
        in (node, s))"

definition ln_Pri :: "sandbox \<Rightarrow> u32 \<Rightarrow> int" where
  "ln_Pri s node = sint (host_mem s (j4_sandbox_host s node + 9))"

partial_function (option) enqueue_walk :: "sandbox \<Rightarrow> int \<Rightarrow> u32 \<Rightarrow> u32 option" where
  "enqueue_walk s pri nxt =
     (let succ = gread32 s nxt in
      if succ = 0 then Some nxt
      else if ln_Pri s nxt < pri then Some nxt
      else enqueue_walk s pri succ)"

definition exec_Enqueue :: "u32 \<Rightarrow> u32 \<Rightarrow> sandbox \<Rightarrow> sandbox option" where
  "exec_Enqueue list node s =
     (case enqueue_walk s (ln_Pri s node) (gread32 s list) of
        None \<Rightarrow> None
      | Some nxt \<Rightarrow>
          let pred = gread32 s (nxt + 4);
              s = gwrite32 s node nxt;
              s = gwrite32 s (node + 4) pred;
              s = gwrite32 s pred node
          in Some (gwrite32 s (nxt + 4) node))"

definition exec_Insert :: "u32 \<Rightarrow> u32 \<Rightarrow> u32 \<Rightarrow> sandbox \<Rightarrow> sandbox" where
  "exec_Insert list node pred s =
     (if pred = 0 \<or> pred = list then
        let succ = gread32 s list;
            s = gwrite32 s node succ;
            s = gwrite32 s (node + 4) list;
            s = gwrite32 s (succ + 4) node
        in gwrite32 s list node
      else
        let succ = gread32 s pred;
            s = gwrite32 s node succ;
            s = gwrite32 s (node + 4) pred;
            s = gwrite32 s (succ + 4) node
        in gwrite32 s pred node)"

definition exec_NewMinList :: "u32 \<Rightarrow> sandbox \<Rightarrow> sandbox" where
  "exec_NewMinList list s =
     (if list = 0 then s
      else let s = gwrite32 s list (list + 4);
               s = gwrite32 s (list + 4) 0
        in gwrite32 s (list + 8) list)"

text \<open>\<open>FindName\<close>, with \<open>None\<close> for a walk that does not end.\<close>

partial_function (option) find_name_walk :: "sandbox \<Rightarrow> u8 list \<Rightarrow> u32 \<Rightarrow> u32 option" where
  "find_name_walk s want n =
     (if n = 0 \<or> gread32 s n = 0 then Some 0
      else let nm = gread32 s (n + 10) in
        if nm \<noteq> 0 \<and> emu68k_guest_cstr s nm = Some want then Some n
        else find_name_walk s want (gread32 s n))"

definition exec_FindName :: "u32 \<Rightarrow> u32 \<Rightarrow> sandbox \<Rightarrow> u32 option" where
  "exec_FindName list want s =
     (case emu68k_guest_cstr s want of
        None \<Rightarrow> Some 0
      | Some w \<Rightarrow> if list = 0 then Some 0 else find_name_walk s w (gread32 s list))"

subsection \<open>Longword cells\<close>

text \<open>On a set of longwords that lie inside the arena and apart from each other, guest memory behaves like a function.\<close>

definition cells_ok :: "sandbox \<Rightarrow> u32 set \<Rightarrow> bool" where
  "cells_ok s C \<longleftrightarrow> arena_ok s \<and> (\<forall>a \<in> C. inside s a 4) \<and> (\<forall>a \<in> C. \<forall>b \<in> C. a \<noteq> b \<longrightarrow> apart a 4 b 4)"

lemma cell_write:
  "cells_ok s C \<Longrightarrow> a \<in> C \<Longrightarrow> b \<in> C \<Longrightarrow> gread32 (gwrite32 s a v) b = (if b = a then v else gread32 s b)"
  by (auto simp: cells_ok_def gread_gwrite_same gread_gwrite_other)

lemma cells_write [simp]: "cells_ok (gwrite32 s a v) C = cells_ok s C"
  by (simp add: cells_ok_def)

lemma cells_mono: "cells_ok s C \<Longrightarrow> D \<subseteq> C \<Longrightarrow> cells_ok s D"
  unfolding cells_ok_def by blast

lemma cell_nonzero: "cells_ok s C \<Longrightarrow> a \<in> C \<Longrightarrow> a \<noteq> 0"
  by (auto simp: cells_ok_def dest: inside_nonzero)

text \<open>Bytes outside the cells do not change.\<close>

lemma cell_write_bytes:
  assumes "cells_ok s C" "a \<in> C" "\<And>c. c \<in> C \<Longrightarrow> i \<notin> host_range s c 4"
  shows "host_mem (gwrite32 s a v) i = host_mem s i"
proof -
  have a: "inside s a 4" "arena_ok s" using assms(1,2) by (auto simp: cells_ok_def)
  have "i \<notin> host_range s a 4" using assms(2,3) by blast
  then show ?thesis using a by (simp add: write_in sb_write_outside host_range_def)
qed

lemma cells_disjoint:
  assumes "cells_ok s C" "a \<in> C" "b \<in> C" "a \<noteq> b"
  shows "host_range s a 4 \<inter> host_range s b 4 = {}"
  using assms by (fastforce simp: cells_ok_def host_range_def apart_def inside_def)

lemma agree_reads:
  assumes "agree_on (- X) s s'" "cells_ok s C" "a \<in> C" "host_range s a 4 \<inter> X = {}"
  shows "gread32 s' a = gread32 s a"
  using agree_read4 [OF assms(1)] assms(2-4) by (auto simp: cells_ok_def)

lemma cell_write_agree:
  assumes "cells_ok s C" "a \<in> C"
  shows "agree_on (- host_range s a 4) s (gwrite32 s a v)"
  using write_agree [of s a 4 0 v] assms by (auto simp: cells_ok_def)

lemma cells_same: "same_arena s s' \<Longrightarrow> cells_ok s C \<Longrightarrow> cells_ok s' C"
  using same_arenaD [of s s'] by (auto simp: cells_ok_def)

subsection \<open>Lists in guest memory\<close>

text \<open>
  \<open>linked s ps\<close>: each two neighbours of \<open>ps\<close> point at each other. A list at \<open>l\<close> holding the nodes \<open>xs\<close> is the chain from the head
  sentinel through the nodes to the tail sentinel, whose successor is 0.
\<close>

fun linked :: "sandbox \<Rightarrow> u32 list \<Rightarrow> bool" where
  "linked s (u # v # ps) \<longleftrightarrow> gread32 s u = v \<and> gread32 s (v + 4) = u \<and> linked s (v # ps)"
| "linked s ps \<longleftrightarrow> True"

definition glist :: "sandbox \<Rightarrow> u32 \<Rightarrow> u32 list \<Rightarrow> bool" where
  "glist s l xs \<longleftrightarrow> linked s (l # xs @ [l + 4]) \<and> gread32 s (l + 4) = 0"

text \<open>
  The longwords of a chain are the successor cells of all but the last node and the predecessor cells of all but the first.
  They must be distinct, apart and inside the arena, and so must the null cell of the tail sentinel.
\<close>

definition chain_cells :: "u32 list \<Rightarrow> u32 set" where
  "chain_cells ps = set (butlast ps) \<union> (\<lambda>x. x + 4) ` set (tl ps)"

definition chain_ok :: "u32 list \<Rightarrow> bool" where
  "chain_ok ps \<longleftrightarrow> distinct ps \<and> set (butlast ps) \<inter> (\<lambda>x. x + 4) ` set (tl ps) = {}"

definition list_cells :: "u32 \<Rightarrow> u32 list \<Rightarrow> u32 set" where
  "list_cells l xs = insert (l + 4) (chain_cells (l # xs @ [l + 4]))"

definition laid_out :: "sandbox \<Rightarrow> u32 \<Rightarrow> u32 list \<Rightarrow> bool" where
  "laid_out s l xs \<longleftrightarrow> chain_ok (l # xs @ [l + 4]) \<and> cells_ok s (list_cells l xs)"

lemma linked_append: "linked s (ps @ [u] @ qs) \<longleftrightarrow> linked s (ps @ [u]) \<and> linked s (u # qs)"
proof (induction ps)
  case (Cons p ps)
  then show ?case by (cases ps) auto
qed simp

lemma linked_cong:
  assumes "\<And>u. u \<in> set (butlast ps) \<Longrightarrow> gread32 s' u = gread32 s u"
    "\<And>v. v \<in> set (tl ps) \<Longrightarrow> gread32 s' (v + 4) = gread32 s (v + 4)"
  shows "linked s' ps \<longleftrightarrow> linked s ps"
  using assms
proof (induction s ps rule: linked.induct)
  case (1 s u v ps)
  then show ?case by (cases ps) auto
qed auto

lemma tl_subset: "x \<in> set (tl ps) \<Longrightarrow> x \<in> set ps"
  by (cases ps) auto

text \<open>
  An update confined to the cells between \<open>u\<close> and \<open>v\<close> keeps the chain up to \<open>u\<close> and the chain from \<open>v\<close>; \<open>ns\<close> are the nodes that are
  between them before or after it.
\<close>

lemma relink:
  assumes ok: "chain_ok (as @ u # ns @ v # bs)" and left: "linked s (as @ [u])" and right: "linked s (v # bs)"
    and other: "\<And>a. a \<in> chain_cells (as @ u # ns @ v # bs) \<Longrightarrow> a \<notin> {u, v + 4} \<union> set ns \<union> (\<lambda>x. x + 4) ` set ns \<Longrightarrow>
      gread32 s' a = gread32 s a"
  shows "linked s' (as @ [u])" "linked s' (v # bs)"
proof -
  let ?ps = "as @ u # ns @ v # bs" and ?W = "{u, v + 4} \<union> set ns \<union> (\<lambda>x. x + 4) ` set ns"
  have d: "distinct ?ps" and sp: "\<And>x y. x \<in> set (butlast ?ps) \<Longrightarrow> y \<in> set (tl ?ps) \<Longrightarrow> x \<noteq> y + 4"
    using ok unfolding chain_ok_def by blast+
  have bl: "butlast ?ps = as @ u # ns @ butlast (v # bs)" by (simp add: butlast_append)
  have tails: "set (tl ?ps) = set (tl (as @ [u])) \<union> set ns \<union> {v} \<union> set bs" by (cases as) auto
  have same_s: "gread32 s' x = gread32 s x" if "x \<in> set as \<union> set (butlast (v # bs))" for x
  proof (rule other)
    have x: "x \<in> set (butlast ?ps)" using that unfolding bl by auto
    then show "x \<in> chain_cells ?ps" by (simp only: chain_cells_def UnI1)
    have "x \<noteq> y + 4" if "y \<in> insert v (set ns)" for y using sp [OF x, of y] that tails by auto
    moreover have "x \<noteq> u" "x \<notin> set ns" using that d by (auto dest: in_set_butlastD split: if_splits)
    ultimately show "x \<notin> ?W" by auto
  qed
  have same_p: "gread32 s' (x + 4) = gread32 s (x + 4)" if "x \<in> set (tl (as @ [u])) \<union> set bs" for x
  proof (rule other)
    have x: "x \<in> set (tl ?ps)" using that tails by auto
    then show "x + 4 \<in> chain_cells ?ps" by (simp add: chain_cells_def)
    have "y \<noteq> x + 4" if "y \<in> insert u (set ns)" for y using sp [OF _ x, of y] that unfolding bl by auto
    moreover have "x \<notin> insert v (set ns)" using that d tl_subset [of x "as @ [u]"] by auto
    ultimately show "x + 4 \<notin> ?W" by auto
  qed
  show "linked s' (as @ [u])" using left by (subst linked_cong [of _ s' s]) (use same_s same_p in auto)
  show "linked s' (v # bs)" using right by (subst linked_cong [of _ s' s]) (use same_s same_p in auto)
qed

text \<open>Linking a node in between two neighbours, and taking one out.\<close>

lemma link_in:
  assumes ok: "chain_ok (as @ u # n # v # bs)" and old: "linked s (as @ u # v # bs)"
    and r: "gread32 s' u = n" "gread32 s' (n + 4) = u" "gread32 s' n = v" "gread32 s' (v + 4) = n"
    and other: "\<And>a. a \<in> chain_cells (as @ u # n # v # bs) \<Longrightarrow> a \<notin> {u, n, n + 4, v + 4} \<Longrightarrow> gread32 s' a = gread32 s a"
  shows "linked s' (as @ u # n # v # bs)"
  using relink [of as u "[n]" v bs s s'] ok old r other linked_append [of s as u "v # bs"] linked_append [of s' as u "n # v # bs"]
  by auto

lemma link_out:
  assumes ok: "chain_ok (as @ u # n # v # bs)" and old: "linked s (as @ u # n # v # bs)"
    and r: "gread32 s' u = v" "gread32 s' (v + 4) = u"
    and other: "\<And>a. a \<in> chain_cells (as @ u # n # v # bs) \<Longrightarrow> a \<notin> {u, v + 4} \<Longrightarrow> gread32 s' a = gread32 s a"
  shows "linked s' (as @ u # v # bs)"
  using relink [of as u "[n]" v bs s s'] ok old r other linked_append [of s as u "n # v # bs"] linked_append [of s' as u "v # bs"]
  by auto

subsection \<open>The operations on represented lists\<close>

text \<open>
  Where a node goes: after the nodes \<open>ys\<close> and before the nodes \<open>zs\<close>. \<open>pre\<close> and \<open>post\<close> are its neighbours, sentinels included.
\<close>

definition pre :: "u32 \<Rightarrow> u32 list \<Rightarrow> u32" where "pre l ys = last (l # ys)"
definition post :: "u32 \<Rightarrow> u32 list \<Rightarrow> u32" where "post l zs = hd (zs @ [l + 4])"

lemma chain_at: "l # ys @ ns @ zs @ [l + 4] = butlast (l # ys) @ pre l ys # ns @ post l zs # tl (zs @ [l + 4])"
proof -
  have "l # ys = butlast (l # ys) @ [pre l ys]" unfolding pre_def by (rule append_butlast_last_id [symmetric]) simp
  moreover have "zs @ [l + 4] = post l zs # tl (zs @ [l + 4])" by (cases zs) (simp_all add: post_def)
  ultimately show ?thesis by (metis append.assoc append_Cons append_Nil)
qed

text \<open>The bytes of all cells of a list.\<close>

definition list_bytes :: "sandbox \<Rightarrow> u32 \<Rightarrow> u32 list \<Rightarrow> nat set" where
  "list_bytes s l xs = (\<Union>c \<in> list_cells l xs. host_range s c 4)"

definition kept :: "sandbox \<Rightarrow> u32 \<Rightarrow> u32 list \<Rightarrow> sandbox \<Rightarrow> bool" where
  "kept s l xs s' \<longleftrightarrow> agree_on (- list_bytes s l xs) s s'"

lemma kept_refl: "kept s l xs s"
  by (simp add: kept_def agree_on_def same_arena_def)

lemma kept_write:
  assumes "kept s l xs s'" "cells_ok s (list_cells l xs)" "a \<in> list_cells l xs"
  shows "kept s l xs (gwrite32 s' a v)"
proof -
  have sa: "same_arena s s'" using assms(1) by (simp add: kept_def agree_on_def)
  have "inside s' a 4" "arena_ok s'" using assms(2,3) same_arenaD [OF sa] by (auto simp: cells_ok_def)
  from write_agree [OF this, of 0 v] have "agree_on (- host_range s a 4) s' (gwrite32 s' a v)"
    using same_arenaD [OF sa] by simp
  then have "agree_on (- list_bytes s l xs) s' (gwrite32 s' a v)"
    by (rule agree_mono) (use assms(3) in \<open>auto simp: list_bytes_def\<close>)
  with assms(1) show ?thesis unfolding kept_def by (rule agree_trans)
qed

lemma kept_cells: "kept s l xs s' \<Longrightarrow> cells_ok s C \<Longrightarrow> cells_ok s' C"
  using same_arenaD [of s s'] by (auto simp: kept_def agree_on_def cells_ok_def)

lemma kept_laid: "kept s l xs s' \<Longrightarrow> laid_out s l ys \<Longrightarrow> laid_out s' l ys"
  by (simp add: laid_out_def kept_cells)

lemma around:
  assumes "laid_out s l (ys @ n # zs)"
  defines "u \<equiv> pre l ys" and "v \<equiv> post l zs"
  shows "{u, n, n + 4, v + 4, l + 4} \<subseteq> list_cells l (ys @ n # zs)" "distinct [u, n, n + 4, v + 4]" "l + 4 \<notin> {u, n, n + 4, v + 4}"
    "u \<noteq> v" "n \<noteq> v"
proof -
  let ?as = "butlast (l # ys)" and ?bs = "tl (zs @ [l + 4])"
  let ?ps = "?as @ u # n # v # ?bs"
  have ps: "l # (ys @ n # zs) @ [l + 4] = ?ps" using chain_at [of l ys "[n]" zs] by (simp add: u_def v_def)
  have ok: "chain_ok ?ps" using assms(1) ps by (simp add: laid_out_def)
  then have d: "distinct ?ps" and sp: "\<And>x y. x \<in> set (butlast ?ps) \<Longrightarrow> y \<in> set (tl ?ps) \<Longrightarrow> x \<noteq> y + 4"
    unfolding chain_ok_def by blast+
  have m: "u \<in> set (butlast ?ps)" "n \<in> set (butlast ?ps)" "n \<in> set (tl ?ps)" "v \<in> set (tl ?ps)"
    by (auto simp: butlast_append tl_append split: list.splits)
  then show "{u, n, n + 4, v + 4, l + 4} \<subseteq> list_cells l (ys @ n # zs)"
    unfolding list_cells_def chain_cells_def ps by blast
  show "distinct [u, n, n + 4, v + 4]" using sp m d by auto
  show "u \<noteq> v" "n \<noteq> v" using d by auto
  have tail: "last ?ps = l + 4" unfolding ps [symmetric] by simp
  have "l + 4 \<notin> set (butlast ?ps)" using d tail by (metis append_butlast_last_id append_is_Nil_conv distinct_append disjoint_iff list.set_intros(1) list.simps(3))
  moreover have "l \<notin> set (tl ?ps)" using d unfolding ps [symmetric] by simp
  ultimately show "l + 4 \<notin> {u, n, n + 4, v + 4}" using m by auto
qed

text \<open>An update that writes the four cells around the new node represents the longer list.\<close>

lemma inserted:
  assumes lay: "laid_out s l (ys @ n # zs)" and g: "glist s l (ys @ zs)"
    and w: "\<And>a. a \<in> list_cells l (ys @ n # zs) \<Longrightarrow> gread32 s' a =
      (if a = pre l ys then n else if a = n then post l zs else if a = n + 4 then pre l ys else if a = post l zs + 4 then n else gread32 s a)"
  shows "glist s' l (ys @ n # zs)"
proof -
  note ar = around [OF lay]
  have ps: "l # (ys @ n # zs) @ [l + 4] = butlast (l # ys) @ pre l ys # n # post l zs # tl (zs @ [l + 4])"
    using chain_at [of l ys "[n]" zs] by simp
  have old: "linked s (butlast (l # ys) @ pre l ys # post l zs # tl (zs @ [l + 4]))"
    using g chain_at [of l ys "[]" zs] by (simp add: glist_def)
  have "linked s' (butlast (l # ys) @ pre l ys # n # post l zs # tl (zs @ [l + 4]))"
  proof (rule link_in [OF _ old])
    show "chain_ok (butlast (l # ys) @ pre l ys # n # post l zs # tl (zs @ [l + 4]))"
      using lay unfolding laid_out_def ps by simp
    show "gread32 s' (pre l ys) = n" "gread32 s' (n + 4) = pre l ys" "gread32 s' n = post l zs" "gread32 s' (post l zs + 4) = n"
      using ar w by auto
    fix a assume "a \<in> chain_cells (butlast (l # ys) @ pre l ys # n # post l zs # tl (zs @ [l + 4]))"
      "a \<notin> {pre l ys, n, n + 4, post l zs + 4}"
    then show "gread32 s' a = gread32 s a" using w [of a] unfolding list_cells_def ps by auto
  qed
  then show ?thesis using w [of "l + 4"] ar g unfolding glist_def ps by auto
qed

lemma removed:
  assumes lay: "laid_out s l (ys @ n # zs)" and g: "glist s l (ys @ n # zs)"
    and w: "\<And>a. a \<in> list_cells l (ys @ n # zs) \<Longrightarrow> gread32 s' a =
      (if a = pre l ys then post l zs else if a = post l zs + 4 then pre l ys else gread32 s a)"
  shows "glist s' l (ys @ zs)"
proof -
  note ar = around [OF lay]
  have ps: "l # (ys @ n # zs) @ [l + 4] = butlast (l # ys) @ pre l ys # n # post l zs # tl (zs @ [l + 4])"
    using chain_at [of l ys "[n]" zs] by simp
  have "linked s' (butlast (l # ys) @ pre l ys # post l zs # tl (zs @ [l + 4]))"
  proof (rule link_out [of _ _ n _ _ s])
    show "chain_ok (butlast (l # ys) @ pre l ys # n # post l zs # tl (zs @ [l + 4]))"
      using lay unfolding laid_out_def ps by simp
    show "linked s (butlast (l # ys) @ pre l ys # n # post l zs # tl (zs @ [l + 4]))"
      using g unfolding glist_def ps by simp
    show "gread32 s' (pre l ys) = post l zs" "gread32 s' (post l zs + 4) = pre l ys" using ar w by auto
    fix a assume "a \<in> chain_cells (butlast (l # ys) @ pre l ys # n # post l zs # tl (zs @ [l + 4]))"
      "a \<notin> {pre l ys, post l zs + 4}"
    then show "gread32 s' a = gread32 s a" using w [of a] unfolding list_cells_def ps by auto
  qed
  then show ?thesis using w [of "l + 4"] ar g chain_at [of l ys "[]" zs] unfolding glist_def by auto
qed

text \<open>The neighbours as the links of the list give them.\<close>

lemma neighbours:
  assumes "glist s l (ys @ zs)"
  shows "gread32 s (pre l ys) = post l zs" "gread32 s (post l zs + 4) = pre l ys"
proof -
  have "linked s (butlast (l # ys) @ [pre l ys] @ post l zs # tl (zs @ [l + 4]))"
    using assms chain_at [of l ys "[]" zs] by (simp add: glist_def)
  then show "gread32 s (pre l ys) = post l zs" "gread32 s (post l zs + 4) = pre l ys"
    unfolding linked_append by auto
qed

text \<open>The four writes of an insertion, in the two orders the code uses, and the two writes of a removal.\<close>

lemma insert_writes:
  assumes lay: "laid_out s l (ys @ n # zs)" and g: "glist s l (ys @ zs)"
    and w: "s' = gwrite32 (gwrite32 (gwrite32 (gwrite32 s n v) (n + 4) u) c1 n) c2 n" and uv: "u = pre l ys" "v = post l zs"
    and c: "c1 = v + 4 \<and> c2 = u \<or> c1 = u \<and> c2 = v + 4"
  shows "glist s' l (ys @ n # zs) \<and> kept s l (ys @ n # zs) s'"
proof
  let ?C = "list_cells l (ys @ n # zs)"
  note ar = around [OF lay, folded uv]
  have ok: "cells_ok s ?C" using lay by (simp add: laid_out_def)
  show "glist s' l (ys @ n # zs)"
  proof (rule inserted [OF lay g], unfold uv [symmetric])
    fix a assume "a \<in> ?C"
    then show "gread32 s' a = (if a = u then n else if a = n then v else if a = n + 4 then u else if a = v + 4 then n else gread32 s a)"
      using ar c ok unfolding w by (elim disjE conjE) (simp_all add: cell_write [of _ ?C])
  qed
  show "kept s l (ys @ n # zs) s'" unfolding w
    by (intro kept_write [OF _ ok] kept_refl) (use ar c in auto)
qed

lemma remove_writes:
  assumes lay: "laid_out s l (ys @ n # zs)" and g: "glist s l (ys @ n # zs)"
    and w: "s' = gwrite32 (gwrite32 s c1 w1) c2 w2"
    and c: "(c1, w1, c2, w2) = (pre l ys, post l zs, post l zs + 4, pre l ys) \<or>
      (c1, w1, c2, w2) = (post l zs + 4, pre l ys, pre l ys, post l zs)"
  shows "glist s' l (ys @ zs) \<and> kept s l (ys @ n # zs) s'"
proof
  let ?C = "list_cells l (ys @ n # zs)"
  note ar = around [OF lay]
  have ok: "cells_ok s ?C" using lay by (simp add: laid_out_def)
  show "glist s' l (ys @ zs)"
  proof (rule removed [OF lay g])
    fix a assume "a \<in> ?C"
    then show "gread32 s' a = (if a = pre l ys then post l zs else if a = post l zs + 4 then pre l ys else gread32 s a)"
      using ar c ok unfolding w by (elim disjE conjE) (simp_all add: cell_write [of _ ?C])
  qed
  show "kept s l (ys @ n # zs) s'" unfolding w
    by (intro kept_write [OF _ ok] kept_refl) (use ar c in auto)
qed

lemma node_nonzero:
  assumes "laid_out s l xs" shows "x \<in> set xs \<Longrightarrow> x \<noteq> 0" "l \<noteq> 0" "l + 4 \<noteq> 0" "pre l xs \<noteq> 0" "post l xs \<noteq> 0"
proof -
  have ok: "cells_ok s (list_cells l xs)" using assms by (simp add: laid_out_def)
  have c: "a \<noteq> 0" if "a \<in> list_cells l xs" for a by (rule cell_nonzero [OF ok that])
  show x: "x \<in> set xs \<Longrightarrow> x \<noteq> 0" for x by (rule c) (simp add: list_cells_def chain_cells_def butlast_append)
  show l: "l \<noteq> 0" by (rule c) (simp add: list_cells_def chain_cells_def butlast_append)
  show t: "l + 4 \<noteq> 0" by (rule c) (simp add: list_cells_def)
  show "pre l xs \<noteq> 0" using x l by (simp add: pre_def)
  show "post l xs \<noteq> 0" using x t by (cases xs) (simp_all add: post_def)
qed

lemma laid_out_perm: "set xs = set xs' \<Longrightarrow> distinct xs = distinct xs' \<Longrightarrow> laid_out s l xs = laid_out s l xs'"
proof -
  assume "set xs = set xs'" "distinct xs = distinct xs'"
  then show ?thesis by (auto simp: laid_out_def chain_ok_def list_cells_def chain_cells_def butlast_append)
qed

lemma add_head:
  assumes "laid_out s l (n # xs)" "glist s l xs"
  shows "glist (exec_AddHead l n s) l (n # xs) \<and> kept s l (n # xs) (exec_AddHead l n s)"
  using insert_writes [of s l "[]" n xs, OF _ _ refl refl refl, of "post l xs + 4" l] assms neighbours [of s l "[]" xs]
  by (simp add: exec_AddHead_def Let_def pre_def)

lemma add_tail:
  assumes "laid_out s l (xs @ [n])" "glist s l xs"
  shows "glist (exec_AddTail l n s) l (xs @ [n]) \<and> kept s l (xs @ [n]) (exec_AddTail l n s)"
  using insert_writes [of s l xs n "[]", OF _ _ refl refl refl, of "pre l xs" "l + 8"] assms neighbours [of s l xs "[]"]
  by (simp add: exec_AddTail_def Let_def post_def add.commute [of l 8])

lemma insert_after:
  assumes lay: "laid_out s l (ys @ n # zs)" and g: "glist s l (ys @ zs)" and p: "p = (if ys = [] then 0 else last ys) \<or> p = pre l ys"
  shows "glist (exec_Insert l n p s) l (ys @ n # zs) \<and> kept s l (ys @ n # zs) (exec_Insert l n p s)"
proof -
  have "p = 0 \<or> p = l \<longleftrightarrow> ys = []"
    using p node_nonzero(1,2) [OF lay] lay by (auto simp: pre_def laid_out_def chain_ok_def split: if_splits)
  then show ?thesis using insert_writes [OF lay g refl refl refl, of "post l zs + 4" "pre l ys"] neighbours [OF g] p
    by (auto simp: exec_Insert_def Let_def pre_def split: if_splits)
qed

lemma remove_node:
  assumes "laid_out s l (ys @ n # zs)" "glist s l (ys @ n # zs)"
  shows "glist (exec_Remove n s) l (ys @ zs) \<and> kept s l (ys @ n # zs) (exec_Remove n s)"
proof -
  have "gread32 s n = post l zs" using neighbours(1) [of s l "ys @ [n]" zs] assms(2) by (simp add: pre_def)
  moreover have "gread32 s (n + 4) = pre l ys" using neighbours(2) [of s l ys "n # zs"] assms(2) by (simp add: post_def)
  ultimately show ?thesis using remove_writes [OF assms refl] by (simp add: exec_Remove_def Let_def)
qed

lemma rem_head:
  assumes "laid_out s l (n # xs)" "glist s l (n # xs)"
  shows "\<exists>s'. exec_RemHead l s = Some (n, s') \<and> glist s' l xs \<and> kept s l (n # xs) s'"
proof -
  have h: "gread32 s l = n" using neighbours(1) [of s l "[]" "n # xs"] assms(2) by (simp add: pre_def post_def)
  have x: "gread32 s n = post l xs" using neighbours(1) [of s l "[n]" xs] assms(2) by (simp add: pre_def)
  have "n \<noteq> l" using assms(1) by (auto simp: laid_out_def chain_ok_def)
  moreover have "post l xs \<noteq> 0" using node_nonzero(1,3) [OF assms(1)] by (cases xs) (auto simp: post_def)
  ultimately show ?thesis using remove_writes [of s l "[]" n xs, OF _ _ refl] assms h x
    by (simp add: exec_RemHead_def Let_def pre_def)
qed

lemma rem_tail:
  assumes "laid_out s l (xs @ [n])" "glist s l (xs @ [n])"
  shows "\<exists>s'. exec_RemTail l s = (n, s') \<and> glist s' l xs \<and> kept s l (xs @ [n]) s'"
proof -
  have t: "gread32 s (l + 8) = n" using neighbours(2) [of s l "xs @ [n]" "[]"] assms(2) by (simp add: pre_def post_def add.commute [of l 8])
  have x: "gread32 s (n + 4) = pre l xs" using neighbours(2) [of s l xs "[n]"] assms(2) by (simp add: post_def)
  have "pre l xs \<noteq> 0" using node_nonzero(1,2) [OF assms(1)] by (auto simp: pre_def)
  then show ?thesis using remove_writes [of s l xs n "[]", OF _ _ refl] assms t x
    by (simp add: exec_RemTail_def Let_def post_def add.commute [of l 8])
qed

lemma empty_list:
  assumes "glist s l []" "l \<noteq> 0" "l + 4 \<noteq> l"
  shows "exec_RemHead l s = Some (0, s)" "exec_RemTail l s = (0, s)"
  using assms by (simp_all add: exec_RemHead_def exec_RemTail_def glist_def Let_def add.commute [of l 8])

text \<open>The walk of \<open>Enqueue\<close> stops in front of the first node of lower priority.\<close>

lemma enqueue_walks:
  assumes "glist s l (ys @ zs)" "laid_out s l (ys @ zs)"
  shows "enqueue_walk s pri (post l zs) = Some (post l (dropWhile (\<lambda>x. pri \<le> ln_Pri s x) zs))"
  using assms
proof (induction zs arbitrary: ys)
  case Nil
  then show ?case by (subst enqueue_walk.simps) (simp add: post_def glist_def)
next
  case (Cons z zs)
  have z: "gread32 s z = post l zs" using neighbours(1) [of s l "ys @ [z]" zs] Cons.prems by (simp add: pre_def)
  have "post l zs \<noteq> 0" using node_nonzero(1,3) [OF Cons.prems(2)] by (cases zs) (auto simp: post_def)
  then show ?case using Cons.IH [of "ys @ [z]"] Cons.prems z
    by (subst enqueue_walk.simps) (simp add: Let_def post_def)
qed

lemma laid_out_sub: "laid_out s l (ys @ n # zs) \<Longrightarrow> laid_out s l (ys @ zs)"
  unfolding laid_out_def chain_ok_def by (auto simp: butlast_append list_cells_def chain_cells_def elim!: cells_mono)

lemma enqueue_node:
  assumes lay: "laid_out s l (n # xs)" and g: "glist s l xs"
  defines "ys \<equiv> takeWhile (\<lambda>x. ln_Pri s n \<le> ln_Pri s x) xs" and "zs \<equiv> dropWhile (\<lambda>x. ln_Pri s n \<le> ln_Pri s x) xs"
  shows "\<exists>s'. exec_Enqueue l n s = Some s' \<and> glist s' l (ys @ n # zs) \<and> kept s l (ys @ n # zs) s'"
proof -
  have xs: "xs = ys @ zs" by (simp add: ys_def zs_def)
  have lay': "laid_out s l (ys @ n # zs)" using lay laid_out_perm [of "n # xs" "ys @ n # zs" s l] by (auto simp: xs)
  have g': "glist s l (ys @ zs)" using g by (simp add: xs)
  have "gread32 s l = post l xs" using neighbours(1) [of s l "[]" xs] g by (simp add: pre_def)
  then have "enqueue_walk s (ln_Pri s n) (gread32 s l) = Some (post l zs)"
    using enqueue_walks [of s l "[]" xs "ln_Pri s n"] g laid_out_sub [where ys = "[]"] lay by (simp add: zs_def)
  then show ?thesis using insert_writes [OF lay' g' refl refl refl, of "pre l ys" "post l zs + 4"] neighbours [OF g']
    by (simp add: exec_Enqueue_def Let_def)
qed

lemma new_list:
  assumes "laid_out s l []"
  shows "glist (exec_NewMinList l s) l [] \<and> kept s l [] (exec_NewMinList l s)"
proof -
  have c: "list_cells l [] = {l, l + 4, l + 8}" by (auto simp: list_cells_def chain_cells_def)
  have ok: "cells_ok s {l, l + 4, l + 8}" using assms unfolding laid_out_def c by simp
  have nz: "l \<noteq> 0" by (rule node_nonzero [OF assms])
  have "l + 4 \<noteq> l" "l + 8 \<noteq> l" "l + 8 \<noteq> l + 4" by simp_all
  moreover have "kept s l [] (exec_NewMinList l s)" using nz ok
    unfolding exec_NewMinList_def Let_def by (auto intro!: kept_write kept_refl simp: c)
  ultimately show ?thesis using nz ok
    by (simp add: exec_NewMinList_def Let_def glist_def cell_write [of _ "{l, l + 4, l + 8}"])
qed


text \<open>The walk of \<open>FindName\<close> returns the first node whose name string equals the wanted one.\<close>

definition named :: "sandbox \<Rightarrow> u8 list \<Rightarrow> u32 \<Rightarrow> bool" where
  "named s want n \<longleftrightarrow> gread32 s (n + 10) \<noteq> 0 \<and> emu68k_guest_cstr s (gread32 s (n + 10)) = Some want"

lemma find_name_walks:
  assumes "glist s l (ys @ zs)" "laid_out s l (ys @ zs)"
  shows "find_name_walk s want (post l zs) = Some (case find (named s want) zs of None \<Rightarrow> 0 | Some n \<Rightarrow> n)"
  using assms
proof (induction zs arbitrary: ys)
  case Nil
  then show ?case by (subst find_name_walk.simps) (simp add: post_def glist_def)
next
  case (Cons z zs)
  have z: "gread32 s z = post l zs" using neighbours(1) [of s l "ys @ [z]" zs] Cons.prems by (simp add: pre_def)
  have "post l zs \<noteq> 0" using node_nonzero(1,3) [OF Cons.prems(2)] by (cases zs) (auto simp: post_def)
  moreover have "z \<noteq> 0" using node_nonzero(1) [OF Cons.prems(2)] by simp
  moreover have "find_name_walk s want (post l zs) = Some (case find (named s want) zs of None \<Rightarrow> 0 | Some n \<Rightarrow> n)"
    using Cons.IH [of "ys @ [z]"] Cons.prems by simp
  ultimately show ?case
    by (subst find_name_walk.simps) (simp add: post_def [of l "z # zs"] z named_def Let_def)
qed

lemma find_name:
  assumes "glist s l xs" "laid_out s l xs"
  shows "exec_FindName l want s = Some (case emu68k_guest_cstr s want of None \<Rightarrow> 0
    | Some w \<Rightarrow> (case find (named s w) xs of None \<Rightarrow> 0 | Some n \<Rightarrow> n))"
  using find_name_walks [of s l "[]" xs] assms node_nonzero(2) [OF assms(2)] neighbours(1) [of s l "[]" xs]
  by (simp add: exec_FindName_def pre_def split: option.split)

subsection \<open>Refinement\<close>

text \<open>The state after an operation holds the list \<open>ys\<close>, and no byte outside the cells of the list and the node changed.\<close>

definition now_holds :: "sandbox \<Rightarrow> u32 \<Rightarrow> u32 list \<Rightarrow> u32 list \<Rightarrow> sandbox \<Rightarrow> bool" where
  "now_holds s l xs ys s' \<longleftrightarrow> glist s' l ys \<and> laid_out s' l ys \<and> kept s l xs s'"

lemma list_bytes_perm: "set xs = set xs' \<Longrightarrow> list_bytes s l xs = list_bytes s l xs'"
  by (simp add: list_bytes_def list_cells_def chain_cells_def butlast_append)

lemma list_bytes_mono: "set xs \<subseteq> set xs' \<Longrightarrow> list_bytes s l xs \<subseteq> list_bytes s l xs'"
  by (auto simp: list_bytes_def list_cells_def chain_cells_def butlast_append)

lemma now_holds_perm:
  assumes "glist s' l ys \<and> kept s l zs s'" "laid_out s l ys" "set zs \<subseteq> set xs"
  shows "now_holds s l xs ys s'"
proof -
  have "kept s l xs s'" using assms(1) list_bytes_mono [OF assms(3), of s l] unfolding kept_def
    by (auto elim!: agree_mono)
  then show ?thesis using assms(1,2) kept_laid [of s l xs s' ys] by (simp add: now_holds_def)
qed

text \<open>Where \<open>Enqueue\<close> puts a node of priority \<open>p\<close>: in front of the first node of lower priority.\<close>

definition enqueued :: "sandbox \<Rightarrow> u32 \<Rightarrow> u32 list \<Rightarrow> u32 list" where
  "enqueued s n xs =
     takeWhile (\<lambda>x. ln_Pri s n \<le> ln_Pri s x) xs @ n # dropWhile (\<lambda>x. ln_Pri s n \<le> ln_Pri s x) xs"

lemma enqueued_split: obtains ys zs where "xs = ys @ zs" "enqueued s n xs = ys @ n # zs"
  using that takeWhile_dropWhile_id [symmetric] unfolding enqueued_def by blast

lemma set_enqueued: "set (enqueued s n xs) = set (n # xs)"
  by (rule enqueued_split [of xs s n]) auto

lemma distinct_enqueued: "distinct (enqueued s n xs) = distinct (n # xs)"
  by (rule enqueued_split [of xs s n]) auto

lemma insertions:
  assumes lay: "laid_out s l (n # xs)" and g: "glist s l xs"
  shows "now_holds s l (n # xs) (n # xs) (exec_AddHead l n s)"
    "now_holds s l (n # xs) (xs @ [n]) (exec_AddTail l n s)"
    "xs = ys @ zs \<Longrightarrow> p = pre l ys \<or> ys = [] \<and> p = 0 \<Longrightarrow> now_holds s l (n # xs) (ys @ n # zs) (exec_Insert l n p s)"
    "\<exists>s'. exec_Enqueue l n s = Some s' \<and> now_holds s l (n # xs) (enqueued s n xs) s'"
proof -
  have perm: "laid_out s l ys'" if "set ys' = set (n # xs)" "distinct ys' = distinct (n # xs)" for ys'
    using lay laid_out_perm that by blast
  show "now_holds s l (n # xs) (n # xs) (exec_AddHead l n s)"
    by (rule now_holds_perm [OF add_head [OF lay g] lay]) simp
  have l2: "laid_out s l (xs @ [n])" by (rule perm) auto
  show "now_holds s l (n # xs) (xs @ [n]) (exec_AddTail l n s)"
    by (rule now_holds_perm [OF add_tail [OF l2 g] l2]) simp
  show "now_holds s l (n # xs) (ys @ n # zs) (exec_Insert l n p s)" if "xs = ys @ zs" "p = pre l ys \<or> ys = [] \<and> p = 0"
  proof -
    have l3: "laid_out s l (ys @ n # zs)" by (rule perm) (use that(1) in auto)
    show ?thesis by (rule now_holds_perm [OF insert_after [OF l3] l3]) (use that g in auto)
  qed
  have l4: "laid_out s l (enqueued s n xs)" by (rule perm) (rule set_enqueued distinct_enqueued)+
  from enqueue_node [OF lay g] obtain s' where "exec_Enqueue l n s = Some s'"
    "glist s' l (enqueued s n xs) \<and> kept s l (enqueued s n xs) s'" unfolding enqueued_def by blast
  then show "\<exists>s'. exec_Enqueue l n s = Some s' \<and> now_holds s l (n # xs) (enqueued s n xs) s'"
    using now_holds_perm [OF _ l4] set_enqueued by blast
qed

lemma laid_out_first: "laid_out s l (n # xs) \<Longrightarrow> laid_out s l xs"
  using laid_out_sub [of s l "[]" n xs] by simp

lemma removals:
  assumes lay: "laid_out s l xs" and g: "glist s l xs"
  shows "xs = ys @ n # zs \<Longrightarrow> now_holds s l xs (ys @ zs) (exec_Remove n s)"
    "case xs of [] \<Rightarrow> exec_RemHead l s = Some (0, s)
       | x # ys \<Rightarrow> \<exists>s'. exec_RemHead l s = Some (x, s') \<and> now_holds s l xs ys s'"
    "case rev xs of [] \<Rightarrow> exec_RemTail l s = (0, s)
       | x # ys \<Rightarrow> \<exists>s'. exec_RemTail l s = (x, s') \<and> now_holds s l xs (rev ys) s'"
proof -
  show "now_holds s l xs (ys @ zs) (exec_Remove n s)" if "xs = ys @ n # zs"
    using remove_node [of s l ys n zs] lay g laid_out_sub [of s l ys n zs] unfolding that
    by (intro now_holds_perm [of _ l _ s "ys @ n # zs"]) auto
  have l: "l \<noteq> 0" "l + 4 \<noteq> l" using node_nonzero(2) [OF lay] by auto
  show "case xs of [] \<Rightarrow> exec_RemHead l s = Some (0, s)
       | x # ys \<Rightarrow> \<exists>s'. exec_RemHead l s = Some (x, s') \<and> now_holds s l xs ys s'"
  proof (cases xs)
    case (Cons x ys)
    then obtain s' where "exec_RemHead l s = Some (x, s')" "glist s' l ys \<and> kept s l xs s'"
      using rem_head [of s l x ys] lay g by auto
    then show ?thesis using now_holds_perm [of s' l ys s xs xs] laid_out_first [of s l x ys] lay Cons by auto
  qed (use empty_list g l in auto)
  show "case rev xs of [] \<Rightarrow> exec_RemTail l s = (0, s)
       | x # ys \<Rightarrow> \<exists>s'. exec_RemTail l s = (x, s') \<and> now_holds s l xs (rev ys) s'"
  proof (cases xs rule: rev_cases)
    case (snoc ys x)
    then obtain s' where "exec_RemTail l s = (x, s')" "glist s' l ys \<and> kept s l xs s'"
      using rem_tail [of s l ys x] lay g by auto
    then show ?thesis using now_holds_perm [of s' l ys s xs xs] laid_out_sub [of s l ys x "[]"] lay snoc by auto
  qed (use empty_list g l in auto)
qed

text \<open>C31. The list operations on guest memory implement operations on finite sequences of nodes. On a well laid out list of
  the nodes xs and a further node n, adding at either end, inserting behind a node or at the head (also with predecessor 0), and
  enqueuing by signed priority in front of the first node of lower priority give the sequence with n at that place; removing any node, the
  head or the tail gives the sequence without it and the node taken (0 and no change for an empty list). Each of
  them ends, keeps the links of every node consistent in both directions, and changes no byte outside the list's own links. FindName
  returns the first node of that name, or 0.\<close>

theorem guest_lists_refine:
  assumes "laid_out s l (n # xs)" "glist s l xs"
  shows "now_holds s l (n # xs) (n # xs) (exec_AddHead l n s) \<and> now_holds s l (n # xs) (xs @ [n]) (exec_AddTail l n s) \<and>
    now_holds s l (n # xs) (n # xs) (exec_Insert l n 0 s) \<and> now_holds s l (n # xs) (n # xs) (exec_Insert l n l s) \<and>
    (\<forall>ys p zs. xs = ys @ p # zs \<longrightarrow> now_holds s l (n # xs) (ys @ p # n # zs) (exec_Insert l n p s)) \<and>
    (\<exists>s'. exec_Enqueue l n s = Some s' \<and> now_holds s l (n # xs) (enqueued s n xs) s') \<and>
    (\<forall>ys x zs. xs = ys @ x # zs \<longrightarrow> now_holds s l xs (ys @ zs) (exec_Remove x s)) \<and>
    (case xs of [] \<Rightarrow> exec_RemHead l s = Some (0, s)
       | x # ys \<Rightarrow> \<exists>s'. exec_RemHead l s = Some (x, s') \<and> now_holds s l xs ys s') \<and>
    (case rev xs of [] \<Rightarrow> exec_RemTail l s = (0, s)
       | x # ys \<Rightarrow> \<exists>s'. exec_RemTail l s = (x, s') \<and> now_holds s l xs (rev ys) s') \<and>
    (\<forall>want w. emu68k_guest_cstr s want = Some w \<longrightarrow>
       exec_FindName l want s = Some (case find (named s w) xs of None \<Rightarrow> 0 | Some x \<Rightarrow> x))"
proof (intro conjI allI impI)
  note ins = insertions [OF assms] and rem = removals [OF laid_out_first [OF assms(1)] assms(2)]
  show "now_holds s l (n # xs) (n # xs) (exec_AddHead l n s)" "now_holds s l (n # xs) (xs @ [n]) (exec_AddTail l n s)"
    "\<exists>s'. exec_Enqueue l n s = Some s' \<and> now_holds s l (n # xs) (enqueued s n xs) s'" by (rule ins)+
  show "now_holds s l (n # xs) (n # xs) (exec_Insert l n 0 s)" "now_holds s l (n # xs) (n # xs) (exec_Insert l n l s)"
    using ins(3) [of "[]" xs] by (simp_all add: pre_def)
  show "now_holds s l (n # xs) (ys @ p # n # zs) (exec_Insert l n p s)" if "xs = ys @ p # zs" for ys p zs
    using ins(3) [of "ys @ [p]" zs p] that by (simp add: pre_def)
  show "now_holds s l xs (ys @ zs) (exec_Remove x s)" if "xs = ys @ x # zs" for ys x zs by (rule rem(1) [OF that])
  show "exec_FindName l want s = Some (case find (named s w) xs of None \<Rightarrow> 0 | Some x \<Rightarrow> x)"
    if "emu68k_guest_cstr s want = Some w" for want w
    using find_name [OF assms(2) laid_out_first [OF assms(1)], of want] that by simp
qed (rule removals(2,3) [OF laid_out_first [OF assms(1)] assms(2)])+

text \<open>A list at the start of the demonstration heap and two nodes behind it.\<close>

lemma demo_laid_out: "laid_out (run_sb demo_run) 0x260000 [0x260020, 0x260010]"
  by (simp add: laid_out_def chain_ok_def list_cells_def chain_cells_def cells_ok_def demo_run_def inside_def apart_def arena_ok_def)

lemma guest_lists_refine_witness:
  "\<exists>s. now_holds (exec_NewMinList 0x260000 (run_sb demo_run)) 0x260000 [0x260010] [0x260010] s \<and>
     now_holds s 0x260000 [0x260020, 0x260010] [0x260010, 0x260020] (exec_AddTail 0x260000 0x260020 s)"
proof -
  define s0 where "s0 = exec_NewMinList 0x260000 (run_sb demo_run)"
  have lay: "laid_out (run_sb demo_run) 0x260000 [0x260010]" "laid_out (run_sb demo_run) 0x260000 []"
    using laid_out_first [OF demo_laid_out] laid_out_first by blast+
  have s0: "glist s0 0x260000 []" "kept (run_sb demo_run) 0x260000 [] s0" using new_list [OF lay(2)] by (simp_all add: s0_def)
  have l0: "laid_out s0 0x260000 [0x260020, 0x260010]" "laid_out s0 0x260000 [0x260010]"
    using kept_laid [OF s0(2)] lay(1) demo_laid_out by blast+
  define s1 where "s1 = exec_AddHead 0x260000 0x260010 s0"
  have a: "now_holds s0 0x260000 [0x260010] [0x260010] s1"
    using guest_lists_refine [OF l0(2) s0(1)] by (simp add: s1_def)
  have "laid_out s1 0x260000 [0x260020, 0x260010]" "glist s1 0x260000 [0x260010]"
    using a l0(1) by (auto simp: now_holds_def dest: kept_laid)
  from guest_lists_refine [OF this] a show ?thesis by (auto simp: s0_def intro!: exI [of _ s1])
qed

end
