(* ===== verification/EmuDates.thy ===== *)
theory EmuDates
  imports EmuGuest
begin

unbundle bit_operations_syntax

text \<open>
  The date functions of utility.library in guest memory (\<open>hosted/emu68k/emu68k_utility.c\<close>): \<open>Amiga2Date\<close>, \<open>Date2Amiga\<close> and \<open>CheckDate\<close>
  over a \<open>ClockData\<close> of seven 16-bit fields, and seconds since the first of January 1978.
\<close>

subsection \<open>The calendar\<close>

definition span_ok :: "sandbox \<Rightarrow> u32 \<Rightarrow> u32 \<Rightarrow> bool" where
  "span_ok s p n \<longleftrightarrow> p \<ge> sandbox_origin s \<and> unat p + unat n \<le> unat (sandbox_origin s) + unat (sb_size s)"

definition leap_year :: "u32 \<Rightarrow> bool" where
  "leap_year year \<longleftrightarrow> year mod 400 = 0 \<or> (year mod 4 = 0 \<and> year mod 100 \<noteq> 0)"

definition month_table :: "u32 list" where
  "month_table = [31, 28, 31, 30, 31, 30, 31, 31, 30, 31, 30, 31]"

text \<open>\<open>None\<close> for an index outside the table.\<close>

definition month_days :: "u32 \<Rightarrow> u32 \<Rightarrow> u32 option" where
  "month_days year month =
     (if unat (month - 1) < length month_table
      then Some (month_table ! unat (month - 1) + (if month = 2 \<and> leap_year year then 1 else 0)) else None)"

definition year_length :: "u32 \<Rightarrow> u32" where
  "year_length y = (if leap_year y then 366 else 365)"

lemma year_length_nat: "unat (year_length y) = (if leap_year y then 366 else 365)"
  by (simp add: year_length_def)

lemma unat_next: "(y :: u32) < z \<Longrightarrow> unat (y + 1) = unat y + 1"
  using unat_u32 [of z] by (subst unat_plus_if') (auto simp: word_less_nat_alt)

subsection \<open>The operations\<close>

definition M68K_ClockData_SIZEOF :: u32 where "M68K_ClockData_SIZEOF = 14"

function add_years :: "u32 \<Rightarrow> u32 \<Rightarrow> u32 \<Rightarrow> u32" where
  "add_years year y days = (if y < year then add_years year (y + 1) (days + year_length y) else days)"
  by pat_completeness auto
termination
  by (relation "measure (\<lambda>(year, y, days). unat year - unat y)") (auto simp: unat_next word_less_nat_alt)

function add_months :: "u32 \<Rightarrow> u32 \<Rightarrow> u32 \<Rightarrow> u32 \<Rightarrow> u32 option" where
  "add_months year month m days =
     (if m < month then (case month_days year m of None \<Rightarrow> None | Some d \<Rightarrow> add_months year month (m + 1) (days + d)) else Some days)"
  by pat_completeness auto
termination
  by (relation "measure (\<lambda>(year, month, m, days). unat month - unat m)") (auto simp: unat_next word_less_nat_alt)

text \<open>\<open>date_to_amiga\<close>; the result \<open>None\<close> is a read past the table of month lengths.\<close>

definition date_to_amiga :: "sandbox \<Rightarrow> u32 \<Rightarrow> bool \<Rightarrow> u32 option" where
  "date_to_amiga s p validate =
     (if \<not> span_ok s p M68K_ClockData_SIZEOF then Some 0
      else let sec = gread16 s p; minute = gread16 s (p + 2); hour = gread16 s (p + 4); mday = gread16 s (p + 6);
               month = gread16 s (p + 8); year = gread16 s (p + 10); wday = gread16 s (p + 12) in
        if validate \<and> (sec > 60 \<or> minute > 59 \<or> hour > 23 \<or> year < 1978 \<or> wday > 6 \<or> month < 1 \<or> month > 12 \<or> mday < 1 \<or>
             (case month_days year month of None \<Rightarrow> False | Some d \<Rightarrow> mday > d)) then Some 0
        else case add_months year month 1 (add_years year 1978 0) of
            None \<Rightarrow> None
          | Some days \<Rightarrow> Some ((days + (mday - 1)) * 86400 + hour * 3600 + minute * 60 + sec))"

function sub_years :: "u32 \<Rightarrow> u32 \<Rightarrow> u32 \<times> u32" where
  "sub_years year days = (if days \<ge> year_length year then sub_years (year + 1) (days - year_length year) else (year, days))"
  by pat_completeness auto
termination
  by (relation "measure (\<lambda>(year, days). unat days)") (auto simp: unat_sub word_le_nat_alt year_length_nat)

lemma month_days_pos: "month_days year month = Some d \<Longrightarrow> 0 < unat d"
proof -
  assume "month_days year month = Some d"
  then have i: "unat (month - 1) < 12" and d: "d = month_table ! unat (month - 1) + (if month = 2 \<and> leap_year year then 1 else 0)"
    by (auto simp: month_days_def month_table_def split: if_splits)
  have "\<forall>x \<in> set month_table. 28 \<le> unat x \<and> unat x \<le> 31" by (simp add: month_table_def)
  moreover have "month_table ! unat (month - 1) \<in> set month_table" using i by (intro nth_mem) (simp add: month_table_def)
  ultimately have "28 \<le> unat (month_table ! unat (month - 1)) \<and> unat (month_table ! unat (month - 1)) \<le> 31" by blast
  then show ?thesis unfolding d by (subst unat_plus_if') auto
qed

function sub_months :: "u32 \<Rightarrow> u32 \<Rightarrow> u32 \<Rightarrow> (u32 \<times> u32) option" where
  "sub_months year month days =
     (case month_days year month of
        None \<Rightarrow> None
      | Some d \<Rightarrow> if days \<ge> d then sub_months year (month + 1) (days - d) else Some (month, days))"
  by pat_completeness auto
termination
  by (relation "measure (\<lambda>(year, month, days). unat days)")
    (auto simp: unat_sub word_le_nat_alt dest: month_days_pos)

definition amiga_to_date :: "sandbox \<Rightarrow> u32 \<Rightarrow> u32 \<Rightarrow> sandbox option" where
  "amiga_to_date s seconds p =
     (let days = seconds div 86400; rem = seconds mod 86400; original_days = days in
      if \<not> span_ok s p M68K_ClockData_SIZEOF then Some s
      else case sub_years 1978 days of (year, days) \<Rightarrow>
        (case sub_months year 1 days of
           None \<Rightarrow> None
         | Some (month, days) \<Rightarrow>
             let s = gwrite16 s p (rem mod 60);
                 s = gwrite16 s (p + 2) ((rem div 60) mod 60);
                 s = gwrite16 s (p + 4) (rem div 3600);
                 s = gwrite16 s (p + 6) (days + 1);
                 s = gwrite16 s (p + 8) month;
                 s = gwrite16 s (p + 10) year
             in Some (gwrite16 s (p + 12) (original_days mod 7))))"

declare add_years.simps [simp del] add_months.simps [simp del] sub_years.simps [simp del] sub_months.simps [simp del]

subsection \<open>The calendar in numbers\<close>

definition leap :: "nat \<Rightarrow> bool" where
  "leap y \<longleftrightarrow> y mod 400 = 0 \<or> (y mod 4 = 0 \<and> y mod 100 \<noteq> 0)"

definition ylen :: "nat \<Rightarrow> nat" where "ylen y = (if leap y then 366 else 365)"

definition mlen :: "nat \<Rightarrow> nat \<Rightarrow> nat" where
  "mlen y m = (if m = 2 then (if leap y then 29 else 28) else if m \<in> {4, 6, 9, 11} then 30 else 31)"

text \<open>The days before a year, and before a month of a year.\<close>

definition ydays :: "nat \<Rightarrow> nat" where "ydays y = (\<Sum>i = 1978..<y. ylen i)"
definition mdays :: "nat \<Rightarrow> nat \<Rightarrow> nat" where "mdays y m = (\<Sum>i = 1..<m. mlen y i)"

lemma leap_nat: "leap_year y = leap (unat y)"
  by (simp add: leap_year_def leap_def word_unat_eq_iff unat_mod)

lemma year_length_ylen: "unat (year_length y) = ylen (unat y)"
  by (simp add: year_length_nat ylen_def leap_nat)

lemma twelve: "1 \<le> (k :: nat) \<Longrightarrow> k \<le> 12 \<Longrightarrow>
    k = 1 \<or> k = 2 \<or> k = 3 \<or> k = 4 \<or> k = 5 \<or> k = 6 \<or> k = 7 \<or> k = 8 \<or> k = 9 \<or> k = 10 \<or> k = 11 \<or> k = 12"
  by presburger

lemma month_days_mlen:
  assumes "1 \<le> unat m" "unat m \<le> 12"
  shows "\<exists>d. month_days y m = Some d \<and> unat d = mlen (unat y) (unat m)"
proof -
  have i: "unat (m - 1) = unat m - 1" using assms by (simp add: unat_sub word_le_nat_alt)
  have m2: "m = 2 \<longleftrightarrow> unat m = 2" by (simp add: word_unat_eq_iff)
  have "unat m \<in> {1, 2, 3, 4, 5, 6, 7, 8, 9, 10, 11, 12}" using twelve [OF assms] by auto
  then show ?thesis unfolding month_days_def i m2 leap_nat
    by (elim insertE) (simp_all add: month_table_def mlen_def)
qed

lemma month_days_out: "month_days y m = None \<longleftrightarrow> \<not> (1 \<le> unat m \<and> unat m \<le> 12)"
proof (cases "m = 0")
  case True
  then show ?thesis by (simp add: month_days_def month_table_def unsigned_minus_1_eq_mask mask_eq_exp_minus_1)
next
  case False
  then have "1 \<le> unat m" by (simp add: Suc_le_eq unat_gt_0)
  then have "unat (m - 1) = unat m - 1" by (simp add: unat_sub word_le_nat_alt)
  then show ?thesis using \<open>1 \<le> unat m\<close> by (auto simp: month_days_def month_table_def)
qed

lemma ydays_Suc: "1978 \<le> y \<Longrightarrow> ydays (Suc y) = ydays y + ylen y"
  by (simp add: ydays_def)

lemma mdays_Suc: "1 \<le> m \<Longrightarrow> mdays y (Suc m) = mdays y m + mlen y m"
  by (simp add: mdays_def)

lemma mdays_year: "mdays y 13 = ylen y"
  by (simp add: mdays_def mlen_def ylen_def numeral_eq_Suc)

lemma ydays_ge: "1978 \<le> y \<Longrightarrow> 365 * (y - 1978) \<le> ydays y"
proof (induction y rule: dec_induct)
  case (step n)
  then show ?case by (auto simp: ydays_Suc ylen_def)
qed (simp add: ydays_def)

lemma ydays_le: "1978 \<le> y \<Longrightarrow> ydays y \<le> 366 * (y - 1978)"
proof (induction y rule: dec_induct)
  case (step n)
  then show ?case by (auto simp: ydays_Suc ylen_def)
qed (simp add: ydays_def)

text \<open>What the loops compute.\<close>

lemma sub_years_counts:
  assumes "1978 \<le> unat y" "unat y + unat d < 2 ^ 31"
  shows "\<exists>y' d'. sub_years y d = (y', d') \<and> unat d' < ylen (unat y') \<and> ydays (unat y') + unat d' = ydays (unat y) + unat d \<and>
    unat y \<le> unat y' \<and> unat y' + unat d' \<le> unat y + unat d"
  using assms
proof (induction y d rule: sub_years.induct)
  case (1 y d)
  show ?case
  proof (cases "year_length y \<le> d")
    case True
    have n: "unat (y + 1) = unat y + 1" using 1(3) by (subst unat_plus_if') auto
    have m: "unat (d - year_length y) = unat d - ylen (unat y)" "ylen (unat y) \<le> unat d" "0 < ylen (unat y)"
      using True by (auto simp: unat_sub year_length_ylen word_le_nat_alt ylen_def split: if_splits)
    have "ydays (unat (y + 1)) = ydays (unat y) + ylen (unat y)" using 1(2) by (simp add: n ydays_Suc)
    moreover have "1978 \<le> unat (y + 1)" "unat (y + 1) + unat (d - year_length y) < 2 ^ 31" using 1(2,3) n m by linarith+
    from 1(1) [OF True this] obtain y' d' where "sub_years (y + 1) (d - year_length y) = (y', d')" "unat d' < ylen (unat y')"
      "ydays (unat y') + unat d' = ydays (unat (y + 1)) + unat (d - year_length y)" "unat (y + 1) \<le> unat y'"
      "unat y' + unat d' \<le> unat (y + 1) + unat (d - year_length y)" by blast
    ultimately show ?thesis using True n m by (subst sub_years.simps) simp
  next
    case False
    then show ?thesis by (subst sub_years.simps) (simp add: word_le_nat_alt year_length_ylen not_le)
  qed
qed

lemma sub_months_counts:
  assumes "1 \<le> unat m" "unat m \<le> 12" "mdays (unat y) (unat m) + unat d < ylen (unat y)"
  shows "\<exists>m' d'. sub_months y m d = Some (m', d') \<and> 1 \<le> unat m' \<and> unat m' \<le> 12 \<and> unat d' < mlen (unat y) (unat m') \<and>
    mdays (unat y) (unat m') + unat d' = mdays (unat y) (unat m) + unat d"
  using assms
proof (induction y m d rule: sub_months.induct)
  case (1 y m d)
  obtain l where l: "month_days y m = Some l" "unat l = mlen (unat y) (unat m)" using month_days_mlen 1(2,3) by blast
  show ?case
  proof (cases "l \<le> d")
    case True
    have n: "unat (m + 1) = unat m + 1" using 1(3) by (subst unat_plus_if') auto
    have d: "unat (d - l) = unat d - mlen (unat y) (unat m)" "mlen (unat y) (unat m) \<le> unat d"
      using True l(2) by (auto simp: unat_sub word_le_nat_alt)
    have s: "mdays (unat y) (unat (m + 1)) = mdays (unat y) (unat m) + mlen (unat y) (unat m)" using 1(2) by (simp add: n mdays_Suc)
    have "unat m \<noteq> 12" using 1(4) d(2) s n mdays_year [of "unat y"] by auto
    then show ?thesis using 1(1) [OF l(1) True] 1(2-4) True l(1) n d s by (subst sub_months.simps) auto
  next
    case False
    then show ?thesis using 1(2,3) l by (subst sub_months.simps) (simp add: word_le_nat_alt not_le)
  qed
qed

lemma add_years_counts: "add_years year y days = days + of_nat (\<Sum>i = unat y..<unat year. ylen i)"
proof (induction year y days rule: add_years.induct)
  case (1 year y days)
  have l: "year_length y = of_nat (ylen (unat y))" by (simp add: year_length_def ylen_def leap_nat)
  show ?case
  proof (cases "y < year")
    case True
    then have "unat y < unat year" by (simp add: word_less_nat_alt)
    then have "(\<Sum>i = unat y..<unat year. ylen i) = ylen (unat y) + (\<Sum>i = unat (y + 1)..<unat year. ylen i)"
      by (simp add: unat_next [OF True] sum.atLeast_Suc_lessThan)
    then show ?thesis using 1(1) [OF True] True l by (subst add_years.simps) simp
  next
    case False
    then show ?thesis by (subst add_years.simps) (simp add: word_less_nat_alt)
  qed
qed

lemma add_months_counts:
  assumes "1 \<le> unat m"
  shows "add_months year month m days =
    (if unat month \<le> 13 \<or> unat month \<le> unat m then Some (days + of_nat (\<Sum>i = unat m..<unat month. mlen (unat year) i)) else None)"
  using assms
proof (induction year month m days rule: add_months.induct)
  case (1 year month m days)
  show ?case
  proof (cases "m < month")
    case True
    then have lt: "unat m < unat month" by (simp add: word_less_nat_alt)
    show ?thesis
    proof (cases "unat m \<le> 12")
      case le: True
      then obtain d where d: "month_days year m = Some d" "unat d = mlen (unat year) (unat m)" using month_days_mlen 1(2) by blast
      have "d = of_nat (mlen (unat year) (unat m))" using d(2) by (metis of_nat_unat ucast_id)
      moreover have "(\<Sum>i = unat m..<unat month. mlen (unat year) i) =
          mlen (unat year) (unat m) + (\<Sum>i = unat (m + 1)..<unat month. mlen (unat year) i)"
        using lt by (simp add: unat_next [OF True] sum.atLeast_Suc_lessThan)
      ultimately show ?thesis using 1(1) [OF True d(1)] True d(1) le lt
        by (subst add_months.simps) (auto simp: unat_next [OF True])
    next
      case False
      then have "month_days year m = None" by (simp add: month_days_out)
      then show ?thesis using True False lt by (subst add_months.simps) simp
    qed
  next
    case False
    then show ?thesis by (subst add_months.simps) (simp add: word_less_nat_alt)
  qed
qed

subsection \<open>Fields in memory\<close>

definition get16 :: "(nat \<Rightarrow> u8) \<Rightarrow> nat \<Rightarrow> u32" where
  "get16 m i = push_bit 8 (ucast (m i)) OR ucast (m (i + 1))"

definition set16 :: "(nat \<Rightarrow> u8) \<Rightarrow> nat \<Rightarrow> u32 \<Rightarrow> nat \<Rightarrow> u8" where
  "set16 m i v = m(i := ucast (drop_bit 8 v), i + 1 := ucast v)"

lemma get_set16: "unat v < 2 ^ 16 \<Longrightarrow> get16 (set16 m i v) i = v"
proof -
  assume "unat v < 2 ^ 16"
  then have "take_bit 16 v = v" by (simp add: word_unat_eq_iff unat_take_bit)
  then have b: "bit v n \<Longrightarrow> n < 16" for n by (metis bit_take_bit_iff)
  show ?thesis unfolding get16_def set16_def by (intro bit_eqI) (auto simp: bit_simps dest: b)
qed

lemma get_set16_other: "i + 2 \<le> j \<or> j + 2 \<le> i \<Longrightarrow> get16 (set16 m i v) j = get16 m j"
  by (auto simp: get16_def set16_def)

lemma get16_bound: "unat (get16 m i) < 2 ^ 16"
proof -
  have "get16 m i = take_bit 16 (get16 m i)"
    unfolding get16_def by (intro bit_eqI) (auto simp: bit_simps dest: bit_u8)
  then have "unat (get16 m i) = unat (get16 m i) mod 2 ^ 16" by (metis unat_take_bit)
  then show ?thesis by (metis mod_less_divisor zero_less_numeral zero_less_power)
qed

lemma accepts16:
  assumes "inside s a 2" "arena_ok s"
  shows "\<not> (a < sandbox_origin s \<or> a + 2 > sandbox_origin s + sb_size s)"
proof -
  have "unat (a + 2) = unat a + 2" using unat_offset [OF assms, of 2] by simp
  moreover have "unat (sandbox_origin s + sb_size s) = unat (sandbox_origin s) + unat (sb_size s)"
    using assms(2) by (subst unat_plus_if') (auto simp: arena_ok_def)
  ultimately show ?thesis using assms(1) by (auto simp: inside_def word_less_nat_alt)
qed

lemma field_access:
  assumes "inside s p n" "arena_ok s" "unat k + 2 \<le> n"
  shows "gread16 s (p + k) = get16 (host_mem s) (unat p - unat (sandbox_origin s) + unat k)"
    "gwrite16 s (p + k) v = s\<lparr>host_mem := set16 (host_mem s) (unat p - unat (sandbox_origin s) + unat k) v\<rparr>"
proof -
  have i: "inside s (p + k) 2" by (rule inside_offset [OF assms(1,2)]) (use assms(3) in simp)
  have "unat (p + k) = unat p + unat k" by (rule unat_offset [OF assms(1,2)]) (use assms(3) in simp)
  then have "j4_sandbox_host s (p + k) = unat p - unat (sandbox_origin s) + unat k"
    using guest_host [OF i] assms(1) by (simp add: inside_def)
  then show "gread16 s (p + k) = get16 (host_mem s) (unat p - unat (sandbox_origin s) + unat k)"
    "gwrite16 s (p + k) v = s\<lparr>host_mem := set16 (host_mem s) (unat p - unat (sandbox_origin s) + unat k) v\<rparr>"
    using accepts16 [OF i assms(2)] by (simp_all add: gread16_def gwrite16_def get16_def set16_def)
qed

text \<open>The seven fields, by index.\<close>

definition clock :: "sandbox \<Rightarrow> u32 \<Rightarrow> nat \<Rightarrow> u32" where
  "clock s p i = get16 (host_mem s) (unat p - unat (sandbox_origin s) + 2 * i)"

lemma span_inside: "span_ok s p n \<longleftrightarrow> inside s p (unat n)"
  by (auto simp: span_ok_def inside_def word_le_nat_alt)

lemma clock_reads:
  assumes "inside s p 14" "arena_ok s"
  shows "gread16 s p = clock s p 0" "gread16 s (p + 2) = clock s p 1" "gread16 s (p + 4) = clock s p 2" "gread16 s (p + 6) = clock s p 3"
    "gread16 s (p + 8) = clock s p 4" "gread16 s (p + 10) = clock s p 5" "gread16 s (p + 12) = clock s p 6"
  using field_access(1) [OF assms, of 0] field_access(1) [OF assms, of 2] field_access(1) [OF assms, of 4]
    field_access(1) [OF assms, of 6] field_access(1) [OF assms, of 8] field_access(1) [OF assms, of 10] field_access(1) [OF assms, of 12]
  by (simp_all add: clock_def)

definition set_clock :: "sandbox \<Rightarrow> u32 \<Rightarrow> u32 list \<Rightarrow> sandbox" where
  "set_clock s p vs = s\<lparr>host_mem := fold (\<lambda>(i, v) m. set16 m (unat p - unat (sandbox_origin s) + 2 * i) v) (zip [0..<7] vs) (host_mem s)\<rparr>"

lemma clock_writes:
  assumes "inside s p 14" "arena_ok s"
  shows "(let s = gwrite16 s p v0; s = gwrite16 s (p + 2) v1; s = gwrite16 s (p + 4) v2; s = gwrite16 s (p + 6) v3; s = gwrite16 s (p + 8) v4;
      s = gwrite16 s (p + 10) v5 in gwrite16 s (p + 12) v6) = set_clock s p [v0, v1, v2, v3, v4, v5, v6]"
proof -
  have w: "gwrite16 (s\<lparr>host_mem := m\<rparr>) (p + k) v = s\<lparr>host_mem := set16 m (unat p - unat (sandbox_origin s) + unat k) v\<rparr>" if "unat k + 2 \<le> 14" for m k v
    using field_access(2) [of "s\<lparr>host_mem := m\<rparr>" p 14 k v] assms that by (simp add: inside_def arena_ok_def)
  have "gwrite16 s p v0 = s\<lparr>host_mem := set16 (host_mem s) (unat p - unat (sandbox_origin s)) v0\<rparr>"
    using field_access(2) [OF assms, of 0 v0] by simp
  then show ?thesis by (simp add: w Let_def set_clock_def upt_rec)
qed

lemma set_clock_fields:
  assumes "\<forall>v \<in> set [v0, v1, v2, v3, v4, v5, v6]. unat v < 2 ^ 16"
  shows "clock (set_clock s p [v0, v1, v2, v3, v4, v5, v6]) p 0 = v0"
    "clock (set_clock s p [v0, v1, v2, v3, v4, v5, v6]) p 1 = v1"
    "clock (set_clock s p [v0, v1, v2, v3, v4, v5, v6]) p 2 = v2"
    "clock (set_clock s p [v0, v1, v2, v3, v4, v5, v6]) p 3 = v3"
    "clock (set_clock s p [v0, v1, v2, v3, v4, v5, v6]) p 4 = v4"
    "clock (set_clock s p [v0, v1, v2, v3, v4, v5, v6]) p 5 = v5"
    "clock (set_clock s p [v0, v1, v2, v3, v4, v5, v6]) p 6 = v6"
  using assms by (simp_all add: set_clock_def clock_def upt_rec get_set16 get_set16_other)

lemma set_clock_agree:
  assumes "inside s p 14"
  shows "agree_on (- host_range s p 14) s (set_clock s p [v0, v1, v2, v3, v4, v5, v6])"
  by (auto simp: agree_on_def same_arena_def set_clock_def upt_rec set16_def host_range_def)

subsection \<open>Properties\<close>

text \<open>The seconds that a calendar date and time of day denote, and when a date is legal (with the leap second that \<open>CheckDate\<close> admits).\<close>

definition civil_seconds :: "nat \<Rightarrow> nat \<Rightarrow> nat \<Rightarrow> nat \<Rightarrow> nat \<Rightarrow> nat \<Rightarrow> nat" where
  "civil_seconds sec minute hour mday month year =
     (ydays year + mdays year month + (mday - 1)) * 86400 + hour * 3600 + minute * 60 + sec"

definition legal_clock :: "nat \<Rightarrow> nat \<Rightarrow> nat \<Rightarrow> nat \<Rightarrow> nat \<Rightarrow> nat \<Rightarrow> nat \<Rightarrow> bool" where
  "legal_clock sec minute hour mday month year wday \<longleftrightarrow> sec \<le> 60 \<and> minute \<le> 59 \<and> hour \<le> 23 \<and> 1 \<le> mday \<and> mday \<le> mlen year month \<and>
     1 \<le> month \<and> month \<le> 12 \<and> 1978 \<le> year \<and> wday \<le> 6"

lemma days_added: "add_months year month 1 (add_years year 1978 0) =
    (if unat month \<le> 13 then Some (of_nat (ydays (unat year) + mdays (unat year) (unat month))) else None)"
  by (simp add: add_months_counts add_years_counts ydays_def mdays_def)

lemma of_nat_back: "of_nat (unat x) = (x :: u32)"
  by (metis of_nat_unat ucast_id)

lemma seconds_word:
  assumes "1 \<le> unat mday"
  shows "(of_nat n + (mday - 1)) * 86400 + hour * 3600 + minute * 60 + sec =
    (of_nat ((n + (unat mday - 1)) * 86400 + unat hour * 3600 + unat minute * 60 + unat sec) :: u32)"
proof -
  have "mday - 1 = (of_nat (unat mday - 1) :: u32)" using assms by (simp add: of_nat_diff of_nat_back)
  then show ?thesis by (simp add: of_nat_back)
qed

lemma date_fields:
  assumes "inside s p 14" "arena_ok s"
  defines "f \<equiv> \<lambda>i. unat (clock s p i)"
  shows "date_to_amiga s p True = Some (if legal_clock (f 0) (f 1) (f 2) (f 3) (f 4) (f 5) (f 6)
      then of_nat (civil_seconds (f 0) (f 1) (f 2) (f 3) (f 4) (f 5)) else 0)"
    "date_to_amiga s p False = None \<longleftrightarrow> 13 < f 4"
    "f 4 \<le> 13 \<Longrightarrow> 1 \<le> f 3 \<Longrightarrow> date_to_amiga s p False = Some (of_nat (civil_seconds (f 0) (f 1) (f 2) (f 3) (f 4) (f 5)))"
proof -
  have sp: "span_ok s p M68K_ClockData_SIZEOF" using assms(1) by (simp add: span_inside M68K_ClockData_SIZEOF_def)
  note rd = clock_reads [OF assms(1,2)]
  let ?legal = "legal_clock (f 0) (f 1) (f 2) (f 3) (f 4) (f 5) (f 6)"
  define bad where "bad \<longleftrightarrow> clock s p 0 > 60 \<or> clock s p 1 > 59 \<or> clock s p 2 > 23 \<or> clock s p 5 < 1978 \<or> clock s p 6 > 6 \<or> clock s p 4 < 1 \<or>
    clock s p 4 > 12 \<or> clock s p 3 < 1 \<or> (case month_days (clock s p 5) (clock s p 4) of None \<Rightarrow> False | Some d \<Rightarrow> clock s p 3 > d)"
  have bad: "bad \<longleftrightarrow> \<not> ?legal"
  proof (cases "1 \<le> f 4 \<and> f 4 \<le> 12")
    case True
    then obtain d where "month_days (clock s p 5) (clock s p 4) = Some d" "unat d = mlen (f 5) (f 4)"
      using month_days_mlen [of "clock s p 4" "clock s p 5"] by (auto simp: f_def)
    then show ?thesis using True by (auto simp: bad_def legal_clock_def word_less_nat_alt f_def)
  qed (auto simp: bad_def legal_clock_def word_less_nat_alt f_def)
  have eq: "date_to_amiga s p v = (if v \<and> bad then Some 0
      else case add_months (clock s p 5) (clock s p 4) 1 (add_years (clock s p 5) 1978 0) of
            None \<Rightarrow> None
          | Some days \<Rightarrow> Some ((days + (clock s p 3 - 1)) * 86400 + clock s p 2 * 3600 + clock s p 1 * 60 + clock s p 0))" for v
    using sp by (simp only: date_to_amiga_def rd Let_def bad_def not_True_eq_False if_False)
  show "date_to_amiga s p False = None \<longleftrightarrow> 13 < f 4" by (simp add: eq days_added f_def)
  show raw: "date_to_amiga s p False = Some (of_nat (civil_seconds (f 0) (f 1) (f 2) (f 3) (f 4) (f 5)))" if "f 4 \<le> 13" "1 \<le> f 3"
    using that seconds_word [of "clock s p 3"] by (simp add: eq days_added f_def civil_seconds_def)
  have "date_to_amiga s p True = (if bad then Some 0 else date_to_amiga s p False)" by (simp add: eq)
  then show "date_to_amiga s p True = Some (if ?legal then of_nat (civil_seconds (f 0) (f 1) (f 2) (f 3) (f 4) (f 5)) else 0)"
    using raw by (auto simp: bad legal_clock_def)
qed

lemma time_of_day: "(r :: nat) div 3600 * 3600 + r div 60 mod 60 * 60 + r mod 60 = r"
proof -
  have "r div 3600 = r div 60 div 60" by (simp add: div_mult2_eq [symmetric])
  moreover have "r div 60 div 60 * 60 + r div 60 mod 60 = r div 60" by simp
  moreover have "r div 60 * 60 + r mod 60 = r" by simp
  ultimately show ?thesis by linarith
qed

text \<open>What \<open>Amiga2Date\<close> writes.\<close>

lemma amiga_to_date_writes:
  assumes "inside s p 14" "arena_ok s"
  shows "\<exists>v3 v4 v5. amiga_to_date s secs p = Some (set_clock s p [secs mod 86400 mod 60, secs mod 86400 div 60 mod 60, secs mod 86400 div 3600, v3, v4, v5, secs div 86400 mod 7]) \<and>
    1 \<le> unat v3 \<and> unat v3 \<le> mlen (unat v5) (unat v4) \<and> 1 \<le> unat v4 \<and> unat v4 \<le> 12 \<and> 1978 \<le> unat v5 \<and> unat v5 \<le> 2114 \<and>
    ydays (unat v5) + mdays (unat v5) (unat v4) + (unat v3 - 1) = unat secs div 86400"
proof -
  have sp: "span_ok s p M68K_ClockData_SIZEOF" using assms(1) by (simp add: span_inside M68K_ClockData_SIZEOF_def)
  have days: "unat (secs div 86400) = unat secs div 86400" "unat secs div 86400 \<le> 49710"
    using unat_u32 [of secs] by (simp_all add: unat_div)
  obtain y d where y: "sub_years 1978 (secs div 86400) = (y, d)" "unat d < ylen (unat y)" "ydays (unat y) + unat d = unat secs div 86400" "1978 \<le> unat y"
    using sub_years_counts [of 1978 "secs div 86400"] days by (auto simp: ydays_def)
  obtain m e where m: "sub_months y 1 d = Some (m, e)" "1 \<le> unat m" "unat m \<le> 12" "unat e < mlen (unat y) (unat m)"
    "mdays (unat y) (unat m) + unat e = unat d"
    using sub_months_counts [of 1 y d] y(2) by (auto simp: mdays_def)
  have "365 * (unat y - 1978) \<le> 49710" using ydays_ge [OF y(4)] y(3) days(2) by linarith
  then have "unat y \<le> 2114" using y(4) by linarith
  moreover have e: "unat (e + 1) = unat e + 1" using m(4) by (subst unat_plus_if') (auto simp: mlen_def split: if_splits)
  moreover have "amiga_to_date s secs p = Some (set_clock s p [secs mod 86400 mod 60, secs mod 86400 div 60 mod 60, secs mod 86400 div 3600, e + 1, m, y, secs div 86400 mod 7])"
    using sp y(1) m(1) clock_writes [OF assms, symmetric]
    by (simp add: amiga_to_date_def Let_def)
  ultimately show ?thesis using y m by (intro exI [of _ "e + 1"] exI [of _ m] exI [of _ y]) auto
qed

text \<open>C34. Dates round-trip. For every 32-bit number of seconds, Amiga2Date ends and writes a legal date between 1978 and 2114 with the weekday of its
  day number, and both Date2Amiga and CheckDate on that date give the seconds back; nothing outside the fourteen bytes changes.\<close>

theorem date_round_trip:
  assumes "inside s p 14" "arena_ok s"
  shows "\<exists>s'. amiga_to_date s secs p = Some s' \<and> agree_on (- host_range s p 14) s s' \<and>
    date_to_amiga s' p False = Some secs \<and> date_to_amiga s' p True = Some secs \<and>
    legal_clock (unat (clock s' p 0)) (unat (clock s' p 1)) (unat (clock s' p 2)) (unat (clock s' p 3)) (unat (clock s' p 4))
      (unat (clock s' p 5)) (unat (clock s' p 6)) \<and>
    unat (clock s' p 0) \<le> 59 \<and> unat (clock s' p 5) \<le> 2114 \<and> unat (clock s' p 6) = unat secs div 86400 mod 7"
proof -
  obtain v3 v4 v5 where v: "amiga_to_date s secs p = Some (set_clock s p [secs mod 86400 mod 60, secs mod 86400 div 60 mod 60,
      secs mod 86400 div 3600, v3, v4, v5, secs div 86400 mod 7])" (is "_ = Some ?s")
    "1 \<le> unat v3" "unat v3 \<le> mlen (unat v5) (unat v4)" "1 \<le> unat v4" "unat v4 \<le> 12" "1978 \<le> unat v5" "unat v5 \<le> 2114"
    "ydays (unat v5) + mdays (unat v5) (unat v4) + (unat v3 - 1) = unat secs div 86400"
    using amiga_to_date_writes [OF assms, of secs] by blast
  have n: "unat (secs mod 86400 mod 60) = unat secs mod 86400 mod 60" "unat (secs mod 86400 div 60 mod 60) = unat secs mod 86400 div 60 mod 60"
    "unat (secs mod 86400 div 3600) = unat secs mod 86400 div 3600" "unat (secs div 86400 mod 7) = unat secs div 86400 mod 7"
    by (simp_all add: unat_div unat_mod)
  have "mlen (unat v5) (unat v4) \<le> 31" by (simp add: mlen_def)
  moreover have "unat secs mod 86400 div 3600 < 24" by (simp add: less_mult_imp_div_less)
  ultimately have "\<forall>v \<in> set [secs mod 86400 mod 60, secs mod 86400 div 60 mod 60, secs mod 86400 div 3600, v3, v4, v5, secs div 86400 mod 7]. unat v < 2 ^ 16"
    using v(3,5,7) by (auto simp: n intro: le_less_trans [OF mod_less_eq_dividend] order.strict_trans1)
  note c = set_clock_fields [OF this, of s p]
  have ok: "inside ?s p 14" "arena_ok ?s" using assms by (simp_all add: set_clock_def inside_def arena_ok_def)
  have b: "unat secs mod 86400 mod 60 \<le> 59" "unat secs mod 86400 div 60 mod 60 \<le> 59" "unat secs mod 86400 div 3600 \<le> 23"
    "unat secs div 86400 mod 7 \<le> 6"
    using \<open>unat secs mod 86400 div 3600 < 24\<close> by (simp_all add: less_Suc_eq_le [symmetric])
  have legal: "legal_clock (unat (clock ?s p 0)) (unat (clock ?s p 1)) (unat (clock ?s p 2)) (unat (clock ?s p 3)) (unat (clock ?s p 4))
      (unat (clock ?s p 5)) (unat (clock ?s p 6))"
    unfolding legal_clock_def c n using v b by auto
  have "civil_seconds (unat (clock ?s p 0)) (unat (clock ?s p 1)) (unat (clock ?s p 2)) (unat (clock ?s p 3)) (unat (clock ?s p 4)) (unat (clock ?s p 5))
      = unat secs div 86400 * 86400 + unat secs mod 86400" (is "?c = _")
    unfolding civil_seconds_def c n v(8) using time_of_day [of "unat secs mod 86400"] by linarith
  then have "of_nat ?c = secs" by (simp add: of_nat_back)
  moreover have "unat (clock ?s p 4) \<le> 13" "1 \<le> unat (clock ?s p 3)" using v(2,5) by (simp_all add: c)
  ultimately have "date_to_amiga ?s p False = Some secs" "date_to_amiga ?s p True = Some secs" using date_fields [OF ok] legal by simp_all
  moreover have "unat (clock ?s p 0) \<le> 59 \<and> unat (clock ?s p 5) \<le> 2114 \<and> unat (clock ?s p 6) = unat secs div 86400 mod 7"
    unfolding c n using v(7) b by simp
  ultimately show ?thesis using v(1) legal set_clock_agree [OF assms(1)] by blast
qed

text \<open>C35. CheckDate accepts exactly the legal dates (a second 60 counts as legal) and returns their seconds modulo 2^32, and 0 for every other
  content of the fields. Date2Amiga does not check: with a month of at most 13 and a day of at least 1 it computes the same sum, but with
  a month above 13 it reads past the end of the table of month lengths. Outside the arena both return 0.\<close>

theorem date_checks:
  assumes "arena_ok s"
  shows "if inside s p 14 then
      (let f = \<lambda>i. unat (clock s p i); n = civil_seconds (f 0) (f 1) (f 2) (f 3) (f 4) (f 5) in
        date_to_amiga s p True = Some (if legal_clock (f 0) (f 1) (f 2) (f 3) (f 4) (f 5) (f 6) then of_nat n else 0) \<and>
        (date_to_amiga s p False = None \<longleftrightarrow> 13 < f 4) \<and>
        (f 4 \<le> 13 \<and> 1 \<le> f 3 \<longrightarrow> date_to_amiga s p False = Some (of_nat n)))
    else date_to_amiga s p True = Some 0 \<and> date_to_amiga s p False = Some 0"
proof (cases "inside s p 14")
  case True
  from date_fields [OF this assms] show ?thesis using True by (simp add: Let_def)
next
  case False
  then show ?thesis by (simp add: date_to_amiga_def span_inside M68K_ClockData_SIZEOF_def)
qed

text \<open>The last second of the 32-bit range, and a month of 14 left over in the demonstration arena.\<close>

lemma demo_clock: "inside (run_sb demo_run) 0x260000 14" "arena_ok (run_sb demo_run)"
  by (simp_all add: demo_run_def inside_def arena_ok_def)

lemma date_round_trip_witness:
  "\<exists>s'. amiga_to_date (run_sb demo_run) 0xFFFFFFFF 0x260000 = Some s' \<and> date_to_amiga s' 0x260000 True = Some 0xFFFFFFFF \<and>
     unat (clock s' 0x260000 6) = 3"
  using date_round_trip [OF demo_clock, of "0xFFFFFFFF"] by auto

lemma date_checks_witness:
  "date_to_amiga (run_sb demo_run) 0x260000 True = Some 0 \<and> date_to_amiga (run_sb demo_run) 0x260000 False = None \<and>
   date_to_amiga (run_sb demo_run) 0x10 False = Some 0"
proof -
  have c: "unat (clock (run_sb demo_run) 0x260000 i) = 257" for i
    by (simp add: clock_def get16_def demo_run_def)
  have "\<not> inside (run_sb demo_run) 0x10 14" by (simp add: demo_run_def inside_def)
  then show ?thesis using date_checks [OF demo_clock(2), of "0x260000"] date_checks [OF demo_clock(2), of "0x10"] demo_clock(1)
    by (simp add: c legal_clock_def)
qed

end
