(* ===== verification/EmuTags.thy ===== *)
theory EmuTags
  imports EmuLists EmuDates "HOL-Library.Signed_Division"
begin

unbundle bit_operations_syntax

text \<open>
  Tag lists in guest memory (\<open>hosted/emu68k/emu68k_utility.c\<close>): pairs of longwords, a tag and its data, with the
  control tags \<open>TAG_DONE\<close>, \<open>TAG_IGNORE\<close>, \<open>TAG_MORE\<close> (the list goes on elsewhere) and \<open>TAG_SKIP\<close>. The vectors that search, filter and map
  tag lists all walk them with one cursor.
\<close>

subsection \<open>The cursor\<close>

definition TAG_DONE :: u32 where "TAG_DONE = 0"
definition TAG_IGNORE :: u32 where "TAG_IGNORE = 1"
definition TAG_MORE :: u32 where "TAG_MORE = 2"
definition TAG_SKIP :: u32 where "TAG_SKIP = 3"

lemmas tag_codes = TAG_DONE_def TAG_IGNORE_def TAG_MORE_def TAG_SKIP_def

text \<open>The loop of \<open>next_item\<close> with its guard; the result is the item and the new cursor.\<close>

fun next_loop :: "sandbox \<Rightarrow> nat \<Rightarrow> u32 \<Rightarrow> u32 \<times> u32" where
  "next_loop s 0 p = (0, 0)"
| "next_loop s (Suc guard) p =
     (if p = 0 then (0, 0)
      else if \<not> span_ok s p 8 then (0, 0)
      else let tag = gread32 s p; data = gread32 s (p + 4) in
        if tag = TAG_DONE then (0, 0)
        else if tag = TAG_IGNORE then next_loop s guard (p + 8)
        else if tag = TAG_MORE then next_loop s guard data
        else if tag = TAG_SKIP then (if data > 0x1FFFFFFF then (0, 0) else next_loop s guard (p + 8 * (data + 1)))
        else (p, p + 8))"

definition next_item :: "sandbox \<Rightarrow> u32 \<Rightarrow> u32 \<times> u32" where
  "next_item s cursor = next_loop s 65536 cursor"

subsection \<open>The operations\<close>

definition utility_next_tag :: "u32 \<Rightarrow> sandbox \<Rightarrow> u32 \<times> sandbox" where
  "utility_next_tag statep s =
     (if \<not> span_ok s statep 4 then (0, s)
      else case next_item s (gread32 s statep) of (item, cursor) \<Rightarrow> (item, gwrite32 s statep cursor))"

text \<open>The loops over all items have no guard of their own: \<open>None\<close> stands for a loop that does not end.\<close>

partial_function (option) utility_find_tag :: "sandbox \<Rightarrow> u32 \<Rightarrow> u32 \<Rightarrow> u32 option" where
  "utility_find_tag s wanted list =
     (case next_item s list of (item, cursor) \<Rightarrow>
        if item = 0 then Some 0
        else if gread32 s item = wanted then Some item
        else utility_find_tag s wanted cursor)"

fun tag_in_array_loop :: "sandbox \<Rightarrow> u32 \<Rightarrow> nat \<Rightarrow> u32 \<Rightarrow> bool" where
  "tag_in_array_loop s wanted 0 array = False"
| "tag_in_array_loop s wanted (Suc guard) array =
     (if array = 0 then False
      else if \<not> span_ok s array 4 then False
      else let tag = gread32 s array in
        if tag = TAG_DONE then False else if tag = wanted then True else tag_in_array_loop s wanted guard (array + 4))"

definition tag_in_array :: "sandbox \<Rightarrow> u32 \<Rightarrow> u32 \<Rightarrow> bool" where
  "tag_in_array s wanted array = tag_in_array_loop s wanted 65536 array"

text \<open>\<open>while ((item = next_item(sb, &cursor)) != 0)\<close> with a body that updates memory and an accumulator.\<close>

partial_function (option) each_item :: "(u32 \<Rightarrow> sandbox \<times> 'a \<Rightarrow> (sandbox \<times> 'a) option) \<Rightarrow> u32 \<Rightarrow> sandbox \<times> 'a \<Rightarrow> (sandbox \<times> 'a) option" where
  "each_item body cursor sa =
     (case next_item (fst sa) cursor of (item, cursor') \<Rightarrow>
        if item = 0 then Some sa else Option.bind (body item sa) (\<lambda>sa'. each_item body cursor' sa'))"

definition FindTagItem :: "u32 \<Rightarrow> u32 \<Rightarrow> sandbox \<Rightarrow> u32 option" where
  "FindTagItem tag list s = utility_find_tag s tag list"

definition GetTagData :: "u32 \<Rightarrow> u32 \<Rightarrow> u32 \<Rightarrow> sandbox \<Rightarrow> u32 option" where
  "GetTagData tag dflt list s =
     (case utility_find_tag s tag list of None \<Rightarrow> None | Some item \<Rightarrow> Some (if item \<noteq> 0 then gread32 s (item + 4) else dflt))"

definition PackBoolTags :: "u32 \<Rightarrow> u32 \<Rightarrow> u32 \<Rightarrow> sandbox \<Rightarrow> u32 option" where
  "PackBoolTags flags tags bools s =
     map_option snd (each_item (\<lambda>item (s, flags).
       case utility_find_tag s (gread32 s item) bools of
         None \<Rightarrow> None
       | Some mp \<Rightarrow> Some (s, if mp = 0 then flags
           else let mk = gread32 s (mp + 4) in if gread32 s (item + 4) \<noteq> 0 then flags OR mk else flags AND NOT mk)) tags (s, flags))"

definition FilterTagChanges :: "u32 \<Rightarrow> u32 \<Rightarrow> u32 \<Rightarrow> sandbox \<Rightarrow> sandbox option" where
  "FilterTagChanges changes originals apply_them s =
     map_option fst (each_item (\<lambda>item (s, u).
       case utility_find_tag s (gread32 s item) originals of
         None \<Rightarrow> None
       | Some orig \<Rightarrow> Some (if orig = 0 then s
           else if gread32 s (item + 4) = gread32 s (orig + 4) then gwrite32 s item TAG_IGNORE
           else if apply_them \<noteq> 0 then gwrite32 s (orig + 4) (gread32 s (item + 4)) else s, u)) changes (s, ()))"

definition MapTags :: "u32 \<Rightarrow> u32 \<Rightarrow> u32 \<Rightarrow> sandbox \<Rightarrow> sandbox option" where
  "MapTags tags mapping mode s =
     map_option fst (each_item (\<lambda>item (s, u).
       case utility_find_tag s (gread32 s item) mapping of
         None \<Rightarrow> None
       | Some mp \<Rightarrow> Some (if mp \<noteq> 0 then
             let replacement = gread32 s (mp + 4) in gwrite32 s item (if replacement \<noteq> 0 then replacement else TAG_IGNORE)
           else if mode = 0 then gwrite32 s item TAG_IGNORE else s, u)) tags (s, ()))"

definition ApplyTagChanges :: "u32 \<Rightarrow> u32 \<Rightarrow> sandbox \<Rightarrow> sandbox option" where
  "ApplyTagChanges tags changes s =
     map_option fst (each_item (\<lambda>item (s, u).
       case utility_find_tag s (gread32 s item) changes of
         None \<Rightarrow> None
       | Some change \<Rightarrow> Some (if change \<noteq> 0 then gwrite32 s (item + 4) (gread32 s (change + 4)) else s, u)) tags (s, ()))"

definition FilterTagItems :: "u32 \<Rightarrow> u32 \<Rightarrow> u32 \<Rightarrow> sandbox \<Rightarrow> (sandbox \<times> u32) option" where
  "FilterTagItems tags array logic s =
     each_item (\<lambda>item (s, valid).
       let found = tag_in_array s (gread32 s item) array in
       Some (if logic = 0 \<and> found \<or> logic = 1 \<and> \<not> found then (s, valid + 1) else (gwrite32 s item TAG_IGNORE, valid))) tags (s, 0)"

definition AllocateTagItems :: "u32 \<Rightarrow> 'a emu_run_scheme \<Rightarrow> u32 \<times> 'a emu_run_scheme" where
  "AllocateTagItems n r = (if n \<noteq> 0 \<and> n \<le> 0xFFFFFFFF div 8 then emu68k_guest_alloc r (n * 8) else (0, r))"

definition copy_item :: "u32 \<Rightarrow> sandbox \<times> u32 \<Rightarrow> (sandbox \<times> u32) option" where
  "copy_item item = (\<lambda>(s, dst). let s = gwrite32 s dst (gread32 s item) in
     Some (gwrite32 s (dst + 4) (gread32 s (item + 4)), dst + 8))"

definition CloneTagItems :: "u32 \<Rightarrow> 'a emu_run_scheme \<Rightarrow> (u32 \<times> 'a emu_run_scheme) option" where
  "CloneTagItems tags r =
     (case each_item (\<lambda>item (s, count). Some (s, count + 1)) tags (run_sb r, 1) of
        None \<Rightarrow> None
      | Some (_, count) \<Rightarrow>
          (case emu68k_guest_alloc r (count * 8) of (out, r) \<Rightarrow>
             if out = 0 then Some (0, r)
             else map_option (\<lambda>(s, dst). (out, r\<lparr>run_sb := s\<rparr>)) (each_item copy_item tags (run_sb r, out))))"

text \<open>\<open>RefreshTagItemClones\<close> stops copying where the destination leaves the arena.\<close>

partial_function (option) refresh_loop :: "u32 \<Rightarrow> sandbox \<times> u32 \<Rightarrow> (sandbox \<times> u32) option" where
  "refresh_loop cursor sd =
     (case next_item (fst sd) cursor of (item, cursor') \<Rightarrow>
        if item = 0 then Some sd
        else if \<not> span_ok (fst sd) (snd sd) 8 then Some sd
        else Option.bind (copy_item item sd) (\<lambda>sd'. refresh_loop cursor' sd'))"

definition RefreshTagItemClones :: "u32 \<Rightarrow> u32 \<Rightarrow> sandbox \<Rightarrow> sandbox option" where
  "RefreshTagItemClones clones tags s =
     (if clones = 0 then Some s
      else map_option (\<lambda>(s, dst). if span_ok s dst 8 then gwrite32 (gwrite32 s dst 0) (dst + 4) 0 else s) (refresh_loop tags (s, clones)))"

subsection \<open>The small vectors\<close>

definition SDivMod32 :: "u32 \<Rightarrow> u32 \<Rightarrow> (u32 \<times> u32) option" where
  "SDivMod32 a b =
     (if b = 0 then None
      else if sint a = - (2 ^ 31) \<and> sint b = - 1 then Some (word_of_int (- (2 ^ 31)), 0)
      else Some (word_of_int (sint a sdiv sint b), word_of_int (sint a smod sint b)))"

definition UDivMod32 :: "u32 \<Rightarrow> u32 \<Rightarrow> (u32 \<times> u32) option" where
  "UDivMod32 a b = (if b = 0 then None else Some (a div b, a mod b))"

definition SMult64 :: "u32 \<Rightarrow> u32 \<Rightarrow> u32 \<times> u32" where
  "SMult64 a b = (let product = (word_of_int (sint a * sint b) :: u64) in (ucast (drop_bit 32 product), ucast product))"

definition UMult64 :: "u32 \<Rightarrow> u32 \<Rightarrow> u32 \<times> u32" where
  "UMult64 a b = (let product = (ucast a * ucast b :: u64) in (ucast (drop_bit 32 product), ucast product))"

definition SetMem :: "u32 \<Rightarrow> u32 \<Rightarrow> u32 \<Rightarrow> sandbox \<Rightarrow> (u32 \<times> sandbox) option" where
  "SetMem p v n s = (if \<not> span_ok s p n then None else Some (p, gfill s p (ucast v) (unat n)))"

subsection \<open>Tag lists as sequences\<close>

text \<open>One step of the cursor; 0 where the list ends. A list is the finite path of the pairs that the cursor visits.\<close>

definition tag_step :: "sandbox \<Rightarrow> u32 \<Rightarrow> u32" where
  "tag_step s p =
     (let tag = gread32 s p; data = gread32 s (p + 4) in
      if tag = TAG_DONE then 0 else if tag = TAG_MORE then data
      else if tag = TAG_SKIP then (if data > 0x1FFFFFFF then 0 else p + 8 * (data + 1)) else p + 8)"

fun tag_path :: "sandbox \<Rightarrow> u32 \<Rightarrow> u32 list \<Rightarrow> bool" where
  "tag_path s p [] \<longleftrightarrow> p = 0"
| "tag_path s p (q # qs) \<longleftrightarrow> q = p \<and> p \<noteq> 0 \<and> tag_path s (tag_step s p) qs"

definition is_item :: "sandbox \<Rightarrow> u32 \<Rightarrow> bool" where
  "is_item s p \<longleftrightarrow> gread32 s p \<notin> {TAG_DONE, TAG_IGNORE, TAG_MORE, TAG_SKIP}"

definition pair_cells :: "u32 list \<Rightarrow> u32 set" where
  "pair_cells ps = set ps \<union> (\<lambda>p. p + 4) ` set ps"

definition pairs_ok :: "sandbox \<Rightarrow> u32 list \<Rightarrow> bool" where
  "pairs_ok s ps \<longleftrightarrow> distinct ps \<and> set ps \<inter> (\<lambda>p. p + 4) ` set ps = {} \<and> cells_ok s (pair_cells ps) \<and> (\<forall>p \<in> set ps. inside s p 8) \<and> length ps \<le> 65536"

definition tag_list :: "sandbox \<Rightarrow> u32 \<Rightarrow> u32 list \<Rightarrow> bool" where
  "tag_list s p ps \<longleftrightarrow> tag_path s p ps \<and> pairs_ok s ps"

definition tag_pairs :: "sandbox \<Rightarrow> u32 list \<Rightarrow> (u32 \<times> u32) list" where
  "tag_pairs s ps = map (\<lambda>p. (gread32 s p, gread32 s (p + 4))) (filter (is_item s) ps)"

lemma next_loop_path:
  assumes "tag_path s p ps" "\<forall>p \<in> set ps. inside s p 8" "length ps \<le> guard"
  shows "next_loop s guard p = (case dropWhile (\<lambda>q. \<not> is_item s q) ps of [] \<Rightarrow> (0, 0) | q # qs \<Rightarrow> (q, q + 8))"
  using assms
proof (induction ps arbitrary: p guard)
  case Nil
  then show ?case by (cases guard) auto
next
  case (Cons q qs)
  then obtain g where g: "guard = Suc g" "length qs \<le> g" by (cases guard) auto
  have q: "q = p" "p \<noteq> 0" "tag_path s (tag_step s p) qs" "span_ok s p 8" using Cons.prems by (auto simp: span_inside)
  have stop: "qs = []" if "tag_step s p = 0" using q(3) that by (cases qs) auto
  have IH: "next_loop s g (tag_step s p) = (case dropWhile (\<lambda>q. \<not> is_item s q) qs of [] \<Rightarrow> (0, 0) | q # qs \<Rightarrow> (q, q + 8))"
    by (rule Cons.IH [OF q(3) _ g(2)]) (use Cons.prems(2) in simp)
  consider "gread32 s p = TAG_DONE" | "gread32 s p = TAG_SKIP" "gread32 s (p + 4) > 0x1FFFFFFF"
    | "gread32 s p = TAG_SKIP" "\<not> gread32 s (p + 4) > 0x1FFFFFFF" | "gread32 s p = TAG_IGNORE" | "gread32 s p = TAG_MORE" | "is_item s p"
    by (auto simp: is_item_def)
  then show ?case
  proof cases
    case 6
    then show ?thesis using q g by (auto simp: is_item_def Let_def)
  qed (use q g IH stop in \<open>auto simp: is_item_def Let_def tag_step_def tag_codes\<close>)
qed

lemma next_item_path:
  assumes "tag_path s p ps" "pairs_ok s ps"
  shows "next_item s p = (case dropWhile (\<lambda>q. \<not> is_item s q) ps of [] \<Rightarrow> (0, 0) | q # qs \<Rightarrow> (q, q + 8))"
  unfolding next_item_def by (rule next_loop_path) (use assms in \<open>auto simp: pairs_ok_def\<close>)

text \<open>Where the cursor stands after an item.\<close>

lemma path_suffix: "tag_path s p (as @ q # bs) \<Longrightarrow> tag_path s q (q # bs)"
  by (induction as arbitrary: p) auto

lemma path_after_item: "tag_path s p (as @ q # bs) \<Longrightarrow> is_item s q \<Longrightarrow> tag_path s (q + 8) bs"
  using path_suffix [of s p as q bs] by (auto simp: tag_step_def is_item_def Let_def)

lemma pairs_ok_suffix: "pairs_ok s (as @ bs) \<Longrightarrow> pairs_ok s bs"
  by (auto simp: pairs_ok_def pair_cells_def elim: cells_mono)

text \<open>The items one after another: the first item of a path, with what lies before and behind it.\<close>

lemma next_item_cases:
  assumes "tag_path s p ps" "pairs_ok s ps"
  obtains "filter (is_item s) ps = []" "next_item s p = (0, 0)"
  | as q bs where "ps = as @ q # bs" "is_item s q" "\<forall>a \<in> set as. \<not> is_item s a" "next_item s p = (q, q + 8)" "q \<noteq> 0"
    "tag_path s (q + 8) bs" "pairs_ok s bs"
proof (cases "dropWhile (\<lambda>q. \<not> is_item s q) ps")
  case Nil
  have "next_item s p = (0, 0)" unfolding next_item_path [OF assms] Nil by simp
  moreover have "filter (is_item s) ps = []" using Nil by (simp add: filter_empty_conv)
  ultimately show thesis by (intro that(1))
next
  case (Cons q bs)
  let ?as = "takeWhile (\<lambda>q. \<not> is_item s q) ps"
  have ps: "ps = ?as @ q # bs" using Cons by (metis takeWhile_dropWhile_id)
  have q: "is_item s q" using Cons by (metis dropWhile_eq_Cons_conv)
  have "pairs_ok s (q # bs)" "pairs_ok s bs" using assms(2) pairs_ok_suffix [of s ?as "q # bs"] pairs_ok_suffix [of s "?as @ [q]" bs] ps by auto
  moreover have "tag_path s (q + 8) bs" using path_after_item [of s p ?as q bs] assms(1) ps q by simp
  moreover have "q \<noteq> 0" using path_suffix [of s p ?as q bs] assms(1) ps by simp
  ultimately show thesis using that(2) [of ?as q bs] ps q next_item_path [OF assms] Cons by (auto dest: set_takeWhileD)
qed

subsection \<open>Searching\<close>

lemma find_tag_path:
  assumes "tag_path s p ps" "pairs_ok s ps"
  shows "utility_find_tag s w p = Some (case find (\<lambda>q. is_item s q \<and> gread32 s q = w) ps of None \<Rightarrow> 0 | Some q \<Rightarrow> q)"
  using assms
proof (induction "length ps" arbitrary: ps p rule: less_induct)
  case less
  from less.prems show ?case
  proof (cases rule: next_item_cases)
    case 1
    then have "find (\<lambda>q. is_item s q \<and> gread32 s q = w) ps = None" by (auto simp: find_None_iff filter_empty_conv)
    then show ?thesis using 1 by (subst utility_find_tag.simps) simp
  next
    case (2 as q bs)
    have "find (\<lambda>q. is_item s q \<and> gread32 s q = w) as = None" using 2(3) by (auto simp: find_None_iff)
    then have "find (\<lambda>q. is_item s q \<and> gread32 s q = w) ps = (if gread32 s q = w then Some q else find (\<lambda>q. is_item s q \<and> gread32 s q = w) bs)"
      unfolding 2(1) using 2(2) by (induction as) (auto split: if_splits)
    moreover have "length bs < length ps" using 2(1) by simp
    ultimately show ?thesis using 2 less.hyps [OF _ 2(6,7)] by (subst utility_find_tag.simps) auto
  qed
qed

text \<open>Looking a tag up in the pairs of a list.\<close>

lemma find_tag_pairs:
  assumes "tag_list s p ps"
  shows "\<exists>q. utility_find_tag s w p = Some q \<and>
    (case map_of (tag_pairs s ps) w of None \<Rightarrow> q = 0 | Some d \<Rightarrow> q \<noteq> 0 \<and> q \<in> set ps \<and> gread32 s q = w \<and> gread32 s (q + 4) = d)"
proof -
  have nz: "\<forall>q \<in> set ps. q \<noteq> 0" using assms by (auto simp: tag_list_def pairs_ok_def pair_cells_def dest: cell_nonzero)
  have "case find (\<lambda>q. is_item s q \<and> gread32 s q = w) ps of None \<Rightarrow> map_of (tag_pairs s ps) w = None
      | Some q \<Rightarrow> q \<in> set ps \<and> gread32 s q = w \<and> map_of (tag_pairs s ps) w = Some (gread32 s (q + 4))"
  proof (induction ps)
    case (Cons a ps)
    then show ?case by (auto simp: tag_pairs_def split: option.splits)
  qed (simp add: tag_pairs_def)
  then show ?thesis using find_tag_path [of s p ps w] assms nz by (auto simp: tag_list_def split: option.splits)
qed

fun tag_array :: "sandbox \<Rightarrow> u32 \<Rightarrow> u32 list \<Rightarrow> bool" where
  "tag_array s a [] \<longleftrightarrow> inside s a 4 \<and> gread32 s a = TAG_DONE"
| "tag_array s a (t # ts) \<longleftrightarrow> inside s a 4 \<and> gread32 s a = t \<and> t \<noteq> TAG_DONE \<and> tag_array s (a + 4) ts"

fun array_cells :: "u32 \<Rightarrow> 'a list \<Rightarrow> u32 set" where
  "array_cells a [] = {a}"
| "array_cells a (t # ts) = insert a (array_cells (a + 4) ts)"

lemma in_array_loop:
  assumes "tag_array s a ts" "arena_ok s" "length ts < guard"
  shows "tag_in_array_loop s w guard a \<longleftrightarrow> w \<in> set ts"
  using assms
proof (induction ts arbitrary: a guard)
  case Nil
  then show ?case by (cases guard) (auto simp: span_inside Let_def dest: inside_nonzero)
next
  case (Cons t ts)
  then obtain g where "guard = Suc g" "length ts < g" by (cases guard) auto
  then show ?case using Cons by (auto simp: span_inside Let_def dest: inside_nonzero)
qed

lemma tag_array_cong:
  assumes "tag_array s a ts" "same_arena s s'" "\<And>c. c \<in> array_cells a ts \<Longrightarrow> gread32 s' c = gread32 s c"
  shows "tag_array s' a ts"
  using assms by (induction ts arbitrary: a) (auto simp: same_arenaD(2) [OF assms(2)])

subsection \<open>Editing in place\<close>

definition same_pairs :: "u32 list \<Rightarrow> sandbox \<Rightarrow> sandbox \<Rightarrow> bool" where
  "same_pairs ps s s' \<longleftrightarrow> same_arena s s' \<and> (\<forall>p \<in> set ps. gread32 s' p = gread32 s p \<and> gread32 s' (p + 4) = gread32 s (p + 4))"

lemma same_pairs_path: "same_pairs ps s s' \<Longrightarrow> tag_path s p ps \<Longrightarrow> tag_path s' p ps"
  by (induction ps arbitrary: p) (auto simp: same_pairs_def tag_step_def Let_def)

lemma same_pairs_ok: "same_pairs ps s s' \<Longrightarrow> pairs_ok s qs \<Longrightarrow> pairs_ok s' qs"
  using same_arenaD [of s s'] by (auto simp: same_pairs_def pairs_ok_def cells_ok_def)

text \<open>The loop over all items, with a relation \<open>P\<close> between the pairs still to come and the state.\<close>

lemma each_item_rule:
  assumes "tag_path (fst sa) p ps" "pairs_ok (fst sa) ps" "P ps sa"
    and item: "\<And>q bs sa. is_item (fst sa) q \<Longrightarrow> pairs_ok (fst sa) (q # bs) \<Longrightarrow> P (q # bs) sa \<Longrightarrow>
      \<exists>sa'. body q sa = Some sa' \<and> P bs sa' \<and> same_pairs bs (fst sa) (fst sa')"
    and other: "\<And>q bs sa. \<not> is_item (fst sa) q \<Longrightarrow> P (q # bs) sa \<Longrightarrow> P bs sa"
  shows "\<exists>sa'. each_item body p sa = Some sa' \<and> P [] sa'"
  using assms(1-3)
proof (induction "length ps" arbitrary: ps p sa rule: less_induct)
  case less
  have skip: "P bs sa" if "P (as @ bs) sa" "\<forall>a \<in> set as. \<not> is_item (fst sa) a" for as bs
    using that by (induction as) (auto intro: other)
  from less.prems(1,2) show ?case
  proof (cases rule: next_item_cases)
    case 1
    have "P [] sa" using skip [of ps "[]"] less.prems(3) 1(1) by (auto simp: filter_empty_conv)
    then show ?thesis using 1 by (subst each_item.simps) simp
  next
    case (2 as q bs)
    have "P (q # bs) sa" using skip [of as "q # bs"] less.prems(3) 2(1,3) by auto
    moreover have "pairs_ok (fst sa) (q # bs)" using less.prems(2) 2(1) pairs_ok_suffix by auto
    ultimately obtain sa' where sa': "body q sa = Some sa'" "P bs sa'" "same_pairs bs (fst sa) (fst sa')" using item 2(2) by blast
    have "\<exists>sa''. each_item body (q + 8) sa' = Some sa'' \<and> P [] sa''"
      by (rule less.hyps [of bs]) (use 2 sa' same_pairs_path same_pairs_ok in auto)
    then show ?thesis using 2(4,5) sa'(1) by (subst each_item.simps) simp
  qed
qed

definition pair_bytes :: "sandbox \<Rightarrow> u32 list \<Rightarrow> nat set" where
  "pair_bytes s ps = (\<Union>c \<in> pair_cells ps. host_range s c 4)"

text \<open>A write to the tag or to the data of one pair of a list.\<close>

lemma pair_write:
  assumes ok: "pairs_ok s ps" and q: "q \<in> set ps" and sa: "same_arena s s'"
  shows "agree_on (- pair_bytes s [q]) s' (gwrite32 s' q v)" "gread32 (gwrite32 s' q v) q = v" "gread32 (gwrite32 s' q v) (q + 4) = gread32 s' (q + 4)"
    "agree_on (- pair_bytes s [q]) s' (gwrite32 s' (q + 4) v)" "gread32 (gwrite32 s' (q + 4) v) (q + 4) = v" "gread32 (gwrite32 s' (q + 4) v) q = gread32 s' q"
proof -
  have c: "cells_ok s' (pair_cells ps)" "q \<in> pair_cells ps" "q + 4 \<in> pair_cells ps"
    using ok q same_arenaD [OF sa] by (auto simp: pairs_ok_def cells_ok_def pair_cells_def)
  have ne: "q \<noteq> q + 4" by simp
  show "gread32 (gwrite32 s' q v) q = v" "gread32 (gwrite32 s' q v) (q + 4) = gread32 s' (q + 4)"
    "gread32 (gwrite32 s' (q + 4) v) (q + 4) = v" "gread32 (gwrite32 s' (q + 4) v) q = gread32 s' q"
    using cell_write [OF c(1)] c(2,3) by simp_all
  have "host_range s' q 4 \<subseteq> pair_bytes s [q]" "host_range s' (q + 4) 4 \<subseteq> pair_bytes s [q]"
    using same_arenaD(3) [OF sa] by (auto simp: pair_bytes_def pair_cells_def)
  then have "- pair_bytes s [q] \<subseteq> - host_range s' q 4" "- pair_bytes s [q] \<subseteq> - host_range s' (q + 4) 4" by blast+
  then show "agree_on (- pair_bytes s [q]) s' (gwrite32 s' q v)" "agree_on (- pair_bytes s [q]) s' (gwrite32 s' (q + 4) v)"
    using agree_mono [OF cell_write_agree [OF c(1,2)]] agree_mono [OF cell_write_agree [OF c(1,3)]] by blast+
qed

lemma other_pairs_same:
  assumes ok: "pairs_ok s ps" and q: "q \<in> set ps" "set bs \<subseteq> set ps" "q \<notin> set bs" and sa: "same_arena s s'" and ag: "agree_on (- pair_bytes s [q]) s' s''"
  shows "same_pairs bs s' s''"
proof -
  have c: "cells_ok s' (pair_cells ps)" "cells_ok s (pair_cells ps)" using ok same_arenaD [OF sa] by (auto simp: pairs_ok_def cells_ok_def)
  have d: "b \<noteq> q + 4" "q \<noteq> b + 4" if "b \<in> set ps" for b using ok q(1) that by (auto simp: pairs_ok_def)
  have apart: "host_range s' c 4 \<inter> pair_bytes s [q] = {}" if "c \<in> {b, b + 4}" "b \<in> set bs" for b c
  proof -
    have m: "c \<in> pair_cells ps" "q \<in> pair_cells ps" "q + 4 \<in> pair_cells ps" "b \<in> set ps" "b \<noteq> q" using that q by (auto simp: pair_cells_def)
    then have "c \<noteq> q" "c \<noteq> q + 4" using that d by auto
    then have "host_range s c 4 \<inter> host_range s q 4 = {}" "host_range s c 4 \<inter> host_range s (q + 4) 4 = {}"
      using cells_disjoint [OF c(2)] m by blast+
    then show ?thesis using same_arenaD(3) [OF sa] by (auto simp: pair_bytes_def pair_cells_def)
  qed
  have "gread32 s'' c = gread32 s' c" if "c \<in> {b, b + 4}" "b \<in> set bs" for b c
    by (rule agree_reads [OF ag c(1) _ apart [OF that]]) (use that q(2) in \<open>auto simp: pair_cells_def\<close>)
  then show ?thesis using ag by (auto simp: same_pairs_def agree_on_def)
qed

text \<open>A loop whose body rewrites each item by \<open>e\<close> and accumulates by \<open>g\<close>.\<close>

definition pair_at :: "sandbox \<Rightarrow> u32 \<Rightarrow> u32 \<times> u32" where
  "pair_at s q = (gread32 s q, gread32 s (q + 4))"

lemma pair_at_sel: "fst (pair_at s q) = gread32 s q" "snd (pair_at s q) = gread32 s (q + 4)"
  by (simp_all add: pair_at_def)

definition edited :: "(u32 \<times> u32 \<Rightarrow> u32 \<times> u32) \<Rightarrow> sandbox \<Rightarrow> u32 \<Rightarrow> u32 \<times> u32" where
  "edited e s q = (if is_item s q then e (pair_at s q) else pair_at s q)"

lemma tag_pairs_append: "tag_pairs s (ps @ qs) = tag_pairs s ps @ tag_pairs s qs"
  by (simp add: tag_pairs_def)

lemma edit_items:
  fixes body :: "u32 \<Rightarrow> sandbox \<times> 'a \<Rightarrow> (sandbox \<times> 'a) option"
  assumes tl: "tag_list s p ps"
    and body: "\<And>q s' a. q \<in> set ps \<Longrightarrow> is_item s q \<Longrightarrow> agree_on (- pair_bytes s ps) s s' \<Longrightarrow> pair_at s' q = pair_at s q \<Longrightarrow>
      \<exists>s''. body q (s', a) = Some (s'', g (pair_at s q) a) \<and> agree_on (- pair_bytes s [q]) s' s'' \<and> pair_at s'' q = e (pair_at s q)"
  shows "\<exists>s'. each_item body p (s, a) = Some (s', fold g (tag_pairs s ps) a) \<and> agree_on (- pair_bytes s ps) s s' \<and>
    (\<forall>q \<in> set ps. pair_at s' q = edited e s q)"
proof -
  define P where "P rem sa \<longleftrightarrow> (\<exists>ds. ps = ds @ rem \<and> agree_on (- pair_bytes s ps) s (fst sa) \<and> (\<forall>q \<in> set rem. pair_at (fst sa) q = pair_at s q) \<and>
    (\<forall>q \<in> set ds. pair_at (fst sa) q = edited e s q) \<and> snd sa = fold g (tag_pairs s ds) a)" for rem sa
  have ok: "pairs_ok s ps" and path: "tag_path s p ps" using tl by (auto simp: tag_list_def)
  have item_eq: "is_item s' q = is_item s q" if "pair_at s' q = pair_at s q" for s' q using that by (simp add: is_item_def pair_at_def)
  have "\<exists>sa'. each_item body p (s, a) = Some sa' \<and> P [] sa'"
  proof (rule each_item_rule)
    show "tag_path (fst (s, a)) p ps" "pairs_ok (fst (s, a)) ps" using path ok by simp_all
    show "P ps (s, a)" by (auto simp: P_def agree_on_def same_arena_def tag_pairs_def intro!: exI [of _ "[]"])
  next
    fix q bs sa assume i: "\<not> is_item (fst sa) q" and "P (q # bs) sa"
    then obtain ds where ds: "ps = (ds @ [q]) @ bs" "agree_on (- pair_bytes s ps) s (fst sa)" "\<forall>q \<in> set (q # bs). pair_at (fst sa) q = pair_at s q"
      "\<forall>q \<in> set ds. pair_at (fst sa) q = edited e s q" "snd sa = fold g (tag_pairs s ds) a"
      by (auto simp: P_def)
    moreover have "\<not> is_item s q" using i item_eq [of "fst sa" q] ds(3) by simp
    ultimately show "P bs sa" unfolding P_def by (intro exI [of _ "ds @ [q]"]) (auto simp: edited_def tag_pairs_def)
  next
    fix q bs sa assume i: "is_item (fst sa) q" and "P (q # bs) sa"
    then obtain ds where ds: "ps = (ds @ [q]) @ bs" "agree_on (- pair_bytes s ps) s (fst sa)" "\<forall>q \<in> set (q # bs). pair_at (fst sa) q = pair_at s q"
      "\<forall>q \<in> set ds. pair_at (fst sa) q = edited e s q" "snd sa = fold g (tag_pairs s ds) a"
      by (auto simp: P_def)
    have item: "is_item s q" using i item_eq [of "fst sa" q] ds(3) by simp
    have q: "q \<in> set ps" "set bs \<subseteq> set ps" "set ds \<subseteq> set ps" "q \<notin> set bs" "q \<notin> set ds" using ds(1) ok by (auto simp: pairs_ok_def)
    have sa: "same_arena s (fst sa)" using ds(2) by (simp add: agree_on_def)
    obtain s'' where s'': "body q sa = Some (s'', g (pair_at s q) (snd sa))" "agree_on (- pair_bytes s [q]) (fst sa) s''" "pair_at s'' q = e (pair_at s q)"
      using body [OF q(1) item ds(2), of "snd sa"] ds(3) by auto
    have same: "same_pairs bs (fst sa) s''" "same_pairs ds (fst sa) s''" using other_pairs_same [OF ok q(1)] q sa s''(2) by blast+
    have "pair_bytes s [q] \<subseteq> pair_bytes s ps" using q(1) by (auto simp: pair_bytes_def pair_cells_def)
    then have "agree_on (- pair_bytes s ps) (fst sa) s''" using agree_mono [OF s''(2)] by blast
    then have "agree_on (- pair_bytes s ps) s s''" by (rule agree_trans [OF ds(2)])
    moreover have "tag_pairs s (ds @ [q]) = tag_pairs s ds @ [pair_at s q]" using item by (simp add: tag_pairs_def pair_at_def)
    moreover have "pair_at s'' x = pair_at (fst sa) x" if "x \<in> set bs \<union> set ds" for x using same that by (auto simp: same_pairs_def pair_at_def)
    moreover have "\<forall>x \<in> set (ds @ [q]). pair_at s'' x = edited e s x" using calculation(3) ds(4) item s''(3) by (simp add: edited_def)
    moreover have "\<forall>x \<in> set bs. pair_at s'' x = pair_at s x" using calculation(3) ds(3) by simp
    ultimately have "P bs (s'', g (pair_at s q) (snd sa))"
      unfolding P_def fst_conv snd_conv using ds(1,5) by (intro exI [of _ "ds @ [q]"]) (simp add: pair_at_sel)
    then show "\<exists>sa'. body q sa = Some sa' \<and> P bs sa' \<and> same_pairs bs (fst sa) (fst sa')" using s''(1) same(1) by auto
  qed
  then show ?thesis by (auto simp: P_def)
qed

text \<open>The list after such a loop, if no item becomes a control tag other than \<open>TAG_IGNORE\<close>.\<close>

lemma edited_list:
  assumes tl: "tag_list s p ps" and ag: "agree_on (- pair_bytes s ps) s s'" and ed: "\<forall>q \<in> set ps. pair_at s' q = edited e s q"
    and tags: "\<And>x. x \<in> set (tag_pairs s ps) \<Longrightarrow> fst (e x) \<notin> {TAG_DONE, TAG_MORE, TAG_SKIP}"
  shows "tag_list s' p ps \<and> tag_pairs s' ps = filter (\<lambda>x. fst x \<noteq> TAG_IGNORE) (map e (tag_pairs s ps))"
proof
  have in_pairs: "pair_at s q \<in> set (tag_pairs s ps)" if "q \<in> set ps" "is_item s q" for q using that by (auto simp: tag_pairs_def pair_at_def)
  have step: "tag_step s' q = tag_step s q" if "q \<in> set ps" for q
  proof (cases "is_item s q")
    case True
    then have "pair_at s' q = e (pair_at s q)" using ed that by (simp add: edited_def)
    then have "gread32 s' q \<notin> {TAG_DONE, TAG_MORE, TAG_SKIP}" using tags [OF in_pairs [OF that True]] pair_at_sel(1) [of s' q] by simp
    then show ?thesis using True by (auto simp: tag_step_def is_item_def Let_def)
  next
    case False
    then have "pair_at s' q = pair_at s q" using ed that by (simp add: edited_def)
    then show ?thesis using pair_at_sel [of s' q] by (simp add: pair_at_sel tag_step_def)
  qed
  have "tag_path s' p qs" if "tag_path s p qs" "set qs \<subseteq> set ps" for qs p using that by (induction qs arbitrary: p) (auto simp: step)
  moreover have "pairs_ok s' ps" using same_pairs_ok [of "[]" s s' ps] tl ag by (simp add: same_pairs_def agree_on_def tag_list_def)
  ultimately show "tag_list s' p ps" using tl by (simp add: tag_list_def)
  have item: "is_item s' q \<longleftrightarrow> is_item s q \<and> fst (e (pair_at s q)) \<noteq> TAG_IGNORE" if "q \<in> set ps" for q
  proof (cases "is_item s q")
    case True
    then have "pair_at s' q = e (pair_at s q)" using ed that by (simp add: edited_def)
    then show ?thesis using tags [OF in_pairs [OF that True]] pair_at_sel(1) [of s' q] True by (auto simp: is_item_def)
  next
    case False
    then have "pair_at s' q = pair_at s q" using ed that by (simp add: edited_def)
    then show ?thesis using False pair_at_sel(1) [of s' q] by (simp add: pair_at_sel is_item_def)
  qed
  have "tag_pairs s' qs = filter (\<lambda>x. fst x \<noteq> TAG_IGNORE) (map e (tag_pairs s qs))" if "set qs \<subseteq> set ps" for qs
    using that by (induction qs) (auto simp: tag_pairs_def item edited_def pair_at_def [symmetric] ed)
  then show "tag_pairs s' ps = filter (\<lambda>x. fst x \<noteq> TAG_IGNORE) (map e (tag_pairs s ps))" by simp
qed

subsection \<open>Properties\<close>

text \<open>Two tag lists that share no cell, the second one being looked up while the first is walked.\<close>

definition lists_apart :: "sandbox \<Rightarrow> u32 list \<Rightarrow> u32 set \<Rightarrow> bool" where
  "lists_apart s ps C \<longleftrightarrow> cells_ok s (pair_cells ps \<union> C) \<and> pair_cells ps \<inter> C = {}"

lemma apart_reads:
  assumes "lists_apart s ps C" "agree_on (- pair_bytes s ps) s s'" "c \<in> C"
  shows "gread32 s' c = gread32 s c"
proof -
  have ok: "cells_ok s (pair_cells ps \<union> C)" using assms(1) by (simp add: lists_apart_def)
  have "host_range s c 4 \<inter> host_range s b 4 = {}" if "b \<in> pair_cells ps" for b
    by (rule cells_disjoint [OF ok]) (use assms(1,3) that in \<open>auto simp: lists_apart_def\<close>)
  then have "host_range s c 4 \<inter> pair_bytes s ps = {}" by (auto simp: pair_bytes_def)
  then show ?thesis using agree_reads [OF assms(2) ok] assms(3) by blast
qed

lemma lookup_stable:
  assumes ml: "tag_list s m ms" and ap: "lists_apart s ps (pair_cells ms)" and ag: "agree_on (- pair_bytes s ps) s s'"
  shows "\<exists>q. utility_find_tag s' w m = Some q \<and>
    (case map_of (tag_pairs s ms) w of None \<Rightarrow> q = 0 | Some d \<Rightarrow> q \<noteq> 0 \<and> gread32 s' (q + 4) = d)"
proof -
  have same: "same_pairs ms s s'" using apart_reads [OF ap ag] ag by (auto simp: same_pairs_def agree_on_def pair_cells_def)
  then have "tag_list s' m ms" using ml same_pairs_path same_pairs_ok by (auto simp: tag_list_def)
  moreover have "tag_pairs s' qs = tag_pairs s qs" if "set qs \<subseteq> set ms" for qs
    using that same by (induction qs) (auto simp: tag_pairs_def same_pairs_def is_item_def)
  ultimately show ?thesis using find_tag_pairs [of s' m ms w] by (auto split: option.splits)
qed

lemma edit_pairs:
  assumes "tag_list s p ps"
    and "\<And>q s' a. q \<in> set ps \<Longrightarrow> is_item s q \<Longrightarrow> agree_on (- pair_bytes s ps) s s' \<Longrightarrow> pair_at s' q = pair_at s q \<Longrightarrow>
      \<exists>s''. body q (s', a) = Some (s'', g (pair_at s q) a) \<and> agree_on (- pair_bytes s [q]) s' s'' \<and> pair_at s'' q = e (pair_at s q)"
    and "\<And>x. x \<in> set (tag_pairs s ps) \<Longrightarrow> fst (e x) \<notin> {TAG_DONE, TAG_MORE, TAG_SKIP}"
  shows "\<exists>s'. each_item body p (s, a) = Some (s', fold g (tag_pairs s ps) a) \<and> agree_on (- pair_bytes s ps) s s' \<and>
    tag_list s' p ps \<and> tag_pairs s' ps = filter (\<lambda>x. fst x \<noteq> TAG_IGNORE) (map e (tag_pairs s ps))"
proof -
  obtain s' where "each_item body p (s, a) = Some (s', fold g (tag_pairs s ps) a)" "agree_on (- pair_bytes s ps) s s'"
    "\<forall>q \<in> set ps. pair_at s' q = edited e s q" using edit_items [OF assms(1), where body = body and g = g and e = e and a = a] assms(2) by metis
  then show ?thesis using edited_list [of s p ps s' e] assms(1,3) by blast
qed

lemma pair_tag_item: "x \<in> set (tag_pairs s ps) \<Longrightarrow> fst x \<notin> {TAG_DONE, TAG_IGNORE, TAG_MORE, TAG_SKIP}"
  by (auto simp: tag_pairs_def is_item_def)

definition tag_kept :: "u32 \<Rightarrow> u32 set \<Rightarrow> u32 \<times> u32 \<Rightarrow> bool" where
  "tag_kept logic T x \<longleftrightarrow> (logic = 0 \<and> fst x \<in> T) \<or> (logic = 1 \<and> fst x \<notin> T)"

lemma filter_pairs:
  fixes logic :: u32
  assumes tl: "tag_list s p ps" and arr: "tag_array s arr ts" "length ts < 65536" and ap: "lists_apart s ps (array_cells arr ts)"
  defines "keep \<equiv> tag_kept logic (set ts)"
  shows "\<exists>s'. FilterTagItems p arr logic s = Some (s', of_nat (length (filter keep (tag_pairs s ps)))) \<and> agree_on (- pair_bytes s ps) s s' \<and>
    tag_list s' p ps \<and> tag_pairs s' ps = filter keep (tag_pairs s ps)"
proof -
  have ok: "pairs_ok s ps" using tl by (simp add: tag_list_def)
  let ?e = "\<lambda>x. if keep x then x else (TAG_IGNORE, snd x)"
  have "\<exists>s'. FilterTagItems p arr logic s = Some (s', fold (\<lambda>x n. if keep x then n + 1 else n) (tag_pairs s ps) 0) \<and>
    agree_on (- pair_bytes s ps) s s' \<and> tag_list s' p ps \<and> tag_pairs s' ps = filter (\<lambda>x. fst x \<noteq> TAG_IGNORE) (map ?e (tag_pairs s ps))"
    unfolding FilterTagItems_def
  proof (rule edit_pairs [OF tl])
    show "fst (?e x) \<notin> {TAG_DONE, TAG_MORE, TAG_SKIP}" if "x \<in> set (tag_pairs s ps)" for x
      using pair_tag_item [OF that] by (simp add: tag_codes)
    fix q s' and a :: u32 assume q: "q \<in> set ps" "agree_on (- pair_bytes s ps) s s'" "pair_at s' q = pair_at s q"
    have sa: "same_arena s s'" using q(2) by (simp add: agree_on_def)
    have "tag_array s' arr ts" by (rule tag_array_cong [OF arr(1) sa]) (rule apart_reads [OF ap q(2)])
    moreover have "arena_ok s'" using ok same_arenaD(1) [OF sa] by (simp add: pairs_ok_def cells_ok_def)
    ultimately have found: "tag_in_array s' (gread32 s q) arr \<longleftrightarrow> gread32 s q \<in> set ts"
      using in_array_loop [OF _ _ arr(2)] by (simp add: tag_in_array_def)
    have id: "agree_on (- pair_bytes s [q]) s' s'" by (simp add: agree_on_def same_arena_def)
    show "\<exists>s''. (\<lambda>(s, valid). let found = tag_in_array s (gread32 s q) arr in
        Some (if logic = 0 \<and> found \<or> logic = 1 \<and> \<not> found then (s, valid + 1) else (gwrite32 s q TAG_IGNORE, valid))) (s', a) =
        Some (s'', if keep (pair_at s q) then a + 1 else a) \<and> agree_on (- pair_bytes s [q]) s' s'' \<and> pair_at s'' q = ?e (pair_at s q)"
      using pair_write [OF ok q(1) sa] q(3) id by (simp add: found keep_def tag_kept_def pair_at_def Let_def)
  qed
  moreover have "filter (\<lambda>x. fst x \<noteq> TAG_IGNORE) (map ?e xs) = filter keep xs" if "\<forall>x \<in> set xs. fst x \<noteq> TAG_IGNORE" for xs
    using that by (induction xs) auto
  then have "filter (\<lambda>x. fst x \<noteq> TAG_IGNORE) (map ?e (tag_pairs s ps)) = filter keep (tag_pairs s ps)" using pair_tag_item by blast
  moreover have "fold (\<lambda>x n. if keep x then n + 1 else n) xs a = a + of_nat (length (filter keep xs))" for xs and a :: u32
    by (induction xs arbitrary: a) auto
  ultimately show ?thesis by simp
qed

text \<open>The body of \<open>ApplyTagChanges\<close> and \<open>MapTags\<close>: the item is rewritten by what the second list says of its tag.\<close>

definition applied :: "(u32 \<rightharpoonup> u32) \<Rightarrow> u32 \<times> u32 \<Rightarrow> u32 \<times> u32" where
  "applied M x = (fst x, case M (fst x) of None \<Rightarrow> snd x | Some d \<Rightarrow> d)"

definition mapped :: "u32 \<Rightarrow> (u32 \<rightharpoonup> u32) \<Rightarrow> u32 \<times> u32 \<Rightarrow> u32 \<times> u32" where
  "mapped mode M x = (case M (fst x) of
      None \<Rightarrow> if mode = 0 then TAG_IGNORE else fst x
    | Some r \<Rightarrow> if r \<noteq> 0 then r else TAG_IGNORE, snd x)"

lemma fold_unit: "fold (\<lambda>_ _. ()) xs () = ()"
  by simp

lemma rewritten:
  assumes tl: "tag_list s p ps" and ml: "tag_list s m ms" and ap: "lists_apart s ps (pair_cells ms)"
  defines "M \<equiv> map_of (tag_pairs s ms)"
  shows "\<exists>s'. ApplyTagChanges p m s = Some s' \<and> agree_on (- pair_bytes s ps) s s' \<and> tag_list s' p ps \<and>
      tag_pairs s' ps = map (applied M) (tag_pairs s ps)"
    "\<forall>t \<in> ran M. t \<notin> {TAG_MORE, TAG_SKIP} \<Longrightarrow> \<exists>s'. MapTags p m mode s = Some s' \<and> agree_on (- pair_bytes s ps) s s' \<and> tag_list s' p ps \<and>
      tag_pairs s' ps = filter (\<lambda>x. fst x \<noteq> TAG_IGNORE) (map (mapped mode M) (tag_pairs s ps))"
proof -
  have ok: "pairs_ok s ps" using tl by (simp add: tag_list_def)
  have id: "agree_on (- pair_bytes s [q]) s' s'" for q s' by (simp add: agree_on_def same_arena_def)
  have "\<exists>s'. each_item (\<lambda>item (s, u). case utility_find_tag s (gread32 s item) m of None \<Rightarrow> None
       | Some change \<Rightarrow> Some (if change \<noteq> 0 then gwrite32 s (item + 4) (gread32 s (change + 4)) else s, u)) p (s, ()) =
       Some (s', fold (\<lambda>_ _. ()) (tag_pairs s ps) ()) \<and> agree_on (- pair_bytes s ps) s s' \<and> tag_list s' p ps \<and>
      tag_pairs s' ps = filter (\<lambda>x. fst x \<noteq> TAG_IGNORE) (map (applied M) (tag_pairs s ps))"
  proof (rule edit_pairs [OF tl])
    show "fst (applied M x) \<notin> {TAG_DONE, TAG_MORE, TAG_SKIP}" if "x \<in> set (tag_pairs s ps)" for x
      using pair_tag_item [OF that] by (simp add: applied_def)
    fix q s' and a :: unit assume q: "q \<in> set ps" "agree_on (- pair_bytes s ps) s s'" "pair_at s' q = pair_at s q"
    have sa: "same_arena s s'" using q(2) by (simp add: agree_on_def)
    obtain c where c: "utility_find_tag s' (gread32 s' q) m = Some c" "case M (gread32 s' q) of None \<Rightarrow> c = 0 | Some d \<Rightarrow> c \<noteq> 0 \<and> gread32 s' (c + 4) = d"
      using lookup_stable [OF ml ap q(2)] unfolding M_def by blast
    show "\<exists>s''. (\<lambda>(s, u). case utility_find_tag s (gread32 s q) m of None \<Rightarrow> None
       | Some change \<Rightarrow> Some (if change \<noteq> 0 then gwrite32 s (q + 4) (gread32 s (change + 4)) else s, u)) (s', a) =
        Some (s'', ()) \<and> agree_on (- pair_bytes s [q]) s' s'' \<and> pair_at s'' q = applied M (pair_at s q)"
      using pair_write [OF ok q(1) sa] q(3) id c by (auto simp: applied_def pair_at_def split: option.splits)
  qed
  moreover have "filter (\<lambda>x. fst x \<noteq> TAG_IGNORE) (map (applied M) (tag_pairs s ps)) = map (applied M) (tag_pairs s ps)"
    using pair_tag_item by (auto simp: filter_id_conv applied_def)
  ultimately show "\<exists>s'. ApplyTagChanges p m s = Some s' \<and> agree_on (- pair_bytes s ps) s s' \<and> tag_list s' p ps \<and>
      tag_pairs s' ps = map (applied M) (tag_pairs s ps)" unfolding ApplyTagChanges_def fold_unit by auto
  assume ran: "\<forall>t \<in> ran M. t \<notin> {TAG_MORE, TAG_SKIP}"
  have "\<exists>s'. each_item (\<lambda>item (s, u). case utility_find_tag s (gread32 s item) m of None \<Rightarrow> None
       | Some mp \<Rightarrow> Some (if mp \<noteq> 0 then let replacement = gread32 s (mp + 4) in gwrite32 s item (if replacement \<noteq> 0 then replacement else TAG_IGNORE)
           else if mode = 0 then gwrite32 s item TAG_IGNORE else s, u)) p (s, ()) =
       Some (s', fold (\<lambda>_ _. ()) (tag_pairs s ps) ()) \<and> agree_on (- pair_bytes s ps) s s' \<and> tag_list s' p ps \<and>
      tag_pairs s' ps = filter (\<lambda>x. fst x \<noteq> TAG_IGNORE) (map (mapped mode M) (tag_pairs s ps))"
  proof (rule edit_pairs [OF tl])
    show "fst (mapped mode M x) \<notin> {TAG_DONE, TAG_MORE, TAG_SKIP}" if "x \<in> set (tag_pairs s ps)" for x
      using pair_tag_item [OF that] ran by (auto simp: mapped_def ran_def tag_codes split: option.splits)
    fix q s' and a :: unit assume q: "q \<in> set ps" "agree_on (- pair_bytes s ps) s s'" "pair_at s' q = pair_at s q"
    have sa: "same_arena s s'" using q(2) by (simp add: agree_on_def)
    obtain c where c: "utility_find_tag s' (gread32 s' q) m = Some c" "case M (gread32 s' q) of None \<Rightarrow> c = 0 | Some d \<Rightarrow> c \<noteq> 0 \<and> gread32 s' (c + 4) = d"
      using lookup_stable [OF ml ap q(2)] unfolding M_def by blast
    show "\<exists>s''. (\<lambda>(s, u). case utility_find_tag s (gread32 s q) m of None \<Rightarrow> None
       | Some mp \<Rightarrow> Some (if mp \<noteq> 0 then let replacement = gread32 s (mp + 4) in gwrite32 s q (if replacement \<noteq> 0 then replacement else TAG_IGNORE)
           else if mode = 0 then gwrite32 s q TAG_IGNORE else s, u)) (s', a) =
        Some (s'', ()) \<and> agree_on (- pair_bytes s [q]) s' s'' \<and> pair_at s'' q = mapped mode M (pair_at s q)"
      using pair_write [OF ok q(1) sa] q(3) id c by (auto simp: mapped_def pair_at_def Let_def split: option.splits)
  qed
  then show "\<exists>s'. MapTags p m mode s = Some s' \<and> agree_on (- pair_bytes s ps) s s' \<and> tag_list s' p ps \<and>
      tag_pairs s' ps = filter (\<lambda>x. fst x \<noteq> TAG_IGNORE) (map (mapped mode M) (tag_pairs s ps))" unfolding MapTags_def fold_unit by auto
qed

lemma read_items:
  assumes "tag_list s p ps" and body: "\<And>q a. q \<in> set ps \<Longrightarrow> is_item s q \<Longrightarrow> body q (s, a) = Some (s, g (pair_at s q) a)"
  shows "each_item body p (s, a) = Some (s, fold g (tag_pairs s ps) a)"
proof -
  define P where "P rem sa \<longleftrightarrow> fst sa = s \<and> (\<exists>ds. ps = ds @ rem \<and> snd sa = fold g (tag_pairs s ds) a)" for rem sa
  have "\<exists>sa'. each_item body p (s, a) = Some sa' \<and> P [] sa'"
  proof (rule each_item_rule)
    show "tag_path (fst (s, a)) p ps" "pairs_ok (fst (s, a)) ps" using assms(1) by (simp_all add: tag_list_def)
    show "P ps (s, a)" by (auto simp: P_def tag_pairs_def)
  next
    fix q bs sa assume "\<not> is_item (fst sa) q" "P (q # bs) sa"
    then obtain ds where "fst sa = s" "ps = (ds @ [q]) @ bs" "snd sa = fold g (tag_pairs s ds) a" "\<not> is_item s q" by (auto simp: P_def)
    then show "P bs sa" unfolding P_def by (intro conjI exI [of _ "ds @ [q]"]) (auto simp: tag_pairs_def)
  next
    fix q bs sa assume "is_item (fst sa) q" "P (q # bs) sa"
    then obtain ds where ds: "fst sa = s" "ps = (ds @ [q]) @ bs" "snd sa = fold g (tag_pairs s ds) a" "is_item s q" by (auto simp: P_def)
    then have b: "body q sa = Some (s, g (pair_at s q) (snd sa))" using body [of q "snd sa"] by (cases sa) simp
    have "P bs (s, g (pair_at s q) (snd sa))"
      unfolding P_def using ds by (intro conjI exI [of _ "ds @ [q]"]) (auto simp: tag_pairs_def pair_at_def)
    then show "\<exists>sa'. body q sa = Some sa' \<and> P bs sa' \<and> same_pairs bs (fst sa) (fst sa')"
      using b ds(1) by (auto simp: same_pairs_def same_arena_def)
  qed
  then show ?thesis by (auto simp: P_def)
qed

definition packed :: "(u32 \<rightharpoonup> u32) \<Rightarrow> u32 \<times> u32 \<Rightarrow> u32 \<Rightarrow> u32" where
  "packed M x flags = (case M (fst x) of None \<Rightarrow> flags | Some mk \<Rightarrow> if snd x \<noteq> 0 then flags OR mk else flags AND NOT mk)"

text \<open>C36. Searching a tag list. A well-formed list, through all its ignored, chained and skipped parts, behaves as the sequence of its (tag, data)
  pairs: FindTagItem returns the first item with the tag or 0, GetTagData its data or the default, and PackBoolTags folds
  each pair into the flags by the mask that a second list gives its tag. Each returns.\<close>

theorem tag_search:
  assumes "tag_list s p ps" "tag_list s m ms"
  shows "FindTagItem w p s = Some (case find (\<lambda>q. is_item s q \<and> gread32 s q = w) ps of None \<Rightarrow> 0 | Some q \<Rightarrow> q) \<and>
    GetTagData w d p s = Some (case map_of (tag_pairs s ps) w of None \<Rightarrow> d | Some v \<Rightarrow> v) \<and>
    PackBoolTags flags p m s = Some (fold (packed (map_of (tag_pairs s ms))) (tag_pairs s ps) flags)"
proof (intro conjI)
  show "FindTagItem w p s = Some (case find (\<lambda>q. is_item s q \<and> gread32 s q = w) ps of None \<Rightarrow> 0 | Some q \<Rightarrow> q)"
    unfolding FindTagItem_def using assms(1) by (intro find_tag_path) (auto simp: tag_list_def)
  show "GetTagData w d p s = Some (case map_of (tag_pairs s ps) w of None \<Rightarrow> d | Some v \<Rightarrow> v)"
    using find_tag_pairs [OF assms(1), of w] by (auto simp: GetTagData_def split: option.splits)
  have "each_item (\<lambda>item (s, flags). case utility_find_tag s (gread32 s item) m of
         None \<Rightarrow> None
       | Some mp \<Rightarrow> Some (s, if mp = 0 then flags
           else let mk = gread32 s (mp + 4) in if gread32 s (item + 4) \<noteq> 0 then flags OR mk else flags AND NOT mk)) p (s, flags) =
      Some (s, fold (packed (map_of (tag_pairs s ms))) (tag_pairs s ps) flags)"
  proof (rule read_items [OF assms(1)])
    fix q and a :: u32
    show "(\<lambda>(s, flags). case utility_find_tag s (gread32 s q) m of
         None \<Rightarrow> None
       | Some mp \<Rightarrow> Some (s, if mp = 0 then flags
           else let mk = gread32 s (mp + 4) in if gread32 s (q + 4) \<noteq> 0 then flags OR mk else flags AND NOT mk)) (s, a) =
        Some (s, packed (map_of (tag_pairs s ms)) (pair_at s q) a)"
      using find_tag_pairs [OF assms(2), of "gread32 s q"] by (auto simp: packed_def pair_at_def Let_def split: option.splits)
  qed
  then show "PackBoolTags flags p m s = Some (fold (packed (map_of (tag_pairs s ms))) (tag_pairs s ps) flags)"
    by (simp add: PackBoolTags_def)
qed


text \<open>
  The guard counts only the control tags between two items. A chain that leads back to an ordinary item makes every
  search for an absent tag run forever.
\<close>

theorem tag_cycle_hangs:
  assumes "inside s q 16" "arena_ok s" "is_item s q" "gread32 s (q + 8) = TAG_MORE" "gread32 s (q + 12) = q" "w \<noteq> gread32 s q"
  shows "utility_find_tag s w q = None"
proof -
  have i: "inside s q 8" "inside s (q + 8) 8" using assms(1) inside_offset [OF assms(1,2), of 8 8] by (auto simp: inside_def)
  have nz: "q \<noteq> 0" "q + 8 \<noteq> 0" using i inside_nonzero assms(2) by blast+
  have at_q: "next_loop s (Suc g) q = (q, q + 8)" for g
    using assms(3) i nz by (auto simp: span_inside is_item_def Let_def)
  have more: "next_loop s (Suc (Suc g)) (q + 8) = (q, q + 8)" for g
    using at_q [of g] assms(4,5) i nz by (simp add: span_inside tag_codes Let_def add.commute [of q] del: next_loop.simps(2)) (simp add: span_inside tag_codes Let_def)
  have g: "(65536 :: nat) = Suc (Suc 65534)" by simp
  have "next_item s q = (q, q + 8)" unfolding next_item_def g by (rule at_q)
  moreover have "next_item s (q + 8) = (q, q + 8)" unfolding next_item_def g by (rule more)
  ultimately have n: "next_item s c = (q, q + 8)" if "c \<in> {q, q + 8}" for c using that by auto
  have "s' = s \<and> w' = w \<and> c \<in> {q, q + 8} \<longrightarrow> False" if "utility_find_tag s' w' c = Some y" for s' w' c y
  proof (rule utility_find_tag.raw_induct [OF _ that, where P = "\<lambda>s' w' c y. s' = s \<and> w' = w \<and> c \<in> {q, q + 8} \<longrightarrow> False"], rule impI)
    fix f s' w' c y
    assume IH: "\<And>s' w' c y. f s' w' c = Some y \<Longrightarrow> s' = s \<and> w' = w \<and> c \<in> {q, q + 8} \<longrightarrow> False"
      and step: "(case next_item s' c of (item, cursor) \<Rightarrow> if item = 0 then Some 0 else if gread32 s' item = w' then Some item else f s' w' cursor) = Some y"
      and c: "s' = s \<and> w' = w \<and> c \<in> {q, q + 8}"
    have "f s w (q + 8) = Some y" using step c n [of c] nz(1) assms(6) by auto
    from IH [OF this] show False by simp
  qed
  then show ?thesis by (cases "utility_find_tag s w q") auto
qed

text \<open>Two lists of one pair each and an array of one tag, in the demonstration arena.\<close>

definition demo_tags :: sandbox where
  "demo_tags = gwrite32 (gwrite32 (gwrite32 (run_sb demo_run) 0x260008 0) 0x260018 0) 0x260024 0"

lemma demo_tag_cells: "cells_ok (run_sb demo_run) ({0x260000, 0x260004, 0x260008, 0x26000C, 0x260010, 0x260014, 0x260018, 0x26001C} \<union> {0x260020, 0x260024})"
  by (simp add: cells_ok_def demo_run_def inside_def arena_ok_def apart_def)

lemma demo_tag_reads:
  "gread32 demo_tags 0x260000 = 0x1010101" "gread32 demo_tags 0x260004 = 0x1010101" "gread32 demo_tags 0x260008 = 0"
  "gread32 demo_tags 0x260010 = 0x1010101" "gread32 demo_tags 0x260014 = 0x1010101" "gread32 demo_tags 0x260018 = 0"
  "gread32 demo_tags 0x260020 = 0x1010101" "gread32 demo_tags 0x260024 = 0"
proof -
  have "gread32 (run_sb demo_run) a = 0x1010101" if "inside (run_sb demo_run) a 4" for a
    using that by (subst read_in) (simp_all add: demo_run_def arena_ok_def sb_read_be32_def be32_def)
  then have "gread32 (run_sb demo_run) a = 0x1010101" if "a \<in> {0x260000, 0x260004, 0x260010, 0x260014, 0x260020}" for a
    using that demo_tag_cells by (auto simp: cells_ok_def)
  then show "gread32 demo_tags 0x260000 = 0x1010101" "gread32 demo_tags 0x260004 = 0x1010101" "gread32 demo_tags 0x260008 = 0"
    "gread32 demo_tags 0x260010 = 0x1010101" "gread32 demo_tags 0x260014 = 0x1010101" "gread32 demo_tags 0x260018 = 0"
    "gread32 demo_tags 0x260020 = 0x1010101" "gread32 demo_tags 0x260024 = 0"
    using demo_tag_cells by (simp_all add: demo_tags_def cell_write [where C = "{0x260000, 0x260004, 0x260008, 0x26000C, 0x260010, 0x260014, 0x260018, 0x26001C} \<union> {0x260020, 0x260024}"])
qed

lemma demo_tag_lists: "tag_list demo_tags 0x260000 [0x260000, 0x260008]" "tag_list demo_tags 0x260010 [0x260010, 0x260018]"
  "tag_array demo_tags 0x260020 [0x1010101]" "lists_apart demo_tags [0x260000, 0x260008] (array_cells 0x260020 [0x1010101 :: u32])"
  "lists_apart demo_tags [0x260000, 0x260008] (pair_cells [0x260010, 0x260018])"
  "tag_pairs demo_tags [0x260000, 0x260008] = [(0x1010101, 0x1010101)]" "tag_pairs demo_tags [0x260010, 0x260018] = [(0x1010101, 0x1010101)]"
proof -
  have ok: "cells_ok demo_tags ({0x260000, 0x260004, 0x260008, 0x26000C, 0x260010, 0x260014, 0x260018, 0x26001C} \<union> {0x260020, 0x260024})"
    using demo_tag_cells by (simp add: demo_tags_def)
  have ins: "inside demo_tags a n = inside (run_sb demo_run) a n" for a n by (simp add: demo_tags_def)
  show "tag_list demo_tags 0x260000 [0x260000, 0x260008]" "tag_list demo_tags 0x260010 [0x260010, 0x260018]"
    using cells_mono [OF ok] by (simp_all add: tag_list_def tag_step_def tag_codes demo_tag_reads pairs_ok_def pair_cells_def ins Let_def)
      (simp_all add: demo_run_def inside_def)
  show "tag_array demo_tags 0x260020 [0x1010101]" by (simp add: ins demo_tag_reads tag_codes) (simp add: demo_run_def inside_def)
  show "lists_apart demo_tags [0x260000, 0x260008] (array_cells 0x260020 [0x1010101 :: u32])"
    "lists_apart demo_tags [0x260000, 0x260008] (pair_cells [0x260010, 0x260018])"
    using cells_mono [OF ok] by (simp_all add: lists_apart_def pair_cells_def)
  show "tag_pairs demo_tags [0x260000, 0x260008] = [(0x1010101, 0x1010101)]" "tag_pairs demo_tags [0x260010, 0x260018] = [(0x1010101, 0x1010101)]"
    by (simp_all add: tag_pairs_def is_item_def tag_codes demo_tag_reads)
qed

lemma tag_search_witness:
  "FindTagItem 0x1010101 0x260000 demo_tags = Some 0x260000 \<and> GetTagData 7 9 0x260000 demo_tags = Some 9 \<and>
   PackBoolTags 2 0x260000 0x260010 demo_tags = Some 0x1010103"
  using tag_search [OF demo_tag_lists(1,2), where w = "0x1010101" and flags = 2] tag_search [OF demo_tag_lists(1,2), where w = 7 and d = 9]
  by (simp add: demo_tag_lists(6,7) is_item_def demo_tag_reads tag_codes packed_def)


end
