(* ===== verification/EmuPorts.thy ===== *)
theory EmuPorts
  imports ExecList EmuLists
begin

unbundle bit_operations_syntax

text \<open>
  Message ports and signals of a 68k program (\<open>hosted/emu68k/emu68k_exec.c\<close>, with the library table of \<open>emu68k_host.c\<close>): a
  \<open>MsgPort\<close> has its signal bit at offset 15, its task at 16 and its message list at 20; a \<open>Message\<close> its reply port at 14
  and its length at 18; a \<open>Task\<close> its allocated signals at 18 and its received signals at 26.
\<close>

subsection \<open>The run\<close>

definition MP_SIGBIT :: u32 where "MP_SIGBIT = 15"
definition MP_SIGTASK :: u32 where "MP_SIGTASK = 16"
definition MP_MSGLIST :: u32 where "MP_MSGLIST = 20"
definition MN_REPLYPORT :: u32 where "MN_REPLYPORT = 14"
definition MN_LENGTH :: u32 where "MN_LENGTH = 18"
definition TASK_SIGALLOC_OFF :: u32 where "TASK_SIGALLOC_OFF = 18"
definition TASK_SIGRECVD_OFF :: u32 where "TASK_SIGRECVD_OFF = 26"
definition M68K_MsgPort_SIZEOF :: u32 where "M68K_MsgPort_SIZEOF = 42"

lemmas port_offsets = MP_SIGBIT_def MP_SIGTASK_def MP_MSGLIST_def MN_REPLYPORT_def MN_LENGTH_def TASK_SIGALLOC_OFF_def TASK_SIGRECVD_OFF_def

datatype guestlib_state = GL_EMPTY | GL_LOADING | GL_OPENING | GL_READY | GL_FAILED | GL_UNLOADED

record guestlib_live =
  gl_state :: guestlib_state
  gl_name :: "u8 list"
  gl_base :: u32
  open_base :: "u32 list"

record emu_ctx =
  ctx_task_at :: u32
  ctx_live :: bool

record public_port =
  pub_port :: u32
  pub_name :: u32
  pub_live :: bool

text \<open>The contexts, the library table, the aliases and the public ports of \<open>struct emu68k_run\<close>; \<open>libbases\<close> are the bases the engines were told of.\<close>

record port_run = emu_run +
  ctxs :: "emu_ctx list"
  cur_ctx :: nat
  guestlib :: "guestlib_live list"
  libalias :: "(u32 \<times> u32) list"
  libbases :: "u32 list"
  public_ports :: "public_port list"

definition GUEST_PROCESS :: u32 where "GUEST_PROCESS = 0x210000"

definition emu68k_ctx_task :: "'a port_run_scheme \<Rightarrow> u32" where
  "emu68k_ctx_task r =
     (if ctxs r \<noteq> [] \<and> ctx_live (ctxs r ! cur_ctx r) then ctx_task_at (ctxs r ! cur_ctx r) else GUEST_PROCESS)"

subsection \<open>Guest libraries\<close>

definition GUESTLIB_OPENS_MAX :: nat where "GUESTLIB_OPENS_MAX = 32"
definition EMU68K_LIBALIAS_MAX :: nat where "EMU68K_LIBALIAS_MAX = 32"
definition EMU68K_PUBLIC_PORT_MAX :: nat where "EMU68K_PUBLIC_PORT_MAX = 64"

definition guestlib_add_open :: "guestlib_live \<Rightarrow> u32 \<Rightarrow> guestlib_live option" where
  "guestlib_add_open g base =
     (if length (open_base g) \<ge> GUESTLIB_OPENS_MAX then None else Some (g\<lparr>open_base := open_base g @ [base]\<rparr>))"

definition guestlib_drop_open :: "guestlib_live \<Rightarrow> u32 \<Rightarrow> guestlib_live" where
  "guestlib_drop_open g base = g\<lparr>open_base := remove1 base (open_base g)\<rparr>"

definition guestlib_owns_base :: "guestlib_live \<Rightarrow> u32 \<Rightarrow> bool" where
  "guestlib_owns_base g base \<longleftrightarrow> (base \<noteq> 0 \<and> base = gl_base g) \<or> base \<in> set (open_base g)"

text \<open>The index of the first entry that satisfies a test, as the loops over the tables of the run return it.\<close>

fun first_index :: "('b \<Rightarrow> bool) \<Rightarrow> 'b list \<Rightarrow> nat option" where
  "first_index P [] = None"
| "first_index P (x # xs) = (if P x then Some 0 else map_option Suc (first_index P xs))"

definition emu68k_find_guestlib_name :: "'a port_run_scheme \<Rightarrow> u8 list \<Rightarrow> nat option" where
  "emu68k_find_guestlib_name r nm = first_index (\<lambda>g. gl_state g \<noteq> GL_EMPTY \<and> gl_state g \<noteq> GL_UNLOADED \<and> gl_name g = nm) (guestlib r)"

definition emu68k_find_guestlib_base :: "'a port_run_scheme \<Rightarrow> u32 \<Rightarrow> nat option" where
  "emu68k_find_guestlib_base r base = first_index (\<lambda>g. gl_state g = GL_READY \<and> guestlib_owns_base g base) (guestlib r)"

text \<open>Errors end the call with a message and no result: \<open>None\<close>.\<close>

definition emu68k_register_libalias :: "'a port_run_scheme \<Rightarrow> u32 \<Rightarrow> u32 \<Rightarrow> 'a port_run_scheme option" where
  "emu68k_register_libalias r alias target =
     (if alias = 0 \<or> target = 0 \<or> alias = target then Some r
      else case map_of (libalias r) alias of
          Some t \<Rightarrow> if t = target then Some r else None
        | None \<Rightarrow>
            if length (libalias r) \<ge> EMU68K_LIBALIAS_MAX then None
            else Some (r\<lparr>libalias := libalias r @ [(alias, target)], libbases := alias # libbases r\<rparr>))"

subsection \<open>Messages\<close>

definition set_sb :: "sandbox \<Rightarrow> 'a port_run_scheme \<Rightarrow> 'a port_run_scheme" where
  "set_sb s r = r\<lparr>run_sb := s\<rparr>"

definition signal_task :: "u32 \<Rightarrow> u32 \<Rightarrow> sandbox \<Rightarrow> sandbox" where
  "signal_task task sigs s = gwrite32 s (task + TASK_SIGRECVD_OFF) (gread32 s (task + TASK_SIGRECVD_OFF) OR sigs)"

text \<open>\<open>rexxsyslib.library\<close>\<close>

definition rexxsyslib :: "u8 list" where
  "rexxsyslib = [0x72, 0x65, 0x78, 0x78, 0x73, 0x79, 0x73, 0x6C, 0x69, 0x62, 0x2E, 0x6C, 0x69, 0x62, 0x72, 0x61, 0x72, 0x79]"

text \<open>A complete RexxMsg with a Rexx action makes its private word an alias of the loaded Rexx library.\<close>

definition rexx_alias :: "u32 \<Rightarrow> 'a port_run_scheme \<Rightarrow> 'a port_run_scheme option" where
  "rexx_alias msg r =
     (let s = run_sb r; len = gread16 s (msg + MN_LENGTH);
          word24 = (if guest_span_ok s msg 48 then gread32 s (msg + 24) else 0);
          word28 = (if guest_span_ok s msg 48 then gread32 s (msg + 28) else 0);
          action = drop_bit 24 word28
      in if len \<ge> 128 \<and> word24 \<noteq> 0 \<and> ((action \<ge> 1 \<and> action \<le> 13) \<or> action \<ge> 0xF0) then
           (case emu68k_find_guestlib_name r rexxsyslib of
              Some gi \<Rightarrow>
                if gl_state (guestlib r ! gi) = GL_READY \<and> emu68k_find_guestlib_base r word24 = None
                then emu68k_register_libalias r word24 (gl_base (guestlib r ! gi)) else Some r
            | None \<Rightarrow> Some r)
         else Some r)"

definition exec_PutMsg :: "u32 \<Rightarrow> u32 \<Rightarrow> 'a port_run_scheme \<Rightarrow> 'a port_run_scheme option" where
  "exec_PutMsg port msg r =
     (case rexx_alias msg r of
        None \<Rightarrow> None
      | Some r \<Rightarrow>
          let s = run_sb r; list = port + MP_MSGLIST;
              tailpred = gread32 s (list + 8);
              s = gwrite32 s msg (list + 4);
              s = gwrite32 s (msg + 4) tailpred;
              s = gwrite32 s tailpred msg;
              s = gwrite32 s (list + 8) msg;
              task = gread32 s (port + MP_SIGTASK);
              b = gread8 s (port + MP_SIGBIT);
              s = (if task \<noteq> 0 \<and> b < 32 then signal_task task (push_bit (unat b) 1) s else s)
          in Some (set_sb s r))"

text \<open>\<open>pump\<close> stands for the delivery of native window events, which may add messages first. The mouse button state that the code notes when it hands out
  such an event belongs to the display bridge and is not part of the run modelled here.\<close>

definition exec_GetMsg :: "('a port_run_scheme \<Rightarrow> 'a port_run_scheme) \<Rightarrow> u32 \<Rightarrow> 'a port_run_scheme \<Rightarrow> u32 \<times> 'a port_run_scheme" where
  "exec_GetMsg pump port r0 =
     (let r = pump r0; s = run_sb r; list = port + MP_MSGLIST;
          head = gread32 s list; succ = (if head \<noteq> 0 then gread32 s head else 0)
      in if head = 0 \<or> succ = 0 then (0, r)
         else (head, set_sb (gwrite32 (gwrite32 s list succ) (succ + 4) list) r))"

text \<open>\<open>native\<close> says whether the OS side recognised the message as one of its own.\<close>

definition exec_ReplyMsg :: "bool \<Rightarrow> u32 \<Rightarrow> 'a port_run_scheme \<Rightarrow> 'a port_run_scheme option" where
  "exec_ReplyMsg native msg r =
     (if native then Some r
      else let reply = gread32 (run_sb r) (msg + MN_REPLYPORT) in
        if reply = 0 then Some r else exec_PutMsg reply msg r)"

text \<open>The test that \<open>Wait\<close> makes first and after every turn of another context: the wanted signals that arrived, taken.\<close>

definition take_signals :: "u32 \<Rightarrow> 'a port_run_scheme \<Rightarrow> (u32 \<times> 'a port_run_scheme) option" where
  "take_signals want r =
     (let s = run_sb r; cell = emu68k_ctx_task r + TASK_SIGRECVD_OFF; got = gread32 s cell AND want
      in if got \<noteq> 0 then Some (got, set_sb (gwrite32 s cell (gread32 s cell AND NOT got)) r) else None)"

definition exec_SetSignal :: "u32 \<Rightarrow> u32 \<Rightarrow> 'a port_run_scheme \<Rightarrow> u32 \<times> 'a port_run_scheme" where
  "exec_SetSignal new mk r =
     (let s = run_sb r; task = emu68k_ctx_task r; old = gread32 s (task + TASK_SIGRECVD_OFF)
      in (old, set_sb (gwrite32 s (task + TASK_SIGRECVD_OFF) ((old AND NOT mk) OR (new AND mk))) r))"

definition exec_Signal :: "u32 \<Rightarrow> u32 \<Rightarrow> 'a port_run_scheme \<Rightarrow> 'a port_run_scheme" where
  "exec_Signal task sigs r = (if task \<noteq> 0 then set_sb (signal_task task sigs (run_sb r)) r else r)"

subsection \<open>Signal bits\<close>

text \<open>The loops that look for a free bit, from 31 down to 16; \<open>-1\<close> is the result of a failed search.\<close>

fun free_signal :: "u32 \<Rightarrow> nat \<Rightarrow> int" where
  "free_signal alloc n = (if n < 16 then - 1 else if \<not> bit alloc n then int n else free_signal alloc (n - 1))"

declare free_signal.simps [simp del]

definition exec_AllocSignal :: "u32 \<Rightarrow> 'a port_run_scheme \<Rightarrow> u32 \<times> 'a port_run_scheme" where
  "exec_AllocSignal d0 r =
     (let s = run_sb r; cell = emu68k_ctx_task r + TASK_SIGALLOC_OFF; alloc = gread32 s cell; want = sint d0;
          b = (if want \<ge> 0 \<and> want < 32 then (if \<not> bit alloc (nat want) then want else - 1) else free_signal alloc 31);
          s = (if b \<ge> 0 then gwrite32 s cell (alloc OR push_bit (nat b) 1) else s)
      in (word_of_int b, set_sb s r))"

definition exec_FreeSignal :: "u32 \<Rightarrow> 'a port_run_scheme \<Rightarrow> 'a port_run_scheme" where
  "exec_FreeSignal d0 r =
     (let b = sint d0 in
      if b \<ge> 0 \<and> b < 32 then
        let s = run_sb r; cell = emu68k_ctx_task r + TASK_SIGALLOC_OFF; alloc = gread32 s cell
        in set_sb (gwrite32 s cell (alloc AND NOT (push_bit (nat b) 1))) r
      else r)"

subsection \<open>Ports\<close>

definition NT_MSGPORT :: u8 where "NT_MSGPORT = 4"

definition init_list :: "u32 \<Rightarrow> sandbox \<Rightarrow> sandbox" where
  "init_list list s = gwrite32 (gwrite32 (gwrite32 s list (list + 4)) (list + 4) 0) (list + 8) list"

definition host_put :: "sandbox \<Rightarrow> u32 \<Rightarrow> u8 \<Rightarrow> sandbox" where
  "host_put s a v = s\<lparr>host_mem := (host_mem s)(j4_sandbox_host s a := v)\<rparr>"

text \<open>\<open>None\<close> is the capability gap of a task without a free signal.\<close>

definition exec_CreateMsgPort :: "'a port_run_scheme \<Rightarrow> (u32 \<times> 'a port_run_scheme) option" where
  "exec_CreateMsgPort r0 =
     (case emu68k_guest_alloc r0 M68K_MsgPort_SIZEOF of (port, r) \<Rightarrow>
        let s = run_sb r; task = emu68k_ctx_task r; alloc = gread32 s (task + TASK_SIGALLOC_OFF) in
        if port = 0 then Some (0, r)
        else let b = free_signal alloc 31 in
          if b < 16 then None
          else let s = gwrite32 s (task + TASK_SIGALLOC_OFF) (alloc OR push_bit (nat b) 1);
                   s = gfill s port 0 (unat M68K_MsgPort_SIZEOF);
                   s = host_put s (port + 8) NT_MSGPORT;
                   s = host_put s (port + MP_SIGBIT) (word_of_int b);
                   s = gwrite32 s (port + MP_SIGTASK) task
            in Some (port, set_sb (init_list (port + MP_MSGLIST) s) r))"

text \<open>\<open>unbind\<close> tells the OS side that the port is gone.\<close>

definition exec_DeleteMsgPort :: "('a port_run_scheme \<Rightarrow> 'a port_run_scheme) \<Rightarrow> u32 \<Rightarrow> 'a port_run_scheme \<Rightarrow> 'a port_run_scheme" where
  "exec_DeleteMsgPort unbind port r0 =
     (if port = 0 then r0
      else let r = unbind r0; s = run_sb r; task = gread32 s (port + MP_SIGTASK); b = gread8 s (port + MP_SIGBIT) in
        if task \<noteq> 0 \<and> b < 32 then
          set_sb (gwrite32 s (task + TASK_SIGALLOC_OFF) (gread32 s (task + TASK_SIGALLOC_OFF) AND NOT (push_bit (unat b) 1))) r
        else r)"

text \<open>\<open>AddPort\<close> clears the message list even of a port that is already published.\<close>

definition exec_AddPort :: "u32 \<Rightarrow> 'a port_run_scheme \<Rightarrow> 'a port_run_scheme option" where
  "exec_AddPort port r =
     (let s = run_sb r in
      if \<not> guest_span_ok s port 34 then None
      else let s = init_list (port + MP_MSGLIST) (gwrite8 s (port + 8) NT_MSGPORT); nm = gread32 s (port + 10); r = set_sb s r in
        if first_index (\<lambda>p. pub_live p \<and> pub_port p = port) (public_ports r) \<noteq> None then Some r
        else case first_index (\<lambda>p. \<not> pub_live p) (public_ports r) of
            None \<Rightarrow> None
          | Some slot \<Rightarrow> Some (r\<lparr>public_ports := (public_ports r)[slot := \<lparr>pub_port = port, pub_name = nm, pub_live = True\<rparr>]\<rparr>))"

definition exec_RemPort :: "u32 \<Rightarrow> 'a port_run_scheme \<Rightarrow> 'a port_run_scheme" where
  "exec_RemPort port r =
     (case first_index (\<lambda>p. pub_live p \<and> pub_port p = port) (public_ports r) of
        None \<Rightarrow> r
      | Some i \<Rightarrow> r\<lparr>public_ports := (public_ports r)[i := (public_ports r ! i)\<lparr>pub_live := False\<rparr>]\<rparr>)"

definition exec_FindPort :: "u32 \<Rightarrow> 'a port_run_scheme \<Rightarrow> u32" where
  "exec_FindPort nm r =
     (case emu68k_guest_cstr (run_sb r) nm of
        None \<Rightarrow> 0
      | Some wanted \<Rightarrow>
          (case first_index (\<lambda>p. pub_live p \<and> emu68k_guest_cstr (run_sb r) (pub_name p) = Some wanted) (public_ports r) of
             None \<Rightarrow> 0 | Some i \<Rightarrow> pub_port (public_ports r ! i)))"

subsection \<open>Traps and semaphores\<close>

definition TF_ETASK_GUEST :: u8 where "TF_ETASK_GUEST = 8"

text \<open>The address of the 16 trap bits; 0 when the extended task structure lies outside guest memory.\<close>

definition guest_trapalloc_addr :: "sandbox \<Rightarrow> u32 \<Rightarrow> u32" where
  "guest_trapalloc_addr s task =
     (if gread8 s (task + 14) AND TF_ETASK_GUEST \<noteq> 0 then
        let etask = gread32 s (task + 34) in if \<not> guest_span_ok s etask 110 then 0 else etask + 40
      else task + 34)"

definition exec_AllocTrap :: "u32 \<Rightarrow> 'a port_run_scheme \<Rightarrow> (u32 \<times> 'a port_run_scheme) option" where
  "exec_AllocTrap d0 r =
     (let s = run_sb r; cell = guest_trapalloc_addr s (emu68k_ctx_task r); want = sint d0 in
      if cell = 0 then None
      else let alloc = gread16 s cell;
               trap = (if want \<ge> 0 \<and> want < 16 then (if \<not> bit alloc (nat want) then want else - 1)
                 else if want < 0 then (case first_index (\<lambda>n. \<not> bit alloc n) [0..<16] of None \<Rightarrow> - 1 | Some n \<Rightarrow> int n)
                 else - 1);
               s = (if trap \<ge> 0 then gwrite16 s cell (alloc OR push_bit (nat trap) 1) else s)
        in Some (word_of_int trap, set_sb s r))"

definition exec_FreeTrap :: "u32 \<Rightarrow> 'a port_run_scheme \<Rightarrow> 'a port_run_scheme option" where
  "exec_FreeTrap d0 r =
     (let trap = sint d0 in
      if trap \<ge> 0 \<and> trap < 16 then
        let s = run_sb r; cell = guest_trapalloc_addr s (emu68k_ctx_task r) in
        if cell = 0 then None else Some (set_sb (gwrite16 s cell (gread16 s cell AND NOT (push_bit (nat trap) 1))) r)
      else Some r)"

definition exec_InitSemaphore :: "u32 \<Rightarrow> 'a port_run_scheme \<Rightarrow> 'a port_run_scheme" where
  "exec_InitSemaphore ss r =
     (if ss = 0 then r
      else let s = gfill (run_sb r) ss 0 44;
               s = gwrite32 s (ss + 16) (ss + 20);
               s = gwrite32 s (ss + 20) 0;
               s = gwrite32 s (ss + 24) (ss + 16);
               s = gwrite32 s (ss + 36) 0;
               h = j4_sandbox_host s ss
        in set_sb (s\<lparr>host_mem := (host_mem s)(h + 40 := 0xFF, h + 41 := 0xFF)\<rparr>) r)"

definition M68K_SemaphoreMessage_SIZEOF :: u32 where "M68K_SemaphoreMessage_SIZEOF = 24"
definition SSM_SEMAPHORE_OFF :: u32 where "SSM_SEMAPHORE_OFF = 20"

definition exec_Procure :: "u32 \<Rightarrow> u32 \<Rightarrow> 'a port_run_scheme \<Rightarrow> (u32 \<times> 'a port_run_scheme) option" where
  "exec_Procure sem msg r =
     (let s = run_sb r in
      if \<not> guest_span_ok s sem 44 \<or> \<not> guest_span_ok s msg M68K_SemaphoreMessage_SIZEOF then None
      else let s = gwrite16 s (msg + MN_LENGTH) M68K_SemaphoreMessage_SIZEOF;
               s = gwrite32 s (msg + SSM_SEMAPHORE_OFF) sem;
               reply = gread32 s (msg + MN_REPLYPORT); r = set_sb s r
        in if reply \<noteq> 0 then map_option (\<lambda>r. (0, r)) (exec_PutMsg reply msg r) else Some (0, r))"

definition exec_Vacate :: "u32 \<Rightarrow> u32 \<Rightarrow> 'a port_run_scheme \<Rightarrow> 'a port_run_scheme option" where
  "exec_Vacate sem msg r =
     (let s = run_sb r in
      if \<not> guest_span_ok s sem 44 \<or> \<not> guest_span_ok s msg M68K_SemaphoreMessage_SIZEOF then None
      else Some (set_sb (gwrite32 s (msg + SSM_SEMAPHORE_OFF) 0) r))"

subsection \<open>Queues in guest memory\<close>

text \<open>
  The memory of a port with its task's received-signals longword and room for the messages \<open>ms\<close>: only the geometry of the arena counts.
\<close>

definition port_bytes :: "sandbox \<Rightarrow> u32 \<Rightarrow> u32 \<Rightarrow> u32 list \<Rightarrow> nat set" where
  "port_bytes s port task ms = list_bytes s (port + MP_MSGLIST) ms \<union> host_range s (task + TASK_SIGRECVD_OFF) 4"

definition port_room :: "sandbox \<Rightarrow> u32 \<Rightarrow> u32 \<Rightarrow> u32 list \<Rightarrow> bool" where
  "port_room s port task ms \<longleftrightarrow> laid_out s (port + MP_MSGLIST) ms \<and>
     cells_ok s (list_cells (port + MP_MSGLIST) ms \<union> {port + MP_SIGTASK, task + TASK_SIGRECVD_OFF}) \<and>
     {port + MP_SIGTASK, task + TASK_SIGRECVD_OFF} \<inter> list_cells (port + MP_MSGLIST) ms = {} \<and>
     port + MP_SIGTASK \<noteq> task + TASK_SIGRECVD_OFF \<and>
     j4_sandbox_host s (port + MP_SIGBIT) \<notin> port_bytes s port task ms \<and> task \<noteq> 0"

definition port_holds :: "'a port_run_scheme \<Rightarrow> u32 \<Rightarrow> u32 \<Rightarrow> u8 \<Rightarrow> u32 list \<Rightarrow> bool" where
  "port_holds r port task b ms \<longleftrightarrow> glist (run_sb r) (port + MP_MSGLIST) ms \<and> port_room (run_sb r) port task ms \<and>
     gread32 (run_sb r) (port + MP_SIGTASK) = task \<and> gread8 (run_sb r) (port + MP_SIGBIT) = b \<and> b < 32"

lemma glist_cong:
  assumes c: "\<And>c. c \<in> list_cells l xs \<Longrightarrow> gread32 s' c = gread32 s c"
  shows "glist s' l xs = glist s l xs"
proof -
  let ?ps = "l # xs @ [l + 4]"
  have "linked s' ?ps \<longleftrightarrow> linked s ?ps"
  proof (rule linked_cong)
    show "gread32 s' u = gread32 s u" if "u \<in> set (butlast ?ps)" for u
      by (rule c) (unfold list_cells_def chain_cells_def, intro insertI2 UnI1 that)
    show "gread32 s' (v + 4) = gread32 s (v + 4)" if "v \<in> set (tl ?ps)" for v
      by (rule c) (unfold list_cells_def chain_cells_def, intro insertI2 UnI2 imageI that)
  qed
  moreover have "gread32 s' (l + 4) = gread32 s (l + 4)" by (rule c) (simp add: list_cells_def)
  ultimately show ?thesis by (simp add: glist_def)
qed

lemma port_bytes_same: "same_arena s s' \<Longrightarrow> port_bytes s' = port_bytes s"
  by (simp add: port_bytes_def list_bytes_def same_arenaD(3) fun_eq_iff)

lemma port_room_same: "same_arena s s' \<Longrightarrow> port_room s port task ms \<Longrightarrow> port_room s' port task ms"
  using cells_same [of s s'] port_bytes_same [of s s']
  by (auto simp: port_room_def laid_out_def j4_sandbox_host_def same_arena_def)

lemma port_room_mono:
  assumes "port_room s port task ms" "set ms' \<subseteq> set ms" "distinct ms \<longrightarrow> distinct ms'"
  shows "port_room s port task ms'"
proof -
  let ?l = "port + MP_MSGLIST"
  have sub: "list_cells ?l ms' \<subseteq> list_cells ?l ms" using assms(2) by (auto simp: list_cells_def chain_cells_def butlast_append)
  have "chain_ok (?l # ms @ [?l + 4])" using assms(1) by (simp add: port_room_def laid_out_def)
  then have "chain_ok (?l # ms' @ [?l + 4])" using assms(2,3) by (auto simp: chain_ok_def butlast_append)
  then have "laid_out s ?l ms'" using assms(1) cells_mono [OF _ sub] by (simp add: port_room_def laid_out_def)
  moreover have "port_bytes s port task ms' \<subseteq> port_bytes s port task ms"
    using list_bytes_mono [OF assms(2)] by (auto simp: port_bytes_def)
  moreover have "cells_ok s (list_cells ?l ms' \<union> {port + MP_SIGTASK, task + TASK_SIGRECVD_OFF})"
    using assms(1) sub by (auto simp: port_room_def elim: cells_mono)
  ultimately show ?thesis using assms(1) sub unfolding port_room_def by blast
qed

lemma set_sb_simps [simp]:
  "run_sb (set_sb s r) = s" "emu68k_ctx_task (set_sb s r) = emu68k_ctx_task r" "guestlib (set_sb s r) = guestlib r"
  "public_ports (set_sb s r) = public_ports r"
  by (simp_all add: set_sb_def emu68k_ctx_task_def)

text \<open>What a write inside the port's bytes leaves alone.\<close>

lemma port_fields_kept:
  assumes room: "port_room s port task ms" and ag: "agree_on (- list_bytes s (port + MP_MSGLIST) ms) s s'"
  shows "gread32 s' (port + MP_SIGTASK) = gread32 s (port + MP_SIGTASK)" "gread8 s' (port + MP_SIGBIT) = gread8 s (port + MP_SIGBIT)"
    "gread32 s' (task + TASK_SIGRECVD_OFF) = gread32 s (task + TASK_SIGRECVD_OFF)" "port_room s' port task ms"
proof -
  let ?l = "port + MP_MSGLIST" and ?C = "list_cells (port + MP_MSGLIST) ms \<union> {port + MP_SIGTASK, task + TASK_SIGRECVD_OFF}"
  have ok: "cells_ok s ?C" using room by (simp add: port_room_def)
  have d: "host_range s c 4 \<inter> list_bytes s ?l ms = {}" if "c \<in> {port + MP_SIGTASK, task + TASK_SIGRECVD_OFF}" for c
  proof -
    have "host_range s c 4 \<inter> host_range s x 4 = {}" if "x \<in> list_cells ?l ms" for x
      by (rule cells_disjoint [OF ok]) (use room \<open>c \<in> _\<close> that in \<open>auto simp: port_room_def\<close>)
    then show ?thesis by (auto simp: list_bytes_def)
  qed
  show "gread32 s' (port + MP_SIGTASK) = gread32 s (port + MP_SIGTASK)" "gread32 s' (task + TASK_SIGRECVD_OFF) = gread32 s (task + TASK_SIGRECVD_OFF)"
    using agree_reads [OF ag ok _ d] by auto
  have sa: "same_arena s s'" using ag by (simp add: agree_on_def)
  show "port_room s' port task ms" by (rule port_room_same [OF sa room])
  have "j4_sandbox_host s (port + MP_SIGBIT) \<notin> list_bytes s ?l ms" using room by (auto simp: port_room_def port_bytes_def)
  then show "gread8 s' (port + MP_SIGBIT) = gread8 s (port + MP_SIGBIT)"
    using ag sa by (simp add: gread8_def agree_on_def same_arena_def j4_sandbox_host_def)
qed

lemma signal_fields:
  fixes sigs :: u32
  assumes room: "port_room s port task ms"
  defines "s' \<equiv> signal_task task sigs s"
  shows "gread32 s' (task + TASK_SIGRECVD_OFF) = gread32 s (task + TASK_SIGRECVD_OFF) OR sigs"
    "gread32 s' (port + MP_SIGTASK) = gread32 s (port + MP_SIGTASK)" "gread8 s' (port + MP_SIGBIT) = gread8 s (port + MP_SIGBIT)"
    "glist s' (port + MP_MSGLIST) ms = glist s (port + MP_MSGLIST) ms" "port_room s' port task ms" "same_arena s s'"
    "agree_on (- host_range s (task + TASK_SIGRECVD_OFF) 4) s s'"
proof -
  let ?l = "port + MP_MSGLIST" and ?t = "task + TASK_SIGRECVD_OFF" and ?C = "list_cells (port + MP_MSGLIST) ms \<union> {port + MP_SIGTASK, task + TASK_SIGRECVD_OFF}"
  have ok: "cells_ok s ?C" using room by (simp add: port_room_def)
  have m: "?t \<in> ?C" "port + MP_SIGTASK \<in> ?C" by simp_all
  have s': "s' = gwrite32 s ?t (gread32 s ?t OR sigs)" by (simp add: s'_def signal_task_def)
  show "gread32 s' ?t = gread32 s ?t OR sigs" using cell_write [OF ok m(1) m(1)] by (simp add: s')
  show "gread32 s' (port + MP_SIGTASK) = gread32 s (port + MP_SIGTASK)"
    using cell_write [OF ok m(1) m(2)] room by (simp add: s' port_room_def)
  show "glist s' ?l ms = glist s ?l ms"
  proof (rule glist_cong)
    fix c assume "c \<in> list_cells ?l ms"
    then show "gread32 s' c = gread32 s c" using cell_write [OF ok m(1), of c] room by (auto simp: s' port_room_def)
  qed
  show ag: "agree_on (- host_range s ?t 4) s s'" unfolding s' by (rule cell_write_agree [OF ok m(1)])
  then show sa: "same_arena s s'" by (simp add: agree_on_def)
  show "port_room s' port task ms" by (rule port_room_same [OF sa room])
  have "j4_sandbox_host s (port + MP_SIGBIT) \<notin> host_range s ?t 4" using room by (auto simp: port_room_def port_bytes_def)
  then show "gread8 s' (port + MP_SIGBIT) = gread8 s (port + MP_SIGBIT)"
    using ag sa by (simp add: gread8_def agree_on_def same_arena_def j4_sandbox_host_def)
qed

text \<open>Putting and getting a message.\<close>

lemma put_msg:
  assumes holds: "port_holds r port task b ms" and room: "port_room (run_sb r) port task (msg # ms)" and plain: "rexx_alias msg r = Some r"
  defines "s \<equiv> run_sb r"
  shows "\<exists>s'. exec_PutMsg port msg r = Some (set_sb s' r) \<and> port_holds (set_sb s' r) port task b (ms @ [msg]) \<and> same_arena s s' \<and>
    gread32 s' (task + TASK_SIGRECVD_OFF) = gread32 s (task + TASK_SIGRECVD_OFF) OR push_bit (unat b) 1 \<and>
    agree_on (- port_bytes s port task (msg # ms)) s s'"
proof -
  let ?l = "port + MP_MSGLIST"
  define s1 where "s1 = exec_AddTail ?l msg s"
  have lay: "laid_out s ?l (msg # ms)" and g: "glist s ?l ms" using room holds by (simp_all add: port_room_def port_holds_def s_def)
  have "now_holds s ?l (msg # ms) (ms @ [msg]) s1" using insertions(2) [OF lay g] by (simp add: s1_def)
  then have s1: "glist s1 ?l (ms @ [msg])" "agree_on (- list_bytes s ?l (msg # ms)) s s1" by (simp_all add: now_holds_def kept_def)
  have room_s: "port_room s port task (msg # ms)" using room by (simp add: s_def)
  note f1 = port_fields_kept [OF room_s s1(2)]
  have room1: "port_room s1 port task (ms @ [msg])" by (rule port_room_mono [OF f1(4)]) auto
  define s2 where "s2 = signal_task task (push_bit (unat b) 1) s1"
  note f2 = signal_fields [OF room1, of "push_bit (unat b) 1", folded s2_def]
  have fields: "gread32 s (port + MP_SIGTASK) = task" "gread8 s (port + MP_SIGBIT) = b" "b < 32" "task \<noteq> 0"
    using holds by (simp_all add: port_holds_def s_def port_room_def)
  have "exec_PutMsg port msg r = Some (set_sb s2 r)"
    using fields f1 plain by (simp add: exec_PutMsg_def s1_def s2_def exec_AddTail_def Let_def s_def)
  moreover have "port_holds (set_sb s2 r) port task b (ms @ [msg])" using f2 s1(1) f1 fields by (simp add: port_holds_def)
  moreover have sa: "same_arena s s1" using s1(2) by (simp add: agree_on_def)
  moreover have "agree_on (- port_bytes s port task (msg # ms)) s s2"
  proof (rule agree_trans)
    show "agree_on (- port_bytes s port task (msg # ms)) s s1" by (rule agree_mono [OF s1(2)]) (auto simp: port_bytes_def)
    show "agree_on (- port_bytes s port task (msg # ms)) s1 s2"
      by (rule agree_mono [OF f2(7)]) (auto simp: port_bytes_def same_arenaD(3) [OF sa])
  qed
  ultimately show ?thesis using f2(1,6) f1(3) by (auto simp: same_arena_def)
qed

lemma get_msg:
  assumes holds: "port_holds (pump r) port task b ms"
  defines "s \<equiv> run_sb (pump r)"
  shows "case ms of [] \<Rightarrow> exec_GetMsg pump port r = (0, pump r)
    | m # ms' \<Rightarrow> \<exists>s'. exec_GetMsg pump port r = (m, set_sb s' (pump r)) \<and> port_holds (set_sb s' (pump r)) port task b ms' \<and> same_arena s s' \<and>
        gread32 s' (task + TASK_SIGRECVD_OFF) = gread32 s (task + TASK_SIGRECVD_OFF)"
proof -
  let ?l = "port + MP_MSGLIST"
  have lay: "laid_out s ?l ms" and g: "glist s ?l ms" and room: "port_room s port task ms" using holds by (simp_all add: port_room_def port_holds_def s_def)
  show ?thesis
  proof (cases ms)
    case Nil
    then have "gread32 s ?l = ?l + 4" "gread32 s (?l + 4) = 0" using g by (simp_all add: glist_def)
    then show ?thesis using Nil by (simp add: exec_GetMsg_def Let_def s_def)
  next
    case (Cons m ms')
    from rem_head [of s ?l m ms'] lay g Cons obtain s' where s': "exec_RemHead ?l s = Some (m, s')" "glist s' ?l ms'" "kept s ?l (m # ms') s'" by auto
    have m: "m \<noteq> 0" using node_nonzero(1) [OF lay] Cons by simp
    have "gread32 s ?l = m" using s'(1) m by (auto simp: exec_RemHead_def Let_def split: if_splits)
    then have "exec_GetMsg pump port r = (m, set_sb s' (pump r))"
      using s'(1) m by (auto simp: exec_GetMsg_def exec_RemHead_def Let_def s_def split: if_splits)
    moreover have ag: "agree_on (- list_bytes s ?l ms) s s'" using s'(3) Cons by (simp add: kept_def)
    note f = port_fields_kept [OF room ag]
    have "port_room s' port task ms'" by (rule port_room_mono [OF f(4)]) (use Cons in auto)
    then have "port_holds (set_sb s' (pump r)) port task b ms'" using s'(2) f holds by (simp add: port_holds_def s_def)
    moreover have "same_arena s s'" using ag by (simp add: agree_on_def)
    ultimately show ?thesis using Cons f(3) by auto
  qed
qed

text \<open>Guest ports satisfy the queue interface of the native message lists.\<close>

lemma no_rexx: "guestlib r = [] \<Longrightarrow> rexx_alias msg r = Some r"
  by (simp add: rexx_alias_def emu68k_find_guestlib_name_def Let_def)

definition send_msg :: "u32 \<Rightarrow> 'a port_run_scheme \<Rightarrow> u32 \<Rightarrow> 'a port_run_scheme" where
  "send_msg port r msg = the (exec_PutMsg port msg r)"

definition take_msg :: "u32 \<Rightarrow> 'a port_run_scheme \<Rightarrow> 'a port_run_scheme \<times> u32" where
  "take_msg port r = prod.swap (exec_GetMsg (\<lambda>r. r) port r)"

definition queue_of :: "sandbox \<Rightarrow> u32 \<Rightarrow> u32 \<Rightarrow> u8 \<Rightarrow> 'a port_run_scheme \<Rightarrow> u32 list \<Rightarrow> bool" where
  "queue_of s0 port task b r ms \<longleftrightarrow> port_holds r port task b ms \<and> same_arena s0 (run_sb r) \<and> guestlib r = []"

interpretation guest_fifo: fifo_queue "queue_of s0 port task b" "send_msg port" "take_msg port" 0 "\<lambda>ms n. port_room s0 port task (n # ms)"
  for s0 port task b
proof
  show "queue_of s0 port task b (send_msg port r n) (xs @ [n])" if "queue_of s0 port task b r xs" "port_room s0 port task (n # xs)"
    for r :: "'a port_run_scheme" and xs n
  proof -
    have h: "port_holds r port task b xs" "same_arena s0 (run_sb r)" "guestlib r = []" using that(1) by (simp_all add: queue_of_def)
    note room = port_room_same [OF h(2) that(2)]
    obtain s' where "exec_PutMsg port n r = Some (set_sb s' r)" "port_holds (set_sb s' r) port task b (xs @ [n])" "same_arena (run_sb r) s'"
      using put_msg [OF h(1) room no_rexx [OF h(3)]] by blast
    then show ?thesis using that(1) by (auto simp: queue_of_def send_msg_def same_arena_def)
  qed
  show "snd (take_msg port r) = x \<and> queue_of s0 port task b (fst (take_msg port r)) xs" if "queue_of s0 port task b r (x # xs)"
    for r :: "'a port_run_scheme" and x xs
  proof -
    note h = that [unfolded queue_of_def]
    obtain s' where "exec_GetMsg (\<lambda>r. r) port r = (x, set_sb s' r)" "port_holds (set_sb s' r) port task b xs" "same_arena (run_sb r) s'"
      using get_msg [of "\<lambda>r. r" r port task b "x # xs"] h by auto
    then show ?thesis using h by (auto simp: queue_of_def take_msg_def same_arena_def)
  qed
  show "take_msg port r = (r, 0)" if "queue_of s0 port task b r []" for r :: "'a port_run_scheme"
    using get_msg [of "\<lambda>r. r" r port task b "[]"] that by (auto simp: queue_of_def take_msg_def)
qed

subsection \<open>Free bits\<close>

lemma free_signal_spec:
  "(free_signal A n = - 1 \<and> (\<forall>k. 16 \<le> k \<and> k \<le> n \<longrightarrow> bit A k)) \<or>
   (\<exists>k. free_signal A n = int k \<and> 16 \<le> k \<and> k \<le> n \<and> \<not> bit A k \<and> (\<forall>j. k < j \<and> j \<le> n \<longrightarrow> bit A j))"
proof (induction n)
  case 0
  then show ?case by (subst (1 2) free_signal.simps) auto
next
  case (Suc n)
  show ?case
  proof (cases "Suc n < 16 \<or> \<not> bit A (Suc n)")
    case True
    then show ?thesis
    proof
      assume "Suc n < 16"
      then show ?thesis by (subst (1 2) free_signal.simps) auto
    next
      assume "\<not> bit A (Suc n)"
      then show ?thesis by (subst (1 2) free_signal.simps) (auto intro!: exI [of _ "Suc n"])
    qed
  next
    case False
    then have "free_signal A (Suc n) = free_signal A n" by (subst free_signal.simps) simp
    then show ?thesis using Suc False by (auto simp: le_Suc_eq)
  qed
qed

text \<open>The signal bit that a call asks for: a given one, or the highest free user bit.\<close>

definition signal_choice :: "u32 \<Rightarrow> int \<Rightarrow> nat option" where
  "signal_choice A want =
     (if 0 \<le> want \<and> want < 32 then (if bit A (nat want) then None else Some (nat want))
      else find (\<lambda>n. \<not> bit A n) (rev [16..<32]))"

lemma find_rev_upt:
  assumes "a \<le> k" "k < n" "\<not> P k" "\<forall>j. k < j \<and> j < n \<longrightarrow> P j"
  shows "find (\<lambda>x. \<not> P x) (rev [a..<n]) = Some k"
  using assms
proof (induction n)
  case (Suc n)
  then show ?case by (cases "k = n") auto
qed simp

lemma signal_search: "(if 0 \<le> want \<and> want < 32 then (if \<not> bit A (nat want) then want else - 1) else free_signal A 31) =
    (case signal_choice A want of None \<Rightarrow> - 1 | Some n \<Rightarrow> int n)"
proof (cases "0 \<le> want \<and> want < 32")
  case False
  then have ch: "signal_choice A want = find (\<lambda>n. \<not> bit A n) (rev [16..<32])" by (simp only: signal_choice_def if_False)
  from free_signal_spec [of A 31] show ?thesis
  proof (elim disjE exE conjE)
    assume "free_signal A 31 = - 1" "\<forall>k. 16 \<le> k \<and> k \<le> 31 \<longrightarrow> bit A k"
    moreover have "signal_choice A want = None" unfolding ch using calculation(2) by (simp only: find_None_iff set_rev set_upt) auto
    ultimately show ?thesis using False by simp
  next
    fix k assume "free_signal A 31 = int k" "16 \<le> k" "k \<le> 31" "\<not> bit A k" "\<forall>j. k < j \<and> j \<le> 31 \<longrightarrow> bit A j"
    moreover have "signal_choice A want = Some k" unfolding ch by (rule find_rev_upt) (use calculation in auto)
    ultimately show ?thesis by (simp add: if_not_P [OF False])
  qed
qed (simp add: signal_choice_def)

lemma alloc_signal_choice:
  defines "c r \<equiv> emu68k_ctx_task r + TASK_SIGALLOC_OFF"
  shows "exec_AllocSignal want r = (case signal_choice (gread32 (run_sb r) (c r)) (sint want) of
      None \<Rightarrow> (- 1, set_sb (run_sb r) r)
    | Some n \<Rightarrow> (of_nat n, set_sb (gwrite32 (run_sb r) (c r) (gread32 (run_sb r) (c r) OR push_bit n 1)) r))"
  unfolding exec_AllocSignal_def Let_def signal_search c_def
  by (cases "signal_choice (gread32 (run_sb r) (emu68k_ctx_task r + TASK_SIGALLOC_OFF)) (sint want)") (simp_all del: push_bit_of_1)

lemma signal_choice_free: "signal_choice A want = Some n \<Longrightarrow> n < 32 \<and> \<not> bit A n"
  by (auto simp: signal_choice_def find_Some_iff split: if_splits)

subsection \<open>Public ports\<close>

definition live_ports :: "'a port_run_scheme \<Rightarrow> u32 list" where
  "live_ports r = map pub_port (filter pub_live (public_ports r))"

text \<open>The table has its fixed size, and no port stands in it twice.\<close>

definition ports_ok :: "'a port_run_scheme \<Rightarrow> bool" where
  "ports_ok r \<longleftrightarrow> length (public_ports r) = EMU68K_PUBLIC_PORT_MAX \<and> distinct (live_ports r)"

lemma first_index_None: "first_index P xs = None \<longleftrightarrow> (\<forall>x \<in> set xs. \<not> P x)"
  by (induction xs) auto

lemma first_index_Some: "first_index P xs = Some i \<Longrightarrow> i < length xs \<and> P (xs ! i) \<and> (\<forall>j < i. \<not> P (xs ! j))"
proof (induction xs arbitrary: i)
  case (Cons x xs)
  then show ?case by (cases i) (auto split: if_splits simp: less_Suc_eq_0_disj)
qed simp

lemma first_index_split:
  assumes "first_index P xs = Some i"
  shows "\<exists>A x B. xs = A @ x # B \<and> P x \<and> xs ! i = x \<and> (\<forall>e. xs[i := e] = A @ e # B)"
proof -
  have i: "i < length xs" "P (xs ! i)" using first_index_Some [OF assms] by auto
  then have "xs = take i xs @ xs ! i # drop (Suc i) xs" by (simp add: id_take_nth_drop [symmetric])
  moreover have "\<forall>e. xs[i := e] = take i xs @ e # drop (Suc i) xs" using i by (simp add: upd_conv_take_nth_drop)
  ultimately show ?thesis using i(2) by blast
qed

lemma add_port:
  assumes ok: "ports_ok r"
  shows "case exec_AddPort port r of
      None \<Rightarrow> \<not> guest_span_ok (run_sb r) port 34 \<or> (port \<notin> set (live_ports r) \<and> (\<forall>p \<in> set (public_ports r). pub_live p))
    | Some r' \<Rightarrow> ports_ok r' \<and> set (live_ports r') = insert port (set (live_ports r))"
proof (cases "guest_span_ok (run_sb r) port 34")
  case span: True
  define s where "s = init_list (port + MP_MSGLIST) (gwrite8 (run_sb r) (port + 8) NT_MSGPORT)"
  let ?r = "set_sb s r" and ?nm = "gread32 s (port + 10)"
  have pub: "first_index (\<lambda>p. pub_live p \<and> pub_port p = port) (public_ports r) \<noteq> None \<longleftrightarrow> port \<in> set (live_ports r)"
    by (auto simp: first_index_None live_ports_def)
  have same: "ports_ok ?r" "live_ports ?r = live_ports r" using ok by (simp_all add: ports_ok_def live_ports_def)
  have eq: "exec_AddPort port r = (if port \<in> set (live_ports r) then Some ?r
      else case first_index (\<lambda>p. \<not> pub_live p) (public_ports r) of None \<Rightarrow> None
        | Some slot \<Rightarrow> Some (?r\<lparr>public_ports := (public_ports r)[slot := \<lparr>pub_port = port, pub_name = ?nm, pub_live = True\<rparr>]\<rparr>))"
    using span pub by (auto simp: exec_AddPort_def s_def Let_def split: option.split)
  show ?thesis
  proof (cases "port \<in> set (live_ports r)")
    case True
    then show ?thesis using eq same by (auto simp: insert_absorb)
  next
    case False
    show ?thesis
    proof (cases "first_index (\<lambda>p. \<not> pub_live p) (public_ports r)")
      case None
      then have "exec_AddPort port r = None" using eq False by simp
      moreover have "\<forall>p \<in> set (public_ports r). pub_live p" using None unfolding first_index_None by simp
      ultimately show ?thesis using False by simp
    next
      case (Some i)
      then obtain A x B where ps: "public_ports r = A @ x # B" "\<not> pub_live x" and upd: "\<forall>e. (public_ports r)[i := e] = A @ e # B"
        using first_index_split [OF Some] by (elim exE conjE) (rule that)
      have "exec_AddPort port r = Some (?r\<lparr>public_ports := A @ \<lparr>pub_port = port, pub_name = ?nm, pub_live = True\<rparr> # B\<rparr>)"
        using eq False Some upd by simp
      then show ?thesis using False ps ok by (auto simp: ports_ok_def live_ports_def)
    qed
  qed
qed (simp add: exec_AddPort_def Let_def)

lemma rem_port:
  assumes ok: "ports_ok r"
  shows "ports_ok (exec_RemPort port r)" "set (live_ports (exec_RemPort port r)) = set (live_ports r) - {port}"
proof -
  have "ports_ok (exec_RemPort port r) \<and> set (live_ports (exec_RemPort port r)) = set (live_ports r) - {port}"
  proof (cases "first_index (\<lambda>p. pub_live p \<and> pub_port p = port) (public_ports r)")
    case None
    then have "exec_RemPort port r = r" by (simp add: exec_RemPort_def)
    moreover have "port \<notin> set (live_ports r)" using None by (auto simp: first_index_None live_ports_def)
    ultimately show ?thesis using ok by simp
  next
    case (Some i)
    then obtain A x B where ps: "public_ports r = A @ x # B" "pub_live x" "pub_port x = port" and
      upd: "public_ports r ! i = x" "\<forall>e. (public_ports r)[i := e] = A @ e # B" using first_index_split [OF Some] by blast
    have "exec_RemPort port r = r\<lparr>public_ports := A @ x\<lparr>pub_live := False\<rparr> # B\<rparr>" using Some upd by (simp add: exec_RemPort_def)
    then show ?thesis using ps ok by (auto simp: ports_ok_def live_ports_def)
  qed
  then show "ports_ok (exec_RemPort port r)" "set (live_ports (exec_RemPort port r)) = set (live_ports r) - {port}" by auto
qed

lemma find_port:
  assumes "emu68k_guest_cstr (run_sb r) nm = Some wanted" "0 \<notin> set (live_ports r)"
  shows "exec_FindPort nm r = 0 \<longleftrightarrow> (\<forall>p \<in> set (public_ports r). pub_live p \<longrightarrow> emu68k_guest_cstr (run_sb r) (pub_name p) \<noteq> Some wanted)"
    "exec_FindPort nm r \<noteq> 0 \<Longrightarrow> \<exists>p \<in> set (public_ports r). pub_live p \<and> pub_port p = exec_FindPort nm r \<and>
      emu68k_guest_cstr (run_sb r) (pub_name p) = Some wanted"
proof -
  let ?P = "\<lambda>p. pub_live p \<and> emu68k_guest_cstr (run_sb r) (pub_name p) = Some wanted"
  show "exec_FindPort nm r = 0 \<longleftrightarrow> (\<forall>p \<in> set (public_ports r). pub_live p \<longrightarrow> emu68k_guest_cstr (run_sb r) (pub_name p) \<noteq> Some wanted)"
  proof (cases "first_index ?P (public_ports r)")
    case None
    then have "exec_FindPort nm r = 0" using assms(1) by (simp add: exec_FindPort_def)
    then show ?thesis using None by (simp add: first_index_None)
  next
    case (Some i)
    then have i: "public_ports r ! i \<in> set (public_ports r)" "?P (public_ports r ! i)" using first_index_Some by fastforce+
    then have "pub_port (public_ports r ! i) \<noteq> 0" using assms(2) by (auto simp: live_ports_def)
    then show ?thesis using assms(1) Some i by (auto simp: exec_FindPort_def)
  qed
  show "\<exists>p \<in> set (public_ports r). pub_live p \<and> pub_port p = exec_FindPort nm r \<and> emu68k_guest_cstr (run_sb r) (pub_name p) = Some wanted"
    if "exec_FindPort nm r \<noteq> 0"
  proof (cases "first_index ?P (public_ports r)")
    case None
    then show ?thesis using assms(1) that by (simp add: exec_FindPort_def)
  next
    case (Some i)
    then have i: "public_ports r ! i \<in> set (public_ports r)" "?P (public_ports r ! i)" using first_index_Some by fastforce+
    then show ?thesis using assms(1) Some by (auto simp: exec_FindPort_def)
  qed
qed

subsection \<open>Properties\<close>


text \<open>C39. Signal bits. AllocSignal returns the requested bit if it is free, or, asked for any, the highest free bit from 31 to 16; it sets exactly that bit
  of the task's allocation word, and FreeSignal of the result restores the word. It returns -1, and changes
  nothing, exactly when the bit is taken or none of the sixteen is free.\<close>

theorem signal_bits:
  assumes "inside (run_sb r) (emu68k_ctx_task r + TASK_SIGALLOC_OFF) 4" "arena_ok (run_sb r)"
  defines "A \<equiv> gread32 (run_sb r) (emu68k_ctx_task r + TASK_SIGALLOC_OFF)"
  shows "case signal_choice A (sint want) of
      None \<Rightarrow> exec_AllocSignal want r = (- 1, r)
    | Some n \<Rightarrow> n < 32 \<and> \<not> bit A n \<and> (\<exists>s'. exec_AllocSignal want r = (of_nat n, set_sb s' r) \<and>
        gread32 s' (emu68k_ctx_task r + TASK_SIGALLOC_OFF) = set_bit n A \<and>
        gread32 (run_sb (exec_FreeSignal (of_nat n) (set_sb s' r))) (emu68k_ctx_task r + TASK_SIGALLOC_OFF) = A)"
proof (cases "signal_choice A (sint want)")
  case None
  have "set_sb (run_sb r) r = r" by (simp add: set_sb_def)
  then show ?thesis using None by (simp add: alloc_signal_choice A_def)
next
  case (Some n)
  let ?c = "emu68k_ctx_task r + TASK_SIGALLOC_OFF"
  have n: "n < 32" "\<not> bit A n" using signal_choice_free [OF Some] by auto
  define s' where "s' = gwrite32 (run_sb r) ?c (A OR push_bit n 1)"
  have alloc: "exec_AllocSignal want r = (of_nat n, set_sb s' r)"
    using Some by (simp add: alloc_signal_choice A_def s'_def del: push_bit_of_1)
  have set: "A OR push_bit n 1 = set_bit n A" by (simp add: set_bit_eq_or)
  have rd: "gread32 s' ?c = set_bit n A" unfolding s'_def set by (rule gread_gwrite_same [OF assms(1,2)])
  have "sint (of_nat n :: u32) = int n" using n(1) by (simp add: sint_uint uint_nat unat_of_nat signed_take_bit_int_eq_self)
  moreover have "set_bit n A AND NOT (push_bit n 1) = A" using n by (intro bit_eqI) (auto simp: bit_simps)
  ultimately have "exec_FreeSignal (of_nat n) (set_sb s' r) = set_sb (gwrite32 s' ?c A) (set_sb s' r)"
    using n(1) rd by (simp add: exec_FreeSignal_def Let_def del: push_bit_of_1)
  moreover have "gread32 (gwrite32 s' ?c A) ?c = A" by (rule gread_gwrite_same) (use assms(1,2) in \<open>simp_all add: s'_def\<close>)
  ultimately show ?thesis using Some n alloc rd by (auto intro!: exI [of _ s'])
qed

text \<open>C40. The registry of public ports. The table keeps its size and never holds a port twice; AddPort publishes a port and nothing else, and fails only
  for a port outside the arena or a full table; RemPort withdraws exactly its port; FindPort returns a published port
  of that name, and 0 exactly when there is none.\<close>

theorem public_port_registry:
  assumes "ports_ok r"
  shows "(case exec_AddPort port r of
      None \<Rightarrow> \<not> guest_span_ok (run_sb r) port 34 \<or> (port \<notin> set (live_ports r) \<and> (\<forall>p \<in> set (public_ports r). pub_live p))
    | Some r' \<Rightarrow> ports_ok r' \<and> set (live_ports r') = insert port (set (live_ports r))) \<and>
    ports_ok (exec_RemPort port r) \<and> set (live_ports (exec_RemPort port r)) = set (live_ports r) - {port} \<and>
    (\<forall>nm wanted. emu68k_guest_cstr (run_sb r) nm = Some wanted \<and> 0 \<notin> set (live_ports r) \<longrightarrow>
      (exec_FindPort nm r = 0 \<longleftrightarrow> (\<forall>p \<in> set (public_ports r). pub_live p \<longrightarrow> emu68k_guest_cstr (run_sb r) (pub_name p) \<noteq> Some wanted)) \<and>
      (exec_FindPort nm r \<noteq> 0 \<longrightarrow> exec_FindPort nm r \<in> set (live_ports r)))"
proof (intro conjI allI impI)
  fix nm wanted assume f: "emu68k_guest_cstr (run_sb r) nm = Some wanted \<and> 0 \<notin> set (live_ports r)"
  then show "exec_FindPort nm r = 0 \<longleftrightarrow> (\<forall>p \<in> set (public_ports r). pub_live p \<longrightarrow> emu68k_guest_cstr (run_sb r) (pub_name p) \<noteq> Some wanted)"
    using find_port(1) by blast
  show "exec_FindPort nm r \<in> set (live_ports r)" if "exec_FindPort nm r \<noteq> 0"
    using find_port(2) [of r nm wanted] f that by (force simp: live_ports_def)
qed (use add_port [OF assms] rem_port [OF assms] in auto)

text \<open>A run with one context, whose task is at the start of the heap, and a port after it.\<close>

definition demo_ports :: port_run where
  "demo_ports = \<lparr>run_sb = init_list 0x260114 (gwrite32 (run_sb demo_run) 0x260110 0x260000), exec_heap = 0x260200, exec_heap_end = 0xBED000,
     ctxs = [\<lparr>ctx_task_at = 0x260000, ctx_live = True\<rparr>], cur_ctx = 0, guestlib = [], libalias = [], libbases = [],
     public_ports = replicate 64 \<lparr>pub_port = 0, pub_name = 0, pub_live = False\<rparr>\<rparr>"

lemma demo_port_room: "port_room (run_sb demo_run) 0x260100 0x260000 [0x260200]"
  by (simp add: port_room_def laid_out_def chain_ok_def EmuLists.list_cells_def EmuLists.chain_cells_def cells_ok_def demo_run_def inside_def
      apart_def arena_ok_def port_offsets port_bytes_def list_bytes_def host_range_def j4_sandbox_host_def)

lemma demo_port: "port_holds demo_ports 0x260100 0x260000 1 []" "port_room (run_sb demo_ports) 0x260100 0x260000 [0x260200]"
proof -
  let ?s = "run_sb demo_run" and ?C = "{0x260114, 0x260118, 0x26011C, 0x260110, 0x26001A} :: u32 set"
  have room: "port_room ?s 0x260100 0x260000 []" by (rule port_room_mono [OF demo_port_room]) simp_all
  have ok: "cells_ok ?s ?C" by (simp add: cells_ok_def demo_run_def inside_def arena_ok_def apart_def)
  have s: "run_sb demo_ports = gwrite32 (gwrite32 (gwrite32 (gwrite32 ?s 0x260110 0x260000) 0x260114 0x260118) 0x260118 0) 0x26011C 0x260114"
    by (simp add: demo_ports_def init_list_def)
  have sa: "same_arena ?s (run_sb demo_ports)" unfolding s by (simp add: same_arena_def guest)
  show "port_room (run_sb demo_ports) 0x260100 0x260000 [0x260200]" by (rule port_room_same [OF sa demo_port_room])
  have reads: "gread32 (run_sb demo_ports) 0x260110 = 0x260000" "gread32 (run_sb demo_ports) 0x260114 = 0x260118"
    "gread32 (run_sb demo_ports) 0x260118 = 0" "gread32 (run_sb demo_ports) 0x26011C = 0x260114"
    unfolding s using ok by (simp_all add: cell_write [of _ ?C])
  have "gread8 (run_sb demo_ports) 0x26010F = 1"
    unfolding s by (simp add: gread8_def gwrite32_def demo_run_def j4_sandbox_host_def sb_write_be32_def)
  then show "port_holds demo_ports 0x260100 0x260000 1 []"
    using port_room_same [OF sa room] reads by (simp add: port_holds_def port_offsets glist_def)
qed


lemma signal_bits_witness:
  "\<exists>s'. exec_AllocSignal (- 1) demo_ports = (31, set_sb s' demo_ports) \<and> bit (gread32 s' 0x260012) 31"
proof -
  have t: "emu68k_ctx_task demo_ports = 0x260000" by (simp add: demo_ports_def emu68k_ctx_task_def)
  have s: "same_arena (run_sb demo_run) (run_sb demo_ports)" by (simp add: demo_ports_def init_list_def same_arena_def guest)
  have ok: "inside (run_sb demo_ports) (emu68k_ctx_task demo_ports + TASK_SIGALLOC_OFF) 4" "arena_ok (run_sb demo_ports)"
    using same_arenaD [OF s] by (simp_all add: t port_offsets demo_run_def inside_def arena_ok_def)
  have "gread32 (run_sb demo_ports) 0x260012 = 0x01010101"
    by (simp add: demo_ports_def init_list_def gread32_def gwrite32_def demo_run_def j4_sandbox_host_def sb_write_be32_def sb_read_be32_def be32_def)
  then have "signal_choice (gread32 (run_sb demo_ports) (emu68k_ctx_task demo_ports + TASK_SIGALLOC_OFF)) (sint (- 1 :: u32)) = Some 31"
    by (simp add: t port_offsets signal_choice_def)
  then show ?thesis using signal_bits [OF ok, of "- 1"] by (auto simp: t port_offsets bit_simps)
qed

lemma public_port_registry_witness:
  "\<exists>r'. exec_AddPort 0x260100 demo_ports = Some r' \<and> ports_ok r' \<and> set (live_ports r') = {0x260100} \<and>
     live_ports (exec_RemPort 0x260100 r') = []"
proof -
  have live: "live_ports demo_ports = []" by (simp add: live_ports_def demo_ports_def)
  then have ok: "ports_ok demo_ports" by (simp add: ports_ok_def EMU68K_PUBLIC_PORT_MAX_def) (simp add: demo_ports_def)
  have "guest_span_ok (run_sb demo_ports) 0x260100 34" by (simp add: guest_span_ok_def demo_ports_def init_list_def guest demo_run_def)
  moreover have "\<not> (\<forall>p \<in> set (public_ports demo_ports). pub_live p)" by (simp add: demo_ports_def)
  ultimately obtain r' where r': "exec_AddPort 0x260100 demo_ports = Some r'" "ports_ok r'" "set (live_ports r') = {0x260100}"
    using public_port_registry [OF ok, of "0x260100"] live by (auto split: option.splits)
  moreover have "set (live_ports (exec_RemPort 0x260100 r')) = {}" using public_port_registry [OF r'(2), of "0x260100"] r'(3) by auto
  ultimately show ?thesis by auto
qed

end
