(* ===== verification/AudioRing.thy ===== *)
theory AudioRing
  imports ExecList
begin

unbundle bit_operations_syntax

text \<open>
  The ring between an AROS audio producer and the CoreAudio render callback (\<open>hosted/coreaudio/coreaudio_shim.c\<close>): a
  power-of-two array of stereo frames with free-running 32-bit indices, written by one thread and drained by another.

  The two threads are modelled as interleaved steps, one for each access to shared data. Every shared location has a single
  writer and the indices are published with release and read with acquire order, so that each thread sees the slots as they were
  when the index it read was published.
\<close>

type_synonym frame = "u16 \<times> u16"

record ring =
  slots :: "frame list"
  rcap :: u32
  rmask :: u32
  rhead :: u32
  rtail :: u32
  pushed :: u64
  consumed :: u64
  underruns :: u64

subsection \<open>The operations\<close>

text \<open>\<open>next_pow2\<close> shifts until it reaches \<open>n\<close>; \<open>None\<close> stands for a loop that does not end.\<close>

partial_function (option) next_pow2_from :: "u32 \<Rightarrow> u32 \<Rightarrow> u32 option" where
  "next_pow2_from n p = (if p < n then next_pow2_from n (push_bit 1 p) else Some p)"

definition next_pow2 :: "u32 \<Rightarrow> u32 option" where
  "next_pow2 n = next_pow2_from n 2"

text \<open>
  \<open>ca_open\<close> with a C \<open>int\<close>; \<open>host_ok\<close> says whether the allocations and the audio unit could be had. \<open>None\<close> is the null result.
\<close>

definition ca_open :: "bool \<Rightarrow> int \<Rightarrow> ring option" where
  "ca_open host_ok ringFrames =
     (let ringFrames = (if ringFrames < 2 then 2 else ringFrames) in
      case next_pow2 (word_of_int ringFrames + 1) of
        None \<Rightarrow> None
      | Some c \<Rightarrow>
          if \<not> host_ok then None
          else Some \<lparr>slots = replicate (unat c) (0, 0), rcap = c, rmask = c - 1, rhead = 0, rtail = 0,
            pushed = 0, consumed = 0, underruns = 0\<rparr>)"

definition ca_ring_capacity :: "ring \<Rightarrow> u32" where
  "ca_ring_capacity r = rcap r - 1"

definition ca_ring_space :: "ring \<Rightarrow> u32" where
  "ca_ring_space r = (let used = rtail r - rhead r in (rcap r - 1) - used)"

text \<open>The parts of \<open>ca_ring_push\<close>: how many frames fit, one slot written, the tail published, the frames counted.\<close>

definition push_take :: "ring \<Rightarrow> u32 \<Rightarrow> u32" where
  "push_take r frames =
     (let used = rtail r - rhead r; free_frames = (rcap r - 1) - used
      in if frames > free_frames then free_frames else frames)"

definition slot_index :: "ring \<Rightarrow> u32 \<Rightarrow> nat \<Rightarrow> nat" where
  "slot_index r pos i = unat ((pos + of_nat i) AND rmask r)"

definition push_slot :: "frame \<Rightarrow> nat \<Rightarrow> ring \<Rightarrow> ring" where
  "push_slot f i r = r\<lparr>slots := (slots r)[slot_index r (rtail r) i := f]\<rparr>"

definition push_publish :: "u32 \<Rightarrow> ring \<Rightarrow> ring" where
  "push_publish n r = r\<lparr>rtail := rtail r + n\<rparr>"

definition push_count :: "u32 \<Rightarrow> ring \<Rightarrow> ring" where
  "push_count n r = r\<lparr>pushed := pushed r + ucast n\<rparr>"

fun push_slots :: "frame list \<Rightarrow> nat \<Rightarrow> ring \<Rightarrow> ring" where
  "push_slots [] i r = r"
| "push_slots (f # fs) i r = push_slots fs (Suc i) (push_slot f i r)"

definition ca_ring_push :: "frame list \<Rightarrow> ring \<Rightarrow> u32 \<times> ring" where
  "ca_ring_push src r =
     (if src = [] then (0, r)
      else let n = push_take r (of_nat (length src))
        in (n, push_count n (push_publish n (push_slots (take (unat n) src) 0 r))))"

text \<open>
  The parts of \<open>ca_render_cb\<close>. The float arithmetic on a sample is the argument \<open>conv\<close>, of the volume and the sample, and the silent sample
  the argument \<open>silence\<close>.
\<close>

definition render_take :: "ring \<Rightarrow> u32 \<Rightarrow> u32" where
  "render_take r want = (let avail = rtail r - rhead r in if avail < want then avail else want)"

definition render_slot :: "(int \<Rightarrow> u16 \<Rightarrow> 'f) \<Rightarrow> int \<Rightarrow> ring \<Rightarrow> nat \<Rightarrow> 'f \<times> 'f" where
  "render_slot conv percent r i = map_prod (conv percent) (conv percent) (slots r ! slot_index r (rhead r) i)"

definition render_short :: "u32 \<Rightarrow> u32 \<Rightarrow> ring \<Rightarrow> ring" where
  "render_short n want r = (if n < want then r\<lparr>underruns := underruns r + 1\<rparr> else r)"

definition render_publish :: "u32 \<Rightarrow> ring \<Rightarrow> ring" where
  "render_publish n r = r\<lparr>rhead := rhead r + n\<rparr>"

definition render_count :: "u32 \<Rightarrow> ring \<Rightarrow> ring" where
  "render_count n r = r\<lparr>consumed := consumed r + ucast n\<rparr>"

definition silent_frames :: "'f \<Rightarrow> u32 \<Rightarrow> u32 \<Rightarrow> ('f \<times> 'f) list" where
  "silent_frames silence n want = replicate (unat want - unat n) (silence, silence)"

definition ca_render_cb :: "(int \<Rightarrow> u16 \<Rightarrow> 'f) \<Rightarrow> 'f \<Rightarrow> int \<Rightarrow> u32 \<Rightarrow> ring \<Rightarrow> ('f \<times> 'f) list \<times> ring" where
  "ca_render_cb conv silence percent want r =
     (let n = render_take r want;
          out = map (render_slot conv percent r) [0 ..< unat n] @ silent_frames silence n want
      in (out, render_count n (render_publish n (render_short n want r))))"

definition ca_set_global_volume :: "int \<Rightarrow> int" where
  "ca_set_global_volume percent = (let percent = (if percent < 0 then 0 else percent) in if percent > 100 then 100 else percent)"

subsection \<open>Two threads\<close>

text \<open>
  Where the producer is in \<open>ca_ring_push\<close> and the consumer in \<open>ca_render_cb\<close>. \<open>accepted\<close> and \<open>taken\<close> are the history: the frames whose tail
  was published, and how many of them the published head has passed.
\<close>

datatype producer = PIdle | PWrite "frame list" u32 nat | PCount u32
datatype 'f consumer = CIdle | CRead u32 u32 int nat "('f \<times> 'f) list" | CFilled u32 u32 int "('f \<times> 'f) list" | CCount u32

record 'f audio =
  aring :: ring
  prod :: producer
  cons :: "'f consumer"
  volume :: int
  accepted :: "frame list"
  taken :: nat

inductive astep :: "(int \<Rightarrow> u16 \<Rightarrow> 'f) \<Rightarrow> 'f \<Rightarrow> 'f audio \<Rightarrow> 'f audio \<Rightarrow> bool" for conv silence where
  push_begin: "prod w = PIdle \<Longrightarrow> src \<noteq> [] \<Longrightarrow> length src < 2 ^ 31 \<Longrightarrow>
    astep conv silence w (w\<lparr>prod := PWrite src (push_take (aring w) (of_nat (length src))) 0\<rparr>)"
| push_write: "prod w = PWrite src n i \<Longrightarrow> i < unat n \<Longrightarrow>
    astep conv silence w (w\<lparr>aring := push_slot (src ! i) i (aring w), prod := PWrite src n (i + 1)\<rparr>)"
| push_publish: "prod w = PWrite src n (unat n) \<Longrightarrow>
    astep conv silence w (w\<lparr>aring := push_publish n (aring w), prod := PCount n, accepted := accepted w @ take (unat n) src\<rparr>)"
| push_count: "prod w = PCount n \<Longrightarrow> astep conv silence w (w\<lparr>aring := push_count n (aring w), prod := PIdle\<rparr>)"
| render_begin: "cons w = CIdle \<Longrightarrow>
    astep conv silence w (w\<lparr>cons := CRead want (render_take (aring w) want) (volume w) 0 []\<rparr>)"
| render_read: "cons w = CRead want n percent i out \<Longrightarrow> i < unat n \<Longrightarrow>
    astep conv silence w (w\<lparr>cons := CRead want n percent (i + 1) (out @ [render_slot conv percent (aring w) i])\<rparr>)"
| render_fill: "cons w = CRead want n percent (unat n) out \<Longrightarrow>
    astep conv silence w (w\<lparr>aring := render_short n want (aring w), cons := CFilled want n percent (out @ silent_frames silence n want)\<rparr>)"
| render_publish: "cons w = CFilled want n percent out \<Longrightarrow>
    astep conv silence w (w\<lparr>aring := render_publish n (aring w), cons := CCount n, taken := taken w + unat n\<rparr>)"
| render_count: "cons w = CCount n \<Longrightarrow> astep conv silence w (w\<lparr>aring := render_count n (aring w), cons := CIdle\<rparr>)"
| set_volume: "astep conv silence w (w\<lparr>volume := ca_set_global_volume percent\<rparr>)"

inductive_cases astep_cases: "astep conv silence w w'"

subsection \<open>Geometry\<close>

definition ring_ok :: "nat \<Rightarrow> ring \<Rightarrow> bool" where
  "ring_ok k r \<longleftrightarrow> 1 \<le> k \<and> k \<le> 31 \<and> rcap r = 2 ^ k \<and> rmask r = mask k \<and> length (slots r) = 2 ^ k"

lemma ring_ok_ops [simp]:
  "ring_ok k (push_slot f i r) = ring_ok k r" "ring_ok k (push_publish n r) = ring_ok k r" "ring_ok k (push_count n r) = ring_ok k r"
  "ring_ok k (render_short n want r) = ring_ok k r" "ring_ok k (render_publish n r) = ring_ok k r"
  "ring_ok k (render_count n r) = ring_ok k r"
  by (simp_all add: ring_ok_def push_slot_def push_publish_def push_count_def render_short_def render_publish_def render_count_def)

lemma ring_fields [simp]:
  "rtail (push_slot f i r) = rtail r" "rhead (push_slot f i r) = rhead r"
  "rtail (push_publish n r) = rtail r + n" "rhead (push_publish n r) = rhead r" "slots (push_publish n r) = slots r"
  "rtail (push_count n r) = rtail r" "rhead (push_count n r) = rhead r" "slots (push_count n r) = slots r"
  "rtail (render_short n want r) = rtail r" "rhead (render_short n want r) = rhead r" "slots (render_short n want r) = slots r"
  "rtail (render_publish n r) = rtail r" "rhead (render_publish n r) = rhead r + n" "slots (render_publish n r) = slots r"
  "rtail (render_count n r) = rtail r" "rhead (render_count n r) = rhead r" "slots (render_count n r) = slots r"
  by (simp_all add: push_slot_def push_publish_def push_count_def render_short_def render_publish_def render_count_def)

lemma slot_index_mod:
  assumes "ring_ok k r" shows "slot_index r (of_nat N) i = (N + i) mod 2 ^ k"
proof -
  have k: "k \<le> 32" using assms by (simp add: ring_ok_def)
  have "slot_index r (of_nat N) i = unat (take_bit k (of_nat (N + i) :: u32))"
    using assms by (simp add: slot_index_def ring_ok_def take_bit_eq_mask del: of_nat_add) (simp add: and.commute)
  also have "\<dots> = (N + i) mod 2 ^ 32 mod 2 ^ k" unfolding unat_take_bit unat_of_nat by simp
  also have "\<dots> = (N + i) mod 2 ^ k" using k by (intro mod_mod_cancel le_imp_power_dvd)
  finally show ?thesis .
qed

lemma cap_nat: "ring_ok k r \<Longrightarrow> unat (rcap r - 1) = 2 ^ k - 1" "ring_ok k r \<Longrightarrow> (2 :: nat) ^ k < 2 ^ 32"
proof -
  assume r: "ring_ok k r"
  then have k: "k \<le> 31" by (simp add: ring_ok_def)
  then show lt: "(2 :: nat) ^ k < 2 ^ 32" by (intro power_strict_increasing) auto
  have "unat (2 ^ k :: u32) = 2 ^ k" using lt unat_of_nat [where 'a = 32, of "2 ^ k"] by simp
  moreover have "1 \<le> (2 ^ k :: u32)" using calculation by (simp add: word_le_nat_alt)
  ultimately show "unat (rcap r - 1) = 2 ^ k - 1" using r by (simp add: ring_ok_def unat_sub)
qed

text \<open>The distance of the two indices, whatever they have wrapped to.\<close>

lemma used_nat:
  assumes "H \<le> T" "T < H + 2 ^ 32" shows "unat (of_nat T - of_nat H :: u32) = T - H"
proof -
  have "of_nat T - of_nat H = (of_nat (T - H) :: u32)" using assms(1) by simp
  also have "unat \<dots> = T - H" unfolding unat_of_nat using assms by simp
  finally show ?thesis .
qed

text \<open>Two positions less than a capacity apart have different slots.\<close>

lemma slots_differ: "a < b \<Longrightarrow> b < a + (2 :: nat) ^ k \<Longrightarrow> a mod 2 ^ k \<noteq> b mod 2 ^ k"
  by (metis add_diff_cancel_left' le_add_diff_inverse less_imp_le mod_eq_dvd_iff_nat nat_dvd_not_less
      add_less_cancel_left zero_less_diff)

lemma take_nats:
  assumes "ring_ok k r" "rhead r = of_nat H" "rtail r = of_nat T" "H \<le> T" "T < H + 2 ^ k"
  shows "unat (push_take r n) = min (unat n) (2 ^ k - 1 - (T - H))" "unat (render_take r want) = min (T - H) (unat want)"
proof -
  have u: "unat (rtail r - rhead r) = T - H" using used_nat [of H T] cap_nat(2) [OF assms(1)] assms by simp
  then have "unat ((rcap r - 1) - (rtail r - rhead r)) = 2 ^ k - 1 - (T - H)"
    using cap_nat(1) [OF assms(1)] assms(4,5) by (subst unat_sub) (auto simp: word_le_nat_alt)
  then show "unat (push_take r n) = min (unat n) (2 ^ k - 1 - (T - H))"
    by (auto simp: push_take_def Let_def word_less_nat_alt)
  show "unat (render_take r want) = min (T - H) (unat want)"
    using u by (auto simp: render_take_def Let_def word_less_nat_alt)
qed

lemma push_slot_at:
  assumes "ring_ok k r" "rtail r = of_nat T"
  shows "slots (push_slot f i r) ! (j mod 2 ^ k) = (if j mod 2 ^ k = (T + i) mod 2 ^ k then f else slots r ! (j mod 2 ^ k))"
  using assms slot_index_mod [OF assms(1), of T i] by (auto simp: push_slot_def ring_ok_def)

subsection \<open>The invariant\<close>

definition holds_frames :: "nat \<Rightarrow> ring \<Rightarrow> nat \<Rightarrow> frame list \<Rightarrow> bool" where
  "holds_frames k r H fs \<longleftrightarrow> (\<forall>j. H \<le> j \<and> j < length fs \<longrightarrow> slots r ! (j mod 2 ^ k) = fs ! j)"

definition heard :: "(int \<Rightarrow> u16 \<Rightarrow> 'f) \<Rightarrow> int \<Rightarrow> frame list \<Rightarrow> ('f \<times> 'f) list" where
  "heard conv percent = map (map_prod (conv percent) (conv percent))"

fun prod_ok :: "nat \<Rightarrow> 'f audio \<Rightarrow> producer \<Rightarrow> bool" where
  "prod_ok k w (PWrite src n i) \<longleftrightarrow> i \<le> unat n \<and> unat n \<le> length src \<and> length (accepted w) + unat n < taken w + 2 ^ k \<and>
     (\<forall>j < i. slots (aring w) ! ((length (accepted w) + j) mod 2 ^ k) = src ! j)"
| "prod_ok k w p \<longleftrightarrow> True"

fun cons_ok :: "(int \<Rightarrow> u16 \<Rightarrow> 'f) \<Rightarrow> 'f \<Rightarrow> 'f audio \<Rightarrow> 'f consumer \<Rightarrow> bool" where
  "cons_ok conv silence w (CRead want n percent i out) \<longleftrightarrow> i \<le> unat n \<and> unat n \<le> unat want \<and> taken w + unat n \<le> length (accepted w) \<and>
     out = heard conv percent (take i (drop (taken w) (accepted w)))"
| "cons_ok conv silence w (CFilled want n percent out) \<longleftrightarrow> unat n \<le> unat want \<and> taken w + unat n \<le> length (accepted w) \<and>
     out = heard conv percent (take (unat n) (drop (taken w) (accepted w))) @ silent_frames silence n want"
| "cons_ok conv silence w c \<longleftrightarrow> True"

definition ring_inv :: "(int \<Rightarrow> u16 \<Rightarrow> 'f) \<Rightarrow> 'f \<Rightarrow> nat \<Rightarrow> 'f audio \<Rightarrow> bool" where
  "ring_inv conv silence k w \<longleftrightarrow> ring_ok k (aring w) \<and> rtail (aring w) = of_nat (length (accepted w)) \<and> rhead (aring w) = of_nat (taken w) \<and>
     taken w \<le> length (accepted w) \<and> length (accepted w) < taken w + 2 ^ k \<and> holds_frames k (aring w) (taken w) (accepted w) \<and>
     prod_ok k w (prod w) \<and> cons_ok conv silence w (cons w)"

lemma cons_ok_append:
  assumes "cons_ok conv silence w c" "aring w' = r" "accepted w' = accepted w @ fs" "taken w' = taken w"
  shows "cons_ok conv silence w' c"
  using assms by (cases c) auto

lemma prod_ok_advance:
  assumes "prod_ok k w p" "slots (aring w') = slots (aring w)" "accepted w' = accepted w" "taken w \<le> taken w'"
  shows "prod_ok k w' p"
  using assms by (cases p) auto

lemma astep_inv:
  assumes "astep conv silence w w'" "ring_inv conv silence k w"
  shows "ring_inv conv silence k w'"
  using assms
proof (cases rule: astep.cases)
  case (push_begin src)
  have "unat (of_nat (length src) :: u32) = length src" using push_begin(4) by (simp add: unat_of_nat)
  then show ?thesis using push_begin assms(2) take_nats(1) [of k "aring w" "taken w" "length (accepted w)"]
    by (auto simp: ring_inv_def intro: cons_ok_append)
next
  case (push_write src n i)
  let ?T = "length (accepted w)"
  have at: "slots (push_slot (src ! i) i (aring w)) ! (j mod 2 ^ k) =
      (if j mod 2 ^ k = (?T + i) mod 2 ^ k then src ! i else slots (aring w) ! (j mod 2 ^ k))" for j
    using push_slot_at assms(2) by (auto simp: ring_inv_def)
  have free: "?T + unat n < taken w + 2 ^ k" using assms(2) push_write by (auto simp: ring_inv_def)
  have "j mod 2 ^ k \<noteq> (?T + i) mod 2 ^ k" if "taken w \<le> j" "j < ?T + i" for j
    by (rule slots_differ) (use that free push_write(3) in auto)
  then show ?thesis using push_write assms(2)
    by (auto simp: ring_inv_def holds_frames_def at less_Suc_eq intro: cons_ok_append)
next
  case (push_publish src n)
  have "nth (accepted w @ take (unat n) src) j = (if j < length (accepted w) then accepted w ! j else src ! (j - length (accepted w)))"
    if "j < length (accepted w) + unat n" for j using that by (auto simp: nth_append)
  moreover have "\<forall>j. length (accepted w) \<le> j \<longrightarrow> j < length (accepted w) + unat n \<longrightarrow>
      slots (aring w) ! (j mod 2 ^ k) = src ! (j - length (accepted w))"
    using push_publish assms(2) by (auto simp: ring_inv_def dest: le_Suc_ex)
  ultimately show ?thesis using push_publish assms(2)
    by (auto simp: ring_inv_def holds_frames_def intro: cons_ok_append)
next
  case (render_read want n percent i out)
  have i: "taken w + i < length (accepted w)" and r: "ring_ok k (aring w)" using render_read assms(2) by (auto simp: ring_inv_def)
  then have "slots (aring w) ! slot_index (aring w) (rhead (aring w)) i = accepted w ! (taken w + i)"
    using assms(2) slot_index_mod [OF r] by (simp add: ring_inv_def holds_frames_def)
  then show ?thesis using render_read assms(2) i
    by (auto simp: ring_inv_def render_slot_def heard_def take_Suc_conv_app_nth intro: prod_ok_advance)
next
  case (render_begin want)
  have "unat (render_take (aring w) want) = min (length (accepted w) - taken w) (unat want)"
    using assms(2) by (intro take_nats) (auto simp: ring_inv_def)
  then show ?thesis using render_begin assms(2) by (auto simp: ring_inv_def heard_def intro: prod_ok_advance)
next
  case (render_publish want n percent out)
  then show ?thesis using assms(2) by (auto simp: ring_inv_def holds_frames_def intro: prod_ok_advance)
qed (use assms(2) in \<open>auto simp: ring_inv_def holds_frames_def intro: cons_ok_append prod_ok_advance\<close>)

subsection \<open>A single caller\<close>

text \<open>The ring as a bounded queue, and the calls as runs of the steps of one thread.\<close>

definition idle :: "ring \<Rightarrow> int \<Rightarrow> frame list \<Rightarrow> nat \<Rightarrow> 'f audio" where
  "idle r percent fs H = \<lparr>aring = r, prod = PIdle, cons = CIdle, volume = percent, accepted = fs, taken = H\<rparr>"

definition audio_start :: "ring \<Rightarrow> 'f audio" where
  "audio_start r = idle r 100 [] 0"

definition ring_queue :: "nat \<Rightarrow> ring \<Rightarrow> frame list \<Rightarrow> bool" where
  "ring_queue k r q \<longleftrightarrow> (\<exists>fs H. q = drop H fs \<and> ring_inv (\<lambda>_. id) 0 k (idle r 100 fs H))"

lemma ring_inv_idle: "ring_inv conv silence k (idle r percent fs H) \<longleftrightarrow> ring_inv (\<lambda>_. id) 0 k (idle r 100 fs H)"
  by (simp add: ring_inv_def idle_def)

lemma asteps_inv: "(astep conv silence)\<^sup>*\<^sup>* w w' \<Longrightarrow> ring_inv conv silence k w \<Longrightarrow> ring_inv conv silence k w'"
  by (induction rule: rtranclp_induct) (auto intro: astep_inv)

lemma push_slots_run:
  assumes "prod w = PWrite src n i" "i \<le> unat n" "unat n \<le> length src"
  shows "(astep conv silence)\<^sup>*\<^sup>* w (w\<lparr>aring := push_slots (drop i (take (unat n) src)) i (aring w), prod := PWrite src n (unat n)\<rparr>)"
  using assms
proof (induction "unat n - i" arbitrary: i w)
  case (Suc d)
  have i: "i < unat n" using Suc.hyps(2) by simp
  then have d: "drop i (take (unat n) src) = src ! i # drop (i + 1) (take (unat n) src)"
    using Suc.prems(3) by (subst Cons_nth_drop_Suc [symmetric]) auto
  let ?w = "w\<lparr>aring := push_slot (src ! i) i (aring w), prod := PWrite src n (i + 1)\<rparr>"
  have "astep conv silence w ?w" by (rule push_write [OF Suc.prems(1) i])
  moreover have "(astep conv silence)\<^sup>*\<^sup>* ?w (?w\<lparr>aring := push_slots (drop (i + 1) (take (unat n) src)) (i + 1) (aring ?w), prod := PWrite src n (unat n)\<rparr>)"
    by (rule Suc.hyps(1)) (use Suc.hyps(2) Suc.prems i in auto)
  ultimately show ?case by (simp add: d converse_rtranclp_into_rtranclp)
next
  case 0
  then have "w\<lparr>prod := PWrite src n i\<rparr> = w" by (cases w) simp
  then have "(astep conv silence)\<^sup>*\<^sup>* w (w\<lparr>prod := PWrite src n i\<rparr>)" by (metis rtranclp.rtrancl_refl)
  then show ?case using 0 by simp
qed

lemma push_run:
  fixes conv :: "int \<Rightarrow> u16 \<Rightarrow> 'f"
  assumes inv: "ring_inv conv silence k (idle r percent fs H)" and len: "length src < 2 ^ 31"
  shows "\<exists>n r'. ca_ring_push src r = (n, r') \<and> unat n = min (length src) (2 ^ k - 1 - (length fs - H)) \<and>
    (astep conv silence)\<^sup>*\<^sup>* (idle r percent fs H) (idle r' percent (fs @ take (unat n) src) H)"
proof (cases "src = []")
  case False
  let ?n = "push_take r (of_nat (length src))" and ?w = "idle r percent fs H :: 'f audio"
  have "unat (of_nat (length src) :: u32) = length src" using len by (simp add: unat_of_nat)
  then have n: "unat ?n = min (length src) (2 ^ k - 1 - (length fs - H))"
    using take_nats(1) [of k r H "length fs"] inv by (simp add: ring_inv_def idle_def)
  let ?w1 = "?w\<lparr>prod := PWrite src ?n 0\<rparr>"
  let ?w2 = "?w1\<lparr>aring := push_slots (take (unat ?n) src) 0 r, prod := PWrite src ?n (unat ?n)\<rparr>"
  have "astep conv silence ?w ?w1" using push_begin [of ?w src conv silence] False len by (simp add: idle_def)
  moreover have "(astep conv silence)\<^sup>*\<^sup>* ?w1 ?w2" using push_slots_run [of ?w1 src ?n 0 conv silence] n by (simp add: idle_def)
  moreover have "astep conv silence ?w2 (?w2\<lparr>aring := push_publish ?n (aring ?w2), prod := PCount ?n, accepted := accepted ?w2 @ take (unat ?n) src\<rparr>)"
    (is "astep _ _ _ ?w3") using astep.push_publish [of ?w2 src ?n conv silence] by simp
  moreover have "astep conv silence ?w3 (?w3\<lparr>aring := push_count ?n (aring ?w3), prod := PIdle\<rparr>)" using astep.push_count [of ?w3 ?n conv silence] by simp
  ultimately have "(astep conv silence)\<^sup>*\<^sup>* ?w (?w3\<lparr>aring := push_count ?n (aring ?w3), prod := PIdle\<rparr>)"
    by (meson converse_rtranclp_into_rtranclp rtranclp.rtrancl_into_rtrancl rtranclp_trans)
  then show ?thesis using False n by (auto simp: ca_ring_push_def Let_def idle_def)
qed (auto simp: ca_ring_push_def)

lemma push_queue:
  assumes q: "ring_queue k r q" and len: "length src < 2 ^ 31"
  shows "ring_queue k (snd (ca_ring_push src r)) (q @ take (2 ^ k - 1 - length q) src) \<and>
    unat (fst (ca_ring_push src r)) = min (length src) (2 ^ k - 1 - length q)"
proof -
  from q obtain fs H where fs: "q = drop H fs" "ring_inv (\<lambda>_. id) 0 k (idle r 100 fs H)" by (auto simp: ring_queue_def)
  from push_run [OF fs(2) len] obtain n r' where r': "ca_ring_push src r = (n, r')" "unat n = min (length src) (2 ^ k - 1 - (length fs - H))"
    "(astep (\<lambda>_. id) 0)\<^sup>*\<^sup>* (idle r 100 fs H) (idle r' 100 (fs @ take (unat n) src) H)" by blast
  from asteps_inv [OF r'(3) fs(2)] have "ring_queue k r' (drop H (fs @ take (unat n) src))" unfolding ring_queue_def by blast
  moreover have "H \<le> length fs" using fs(2) by (simp add: ring_inv_def idle_def)
  moreover have "take (unat n) src = take (2 ^ k - 1 - length q) src" using r'(2) fs(1) by (simp add: min_def)
  ultimately show ?thesis using r' fs(1) by simp
qed

lemma render_queue:
  assumes q: "ring_queue k r q"
  shows "fst (ca_render_cb conv silence percent want r) =
      heard conv percent (take (unat want) q) @ replicate (unat want - length q) (silence, silence) \<and>
    ring_queue k (snd (ca_render_cb conv silence percent want r)) (drop (unat want) q)"
proof -
  from q obtain fs H where fs: "q = drop H fs" "ring_inv (\<lambda>_. id) 0 k (idle r 100 fs H)" by (auto simp: ring_queue_def)
  then have r: "ring_ok k r" "rhead r = of_nat H" "H \<le> length fs" "holds_frames k r H fs" "rtail r = of_nat (length fs)"
    "length fs < H + 2 ^ k"
    by (auto simp: ring_inv_def idle_def)
  have n: "unat (render_take r want) = min (length q) (unat want)" using take_nats(2) [OF r(1,2,5,3,6)] fs(1) by simp
  have "render_slot conv percent r i = map_prod (conv percent) (conv percent) (q ! i)" if "i < length q" for i
    using that r slot_index_mod [OF r(1)] fs(1) by (simp add: render_slot_def holds_frames_def)
  then have "map (render_slot conv percent r) [0 ..< unat (render_take r want)] = heard conv percent (take (unat want) q)"
    unfolding n heard_def by (intro nth_equalityI) auto
  moreover have "ring_queue k (snd (ca_render_cb conv silence percent want r)) (drop (unat want) q)"
    unfolding ring_queue_def
  proof (intro exI conjI)
    let ?m = "min (length q) (unat want)"
    show "drop (unat want) q = drop (H + ?m) fs" using fs(1) by (simp add: min_def add.commute)
    have "render_take r want = of_nat ?m" using n by (metis of_nat_unat ucast_id)
    then show "ring_inv (\<lambda>_. id) 0 k (idle (snd (ca_render_cb conv silence percent want r)) 100 fs (H + ?m))"
      using fs r by (auto simp: ca_render_cb_def Let_def ring_inv_def idle_def holds_frames_def)
  qed
  ultimately show ?thesis using n by (auto simp: ca_render_cb_def Let_def silent_frames_def min_def)
qed

text \<open>Opening a ring: the shift loop ends, and the capacity is the least power of two above the request.\<close>

lemma pow2_from:
  assumes "unat n \<le> 2 ^ 31" "1 \<le> j" "j \<le> 31" "j = 1 \<or> 2 ^ (j - 1) < unat n"
  shows "\<exists>k. next_pow2_from n (2 ^ j) = Some (2 ^ k) \<and> j \<le> k \<and> k \<le> 31 \<and> unat n \<le> 2 ^ k \<and> (k = 1 \<or> 2 ^ (k - 1) < unat n)"
  using assms(2,3,4)
proof (induction "31 - j" arbitrary: j)
  case 0
  then have j: "j = 31" by simp
  then show ?case using assms(1) 0 by (subst next_pow2_from.simps) (auto simp: word_less_nat_alt intro!: exI [of _ "31 :: nat"])
next
  case (Suc d)
  have u: "unat (2 ^ j :: u32) = 2 ^ j"
  proof -
    have "(2 :: nat) ^ j < 2 ^ 32" using Suc.prems(2) by (intro power_strict_increasing) auto
    then show ?thesis using unat_of_nat [where 'a = 32, of "2 ^ j"] by simp
  qed
  have s: "push_bit 1 (2 ^ j :: u32) = 2 ^ Suc j" by (simp add: push_bit_eq_mult)
  show ?case
  proof (cases "(2 ^ j :: u32) < n")
    case True
    then have lt: "2 ^ j < unat n" using u by (simp add: word_less_nat_alt)
    have "\<exists>k. next_pow2_from n (2 ^ Suc j) = Some (2 ^ k) \<and> Suc j \<le> k \<and> k \<le> 31 \<and> unat n \<le> 2 ^ k \<and> (k = 1 \<or> 2 ^ (k - 1) < unat n)"
      by (rule Suc.hyps(1)) (use Suc.hyps(2) lt in auto)
    then obtain k where "next_pow2_from n (2 ^ Suc j) = Some (2 ^ k)" "Suc j \<le> k" "k \<le> 31" "unat n \<le> 2 ^ k" "k = 1 \<or> 2 ^ (k - 1) < unat n" by blast
    then show ?thesis using True s by (subst next_pow2_from.simps) (auto simp: mult.commute [of "2 ^ j" 2] intro!: exI [of _ k])
  next
    case False
    then show ?thesis using u Suc.prems by (subst next_pow2_from.simps) (auto simp: word_less_nat_alt not_less intro!: exI [of _ j])
  qed
qed

lemma open_ok:
  assumes "f < 2 ^ 31" "1 \<le> f"
  shows "\<exists>k r. ca_open True f = Some r \<and> ring_inv (\<lambda>_. id) 0 k (idle r 100 [] 0) \<and> max 2 f \<le> 2 ^ k - 1 \<and> 2 ^ (k - 1) \<le> max 2 f \<and> rcap r = 2 ^ k"
proof -
  define m where "m = (if f < 2 then 2 else f)"
  have m: "2 \<le> m" "m < 2 ^ 31" "m = max 2 f" using assms by (auto simp: m_def)
  have u: "unat (word_of_int m + 1 :: u32) = nat (m + 1)"
  proof -
    have "word_of_int m + 1 = (of_nat (nat (m + 1)) :: u32)" using m(1) by (simp add: nat_add_distrib of_nat_nat add.commute)
    then show ?thesis using m(1,2) by (simp only: unat_of_nat) simp
  qed
  then obtain k where k: "next_pow2 (word_of_int m + 1) = Some (2 ^ k)" "1 \<le> k" "k \<le> 31" "nat (m + 1) \<le> 2 ^ k" "k = 1 \<or> 2 ^ (k - 1) < nat (m + 1)"
  proof -
    have "unat (word_of_int m + 1 :: u32) \<le> 2 ^ 31" using m(2) unfolding u by simp
    from pow2_from [OF this, of 1] show thesis using that unfolding next_pow2_def u by auto
  qed
  have "(2 :: nat) ^ k < 2 ^ 32" using k(3) by (intro power_strict_increasing) auto
  then have c: "unat (2 ^ k :: u32) = 2 ^ k" using unat_of_nat [where 'a = 32, of "2 ^ k"] by simp
  define r where "r = \<lparr>slots = replicate (unat (2 ^ k :: u32)) (0, 0), rcap = 2 ^ k, rmask = 2 ^ k - 1, rhead = 0, rtail = 0,
    pushed = 0, consumed = 0, underruns = 0\<rparr>"
  have "ca_open True f = Some r" using k(1) by (simp add: ca_open_def m_def r_def)
  moreover have "ring_inv (\<lambda>_. id) 0 k (idle r 100 [] 0)"
    using k(2,3) by (simp add: ring_inv_def idle_def ring_ok_def r_def c holds_frames_def mask_eq_exp_minus_1)
  moreover have "m \<le> 2 ^ k - 1" using k(4) m(1) by (simp add: nat_le_iff)
  moreover have "2 ^ (k - 1) \<le> m" using k(5) m(1) by (auto simp: zless_nat_eq_int_zless)
  ultimately show ?thesis using m(3) by (intro exI [of _ k] exI [of _ r]) (auto simp: r_def)
qed

text \<open>Single frames through the ring satisfy the queue interface of the message lists.\<close>

definition push_frame :: "ring \<Rightarrow> frame \<Rightarrow> ring" where "push_frame r f = snd (ca_ring_push [f] r)"

definition render_frame :: "ring \<Rightarrow> ring \<times> frame" where
  "render_frame r = (case ca_render_cb (\<lambda>_ x. x) 0 100 1 r of (out, r') \<Rightarrow> (if render_take r 1 = 0 then r else r', hd out))"

lemma heard_id: "heard (\<lambda>_ x. x) p fs = fs"
  by (induction fs) (auto simp: heard_def)

interpretation audio_fifo: fifo_queue "ring_queue k" push_frame render_frame "(0, 0)" "\<lambda>q f. length q < 2 ^ k - 1" for k
proof
  show "ring_queue k (push_frame r f) (q @ [f])" if "ring_queue k r q" "length q < 2 ^ k - 1" for r q f
    using push_queue [OF that(1), of "[f]"] that(2) by (simp add: push_frame_def take_Cons split: nat.splits)
  have zero: "render_take r 1 = 0 \<longleftrightarrow> q = []" if "ring_queue k r q" for r q
  proof -
    from that obtain fs H where "q = drop H fs" "ring_inv (\<lambda>_. id) 0 k (idle r 100 fs H)" by (auto simp: ring_queue_def)
    then have "unat (render_take r 1) = min (length q) 1"
      using take_nats(2) [of k r H "length fs" 1] by (simp add: ring_inv_def idle_def)
    then show ?thesis by (auto simp: unat_eq_0 [symmetric] min_def split: if_splits)
  qed
  show "snd (render_frame r) = f \<and> ring_queue k (fst (render_frame r)) q" if "ring_queue k r (f # q)" for r f q
    using render_queue [OF that, where conv = "\<lambda>_ x. x" and silence = 0 and percent = 100 and want = 1] zero [OF that]
    by (auto simp: render_frame_def heard_id split: prod.splits)
  show "render_frame r = (r, (0, 0))" if "ring_queue k r []" for r
    using render_queue [OF that, where conv = "\<lambda>_ x. x" and silence = 0 and percent = 100 and want = 1] zero [OF that]
    by (auto simp: render_frame_def heard_def split: prod.splits)
qed

subsection \<open>Properties\<close>

text \<open>C33. Pushing and rendering are the operations of a bounded queue of stereo frames. Opening a ring for f frames ends and gives an empty queue whose
  capacity is one less than a power of two, at least f and less than twice f. A push of up to 2^31 frames accepts as many as there is room for and
  returns that number; a render callback delivers the oldest frames, scaled, in order, and silence for the
  rest, and removes them. Both hold whatever the 32-bit indices have wrapped to.\<close>

theorem ring_bounded_queue:
  assumes "1 \<le> f" "f < 2 ^ 31"
  shows "(\<exists>k r. ca_open True f = Some r \<and> ring_queue k r [] \<and> unat (ca_ring_capacity r) = 2 ^ k - 1 \<and>
      f \<le> 2 ^ k - 1 \<and> (2 :: int) ^ k \<le> 2 * max 2 f) \<and>
    (\<forall>k r q src. ring_queue k r q \<and> length src < 2 ^ 31 \<longrightarrow>
      ring_queue k (snd (ca_ring_push src r)) (q @ take (2 ^ k - 1 - length q) src) \<and>
      unat (fst (ca_ring_push src r)) = min (length src) (2 ^ k - 1 - length q) \<and> unat (ca_ring_space r) = 2 ^ k - 1 - length q) \<and>
    (\<forall>k r q conv silence percent want. ring_queue k r q \<longrightarrow>
      fst (ca_render_cb conv silence percent want r) =
        heard conv percent (take (unat want) q) @ replicate (unat want - length q) (silence, silence) \<and>
      ring_queue k (snd (ca_render_cb conv silence percent want r)) (drop (unat want) q))"
proof (intro conjI allI impI)
  obtain k r where r: "ca_open True f = Some r" "ring_inv (\<lambda>_. id) 0 k (idle r 100 [] 0)" "max 2 f \<le> 2 ^ k - 1" "2 ^ (k - 1) \<le> max 2 f" "rcap r = 2 ^ k"
    using open_ok assms by blast
  have ok: "ring_ok k r" using r(2) by (simp add: ring_inv_def idle_def)
  have "ring_queue k r []" unfolding ring_queue_def using r(2) by (intro exI [of _ "[]"] exI [of _ 0]) simp
  moreover have "(2 :: int) ^ k = 2 * 2 ^ (k - 1)" using ok by (auto simp: ring_ok_def power_Suc [symmetric] simp del: power_Suc)
  ultimately show "\<exists>k r. ca_open True f = Some r \<and> ring_queue k r [] \<and> unat (ca_ring_capacity r) = 2 ^ k - 1 \<and>
      f \<le> 2 ^ k - 1 \<and> (2 :: int) ^ k \<le> 2 * max 2 f"
    using r cap_nat(1) [OF ok] by (intro exI [of _ k] exI [of _ r]) (auto simp: ca_ring_capacity_def)
  fix k r q and src :: "frame list" assume q: "ring_queue k r q \<and> length src < 2 ^ 31"
  then show "ring_queue k (snd (ca_ring_push src r)) (q @ take (2 ^ k - 1 - length q) src)"
    "unat (fst (ca_ring_push src r)) = min (length src) (2 ^ k - 1 - length q)" using push_queue by blast+
  from q obtain fs H where fs: "q = drop H fs" "ring_inv (\<lambda>_. id) 0 k (idle r 100 fs H)" by (auto simp: ring_queue_def)
  have "(if x < - 1 then x else - 1) = x" for x :: u32 by (metis word_order.not_eq_extremum)
  then have "push_take r (- 1) = ca_ring_space r" unfolding push_take_def ca_ring_space_def Let_def .
  moreover have "unat (- 1 :: u32) = 2 ^ 32 - 1" by (simp add: unsigned_minus_1_eq_mask mask_eq_exp_minus_1)
  ultimately show "unat (ca_ring_space r) = 2 ^ k - 1 - length q"
    using take_nats(1) [of k r H "length fs" "- 1"] fs cap_nat(2) [of k r] by (auto simp: ring_inv_def idle_def)
qed (rule conjunct1 [OF render_queue] conjunct2 [OF render_queue], assumption)+

text \<open>C32. Producer and consumer may interleave at every access. In every state the two threads can reach, the frames a finished callback hands to
  the audio unit are the next accepted frames in order, each once, and then silence; a frame is dropped or
  delayed by neither side; the number of frames in flight stays below the capacity; and the slots that an unfinished push has yet to publish are never
  slots that the consumer may still read.\<close>

theorem ring_two_threads:
  assumes "1 \<le> f" "f < 2 ^ 31" "ca_open True f = Some r" "(astep conv silence)\<^sup>*\<^sup>* (audio_start r) w"
  shows "taken w \<le> length (accepted w) \<and> length (accepted w) - taken w \<le> unat (ca_ring_capacity r) \<and>
    (\<forall>want n percent out. cons w = CFilled want n percent out \<longrightarrow> taken w + unat n \<le> length (accepted w) \<and> length out = unat want \<and>
      out = heard conv percent (take (unat n) (drop (taken w) (accepted w))) @ replicate (unat want - unat n) (silence, silence)) \<and>
    (\<forall>src n i j. prod w = PWrite src n i \<and> i < unat n \<and> taken w + j < length (accepted w) \<longrightarrow>
      slot_index (aring w) (rtail (aring w)) i \<noteq> slot_index (aring w) (rhead (aring w)) j)"
proof -
  obtain k where r: "ring_inv (\<lambda>_. id) 0 k (idle r 100 [] 0)" using open_ok [OF assms(2,1)] assms(3) by auto
  then have "ring_inv conv silence k (audio_start r)" unfolding audio_start_def by (rule ring_inv_idle [THEN iffD2])
  from asteps_inv [OF assms(4) this] have w: "ring_inv conv silence k w" .
  have cap: "unat (ca_ring_capacity r) = 2 ^ k - 1" using cap_nat(1) [of k r] r by (simp add: ring_inv_def idle_def ca_ring_capacity_def)
  have ok: "ring_ok k (aring w)" using w by (simp add: ring_inv_def)
  show ?thesis unfolding cap
  proof (intro conjI allI impI)
    show "taken w \<le> length (accepted w)" "length (accepted w) - taken w \<le> 2 ^ k - 1" using w by (auto simp: ring_inv_def)
    fix want n percent out assume "cons w = CFilled want n percent out"
    then show "taken w + unat n \<le> length (accepted w)" "length out = unat want"
      "out = heard conv percent (take (unat n) (drop (taken w) (accepted w))) @ replicate (unat want - unat n) (silence, silence)"
      using w by (auto simp: ring_inv_def silent_frames_def heard_def)
  next
    fix src n i j assume p: "prod w = PWrite src n i \<and> i < unat n \<and> taken w + j < length (accepted w)"
    then have "(taken w + j) mod 2 ^ k \<noteq> (length (accepted w) + i) mod 2 ^ k"
      using w by (intro slots_differ) (auto simp: ring_inv_def)
    then show "slot_index (aring w) (rtail (aring w)) i \<noteq> slot_index (aring w) (rhead (aring w)) j"
      using w slot_index_mod [OF ok] by (auto simp: ring_inv_def)
  qed
qed

text \<open>A ring for three frames: a push of one frame, with a callback that began before it was published.\<close>

lemma ring_bounded_queue_witness:
  "\<exists>k r. ca_open True 3 = Some r \<and> (3 :: int) \<le> 2 ^ k - 1 \<and> (2 :: int) ^ k \<le> 6 \<and>
     ring_queue k (snd (ca_ring_push [(1, 2)] r)) [(1, 2)]"
proof -
  have "(3 :: int) < 2 ^ 31" by simp
  note q = ring_bounded_queue [OF _ this]
  then obtain k r where r: "ca_open True 3 = Some r" "ring_queue k r []" "(3 :: int) \<le> 2 ^ k - 1" "(2 :: int) ^ k \<le> 6" by auto
  have "(4 :: nat) \<le> 2 ^ k" using r(3) by (simp add: of_nat_le_iff [where 'a = int, symmetric] del: of_nat_le_iff)
  then have "take (2 ^ k - 1 - length []) [(1, 2)] = [(1, 2)]" by simp
  moreover have "ring_queue k (snd (ca_ring_push [(1, 2)] r)) ([] @ take (2 ^ k - 1 - length []) [(1, 2)])" using q [THEN conjunct2, THEN conjunct1, rule_format, of k r "[]" "[(1, 2)]"] r(2) by simp
  ultimately show ?thesis using r by auto
qed

definition demo_audio :: "ring \<Rightarrow> u16 audio" where
  "demo_audio r = (audio_start r)\<lparr>cons := CRead 2 (render_take r 2) 100 0 [], prod := PWrite [(1, 2)] (push_take r 1) 0\<rparr>"

lemma ring_two_threads_witness:
  "\<exists>r. ca_open True 3 = Some r \<and> (astep (\<lambda>_ s. s) 0)\<^sup>*\<^sup>* (audio_start r) (demo_audio r) \<and> length (accepted (demo_audio r)) \<le> unat (ca_ring_capacity r)"
proof -
  obtain r where r: "ca_open True 3 = Some r" using open_ok [of 3] by auto
  let ?w = "(audio_start r)\<lparr>cons := CRead 2 (render_take r 2) 100 0 []\<rparr> :: u16 audio"
  have "astep (\<lambda>_ s. s) 0 (audio_start r) ?w" using render_begin [of "audio_start r" "\<lambda>_ s. s" 0 2] by (simp add: audio_start_def idle_def)
  moreover have "astep (\<lambda>_ s. s) 0 ?w (demo_audio r)"
    using push_begin [of ?w "[(1, 2)]" "\<lambda>_ s. s" 0] by (simp add: audio_start_def idle_def demo_audio_def)
  ultimately have steps: "(astep (\<lambda>_ s. s) 0)\<^sup>*\<^sup>* (audio_start r) (demo_audio r)" by (meson r_into_rtranclp rtranclp_trans)
  then show ?thesis using ring_two_threads [OF _ _ r steps] r by (auto simp: demo_audio_def audio_start_def idle_def)
qed

end
