(* ===== verification/M68kCore.thy ===== *)
theory M68kCore
  imports BigEndian
begin

text \<open>
  The machine of the reference 68k interpreter, \<open>hosted/jit68k/j5d_interp.c\<close>: its registers, the
  bounds-checked big-endian sandbox, the condition codes, effective addresses and the exception
  frame. The arrays \<open>d\<close>, \<open>a\<close> and \<open>fp\<close> of the C state are functions of the register number, which every
  use masks to 0..7; the host bytes are a function of the offset from \<open>host_mem\<close>, so that the reads the C code
  leaves unchecked (instruction words, which may lie past the region) are reads of that function.
  The local variables \<open>pc\<close> and \<open>initial_sp\<close> of \<open>j5d_interp_run\<close> are fields of the machine.
\<close>

subsection \<open>State\<close>

record exc_record =
  er_vector :: u8
  er_frame_sr :: u32
  er_frame_pc :: u32
  er_a7 :: u32
  er_handler :: u32

record m68k =
  dreg :: "nat \<Rightarrow> u32"
  areg :: "nat \<Rightarrow> u32"
  ccr :: u32
  st_pc :: u32
  sr_high :: u16
  exc_count :: u16
  fpr :: "nat \<Rightarrow> u64"
  fpcr :: u32
  fpsr :: u32
  fpiar :: u32
  hmem :: bytes
  org :: u32
  msz :: u32
  cpc :: u32
  isp :: u32
  exlog :: "exc_record list option"

definition CCR_V :: u32 where "CCR_V = 0x01"
definition CCR_C :: u32 where "CCR_C = 0x02"
definition CCR_Z :: u32 where "CCR_Z = 0x04"
definition CCR_N :: u32 where "CCR_N = 0x08"
definition CCR_X :: u32 where "CCR_X = 0x10"

lemmas ccr_defs = CCR_V_def CCR_C_def CCR_Z_def CCR_N_def CCR_X_def

definition SR_S :: u16 where "SR_S = 0x2000"
definition VBR :: u32 where "VBR = 0x00240000"
definition VEC_BUS_ERROR :: u32 where "VEC_BUS_ERROR = 2"
definition VEC_ADDRESS_ERROR :: u32 where "VEC_ADDRESS_ERROR = 3"
definition VEC_ILLEGAL :: u32 where "VEC_ILLEGAL = 4"
definition VEC_DIV_BY_ZERO :: u32 where "VEC_DIV_BY_ZERO = 5"
definition VECTOR_TRAPcc :: u32 where "VECTOR_TRAPcc = 7"
definition VEC_TRAP_BASE :: u32 where "VEC_TRAP_BASE = 32"
definition MAX_EXC :: nat where "MAX_EXC = 32"

text \<open>
  What one block of the interpreter's \<open>if\<close> chain does: go round the loop (\<open>Next\<close>), fall through to
  the blocks below with whatever it already changed (\<open>Fall\<close>), leave the function with 0 (\<open>Exit\<close>), or leave it with 1 and a
  message (\<open>IFail\<close>), 2 (\<open>StopAt\<close>) or \<open>J5D_RC_KILLED\<close> (\<open>Killed\<close>).
\<close>

datatype outcome =
  Next m68k | Fall m68k | Exit u32 m68k | IFail string m68k | StopAt m68k | Killed m68k

type_synonym handler = "u16 \<Rightarrow> m68k \<Rightarrow> outcome"

text \<open>Two blocks one after the other in the chain.\<close>

definition or_else :: "handler \<Rightarrow> handler \<Rightarrow> handler" where
  "or_else h k op m = (case h op m of Fall m' \<Rightarrow> k op m' | r \<Rightarrow> r)"

fun chain :: "handler list \<Rightarrow> handler" where
  "chain [] op m = Fall m"
| "chain (h # hs) op m = or_else h (chain hs) op m"

subsection \<open>Sandbox access\<close>

definition in_box :: "m68k \<Rightarrow> u32 \<Rightarrow> nat \<Rightarrow> bool" where
  "in_box m a n \<longleftrightarrow> \<not> (a < org m \<or> unat a + n > unat (org m) + unat (msz m))"

definition hoff :: "m68k \<Rightarrow> u32 \<Rightarrow> nat" where
  "hoff m a = unat (a - org m)"

definition be16 :: "bytes \<Rightarrow> nat \<Rightarrow> u16" where
  "be16 b p = push_bit 8 (ucast (b p)) OR ucast (b (p + 1))"

definition wr_be16 :: "bytes \<Rightarrow> nat \<Rightarrow> u16 \<Rightarrow> bytes" where
  "wr_be16 b p v = b(p := ucast (drop_bit 8 v), p + 1 := ucast v)"

definition mem_rd32 :: "m68k \<Rightarrow> u32 \<Rightarrow> u32 option" where
  "mem_rd32 m a = (if in_box m a 4 then Some (sb_read_be32 (hmem m) (hoff m a)) else None)"

definition mem_rd16 :: "m68k \<Rightarrow> u32 \<Rightarrow> u16 option" where
  "mem_rd16 m a = (if in_box m a 2 then Some (be16 (hmem m) (hoff m a)) else None)"

definition mem_rd8 :: "m68k \<Rightarrow> u32 \<Rightarrow> u8 option" where
  "mem_rd8 m a = (if in_box m a 1 then Some (hmem m (hoff m a)) else None)"

definition mem_wr32 :: "m68k \<Rightarrow> u32 \<Rightarrow> u32 \<Rightarrow> m68k option" where
  "mem_wr32 m a v = (if in_box m a 4 then Some (m\<lparr>hmem := sb_write_be32 (hmem m) (hoff m a) v\<rparr>) else None)"

definition mem_wr16 :: "m68k \<Rightarrow> u32 \<Rightarrow> u16 \<Rightarrow> m68k option" where
  "mem_wr16 m a v = (if in_box m a 2 then Some (m\<lparr>hmem := wr_be16 (hmem m) (hoff m a) v\<rparr>) else None)"

definition mem_wr8 :: "m68k \<Rightarrow> u32 \<Rightarrow> u8 \<Rightarrow> m68k option" where
  "mem_wr8 m a v = (if in_box m a 1 then Some (m\<lparr>hmem := (hmem m)(hoff m a := v)\<rparr>) else None)"

text \<open>The three-way choice by operand size that the interpreter repeats.\<close>

definition mem_rd :: "nat \<Rightarrow> m68k \<Rightarrow> u32 \<Rightarrow> u32 option" where
  "mem_rd bits m a =
     (if bits = 8 then map_option ucast (mem_rd8 m a)
      else if bits = 16 then map_option ucast (mem_rd16 m a) else mem_rd32 m a)"

definition mem_wr :: "nat \<Rightarrow> m68k \<Rightarrow> u32 \<Rightarrow> u32 \<Rightarrow> m68k option" where
  "mem_wr bits m a v =
     (if bits = 8 then mem_wr8 m a (ucast v)
      else if bits = 16 then mem_wr16 m a (ucast v) else mem_wr32 m a v)"

text \<open>Read or write, leaving the function with a message when the address is outside.\<close>

definition rdm :: "nat \<Rightarrow> m68k \<Rightarrow> u32 \<Rightarrow> string \<Rightarrow> (u32 \<Rightarrow> outcome) \<Rightarrow> outcome" where
  "rdm bits m a msg k = (case mem_rd bits m a of None \<Rightarrow> IFail msg m | Some v \<Rightarrow> k v)"

definition wrm :: "nat \<Rightarrow> m68k \<Rightarrow> u32 \<Rightarrow> u32 \<Rightarrow> string \<Rightarrow> (m68k \<Rightarrow> outcome) \<Rightarrow> outcome" where
  "wrm bits m a v msg k = (case mem_wr bits m a v of None \<Rightarrow> IFail msg m | Some m' \<Rightarrow> k m')"

subsection \<open>Registers, the instruction stream and sign extension\<close>

definition set_d :: "nat \<Rightarrow> u32 \<Rightarrow> m68k \<Rightarrow> m68k" where "set_d n v m = m\<lparr>dreg := (dreg m)(n := v)\<rparr>"
definition set_a :: "nat \<Rightarrow> u32 \<Rightarrow> m68k \<Rightarrow> m68k" where "set_a n v m = m\<lparr>areg := (areg m)(n := v)\<rparr>"
definition set_cc :: "u32 \<Rightarrow> m68k \<Rightarrow> m68k" where "set_cc c m = m\<lparr>ccr := c\<rparr>"
definition set_pc :: "u32 \<Rightarrow> m68k \<Rightarrow> m68k" where "set_pc v m = m\<lparr>cpc := v\<rparr>"

definition adv :: "nat \<Rightarrow> m68k \<Rightarrow> m68k" where "adv k m = set_pc (cpc m + of_nat k) m"

text \<open>\<open>fld n op\<close> is the three-bit field of the opcode at bit \<open>n\<close>.\<close>

definition fld :: "nat \<Rightarrow> u16 \<Rightarrow> nat" where "fld n op = unat (drop_bit n op AND 7)"

text \<open>\<open>xw m k\<close>, \<open>xl m k\<close>: the word or longword at \<open>ip + k\<close>.\<close>

definition xw :: "m68k \<Rightarrow> nat \<Rightarrow> u16" where "xw m k = be16 (hmem m) (hoff m (cpc m) + k)"
definition xl :: "m68k \<Rightarrow> nat \<Rightarrow> u32" where "xl m k = sb_read_be32 (hmem m) (hoff m (cpc m) + k)"

definition sx16 :: "u16 \<Rightarrow> u32" where
  "sx16 w = (if w AND 0x8000 \<noteq> 0 then ucast w OR 0xFFFF0000 else ucast w)"

definition sx8 :: "u8 \<Rightarrow> u32" where
  "sx8 b = (if b AND 0x80 \<noteq> 0 then ucast b OR 0xFFFFFF00 else ucast b)"

definition sxw :: "m68k \<Rightarrow> nat \<Rightarrow> u32" where "sxw m k = sx16 (xw m k)"

subsection \<open>Condition codes\<close>

definition flag :: "bool \<Rightarrow> u32 \<Rightarrow> u32" where "flag b f = (if b then f else 0)"

definition nz32 :: "u32 \<Rightarrow> u32 \<Rightarrow> u32" where
  "nz32 res keep = (keep AND (CCR_X OR CCR_V OR CCR_C)) OR flag (res = 0) CCR_Z OR flag (res AND 0x80000000 \<noteq> 0) CCR_N"

definition logic_ccr :: "u32 \<Rightarrow> u32 \<Rightarrow> u32" where
  "logic_ccr res keepX = (keepX AND CCR_X) OR flag (res = 0) CCR_Z OR flag (res AND 0x80000000 \<noteq> 0) CCR_N"

definition szmask :: "nat \<Rightarrow> u32" where
  "szmask bits = (if bits = 32 then 0xFFFFFFFF else push_bit bits 1 - 1)"

definition szmsb :: "nat \<Rightarrow> u32" where
  "szmsb bits = push_bit (bits - 1) 1"

text \<open>N and Z of a sized result.\<close>

definition nz_sz :: "nat \<Rightarrow> u32 \<Rightarrow> u32" where
  "nz_sz bits res = flag (res = 0) CCR_Z OR flag (res AND szmsb bits \<noteq> 0) CCR_N"

definition sized_x_ccr :: "u32 \<Rightarrow> nat \<Rightarrow> bool \<Rightarrow> bool \<Rightarrow> u32 \<Rightarrow> u32" where
  "sized_x_ccr res bits carry overflow prior =
     (let cc = flag carry (CCR_C OR CCR_X) OR flag overflow CCR_V OR flag (res AND szmsb bits \<noteq> 0) CCR_N
      in if res \<noteq> 0 then cc AND NOT CCR_Z else cc OR (prior AND CCR_Z))"

definition bcc_taken :: "nat \<Rightarrow> u32 \<Rightarrow> bool" where
  "bcc_taken cc4 c =
     (let N = c AND CCR_N \<noteq> 0; Z = c AND CCR_Z \<noteq> 0; V = c AND CCR_V \<noteq> 0; C = c AND CCR_C \<noteq> 0 in
      if cc4 = 0x2 then \<not> C \<and> \<not> Z else if cc4 = 0x3 then C \<or> Z
      else if cc4 = 0x4 then \<not> C else if cc4 = 0x5 then C
      else if cc4 = 0x6 then \<not> Z else if cc4 = 0x7 then Z
      else if cc4 = 0x8 then \<not> V else if cc4 = 0x9 then V
      else if cc4 = 0xA then \<not> N else if cc4 = 0xB then N
      else if cc4 = 0xC then N = V else if cc4 = 0xD then N \<noteq> V
      else if cc4 = 0xE then \<not> Z \<and> N = V else if cc4 = 0xF then Z \<or> N \<noteq> V
      else False)"

subsection \<open>Addition, subtraction and comparison\<close>

text \<open>The longword forms: result and condition codes.\<close>

definition add_l :: "u32 \<Rightarrow> u32 \<Rightarrow> u32 \<times> u32" where
  "add_l a b = (let s = ucast a + ucast b :: u64; res = ucast s;
       cc = flag (drop_bit 32 s \<noteq> 0) (CCR_C OR CCR_X) OR flag ((a XOR res) AND (b XOR res) AND 0x80000000 \<noteq> 0) CCR_V
     in (res, nz32 res cc OR (cc AND (CCR_V OR CCR_C OR CCR_X))))"

definition sub_l :: "u32 \<Rightarrow> u32 \<Rightarrow> u32 \<times> u32" where
  "sub_l a b = (let res = a - b;
       cc = flag (b > a) (CCR_C OR CCR_X) OR flag ((a XOR b) AND (a XOR res) AND 0x80000000 \<noteq> 0) CCR_V
     in (res, nz32 res cc OR (cc AND (CCR_V OR CCR_C OR CCR_X))))"

text \<open>The sized forms, on operands already masked to the size.\<close>

definition add_sz :: "nat \<Rightarrow> u32 \<Rightarrow> u32 \<Rightarrow> u32 \<times> u32" where
  "add_sz bits a b = (let s = ucast a + ucast b :: u64; res = ucast s AND szmask bits in
     (res, flag (s AND (ucast (szmask bits) + 1) \<noteq> 0) (CCR_C OR CCR_X) OR
           flag ((a XOR res) AND (b XOR res) AND szmsb bits \<noteq> 0) CCR_V OR nz_sz bits res))"

definition sub_sz :: "nat \<Rightarrow> u32 \<Rightarrow> u32 \<Rightarrow> u32 \<times> u32" where
  "sub_sz bits a b = (let res = (a - b) AND szmask bits in
     (res, flag (b > a) (CCR_C OR CCR_X) OR
           flag ((a XOR b) AND (a XOR res) AND szmsb bits \<noteq> 0) CCR_V OR nz_sz bits res))"

text \<open>A comparison is a subtraction that keeps X.\<close>

definition cmp_sz :: "nat \<Rightarrow> u32 \<Rightarrow> u32 \<Rightarrow> u32 \<Rightarrow> u32" where
  "cmp_sz bits a b keep = (let res = (a - b) AND szmask bits in
     (keep AND CCR_X) OR flag (b > a) CCR_C OR
     flag ((a XOR b) AND (a XOR res) AND szmsb bits \<noteq> 0) CCR_V OR nz_sz bits res)"

text \<open>Logical results: V and C clear, X kept.\<close>

definition logic_sz :: "nat \<Rightarrow> u32 \<Rightarrow> u32 \<Rightarrow> u32" where
  "logic_sz bits res keep = (keep AND CCR_X) OR nz_sz bits res"

text \<open>Only the low \<open>bits\<close> bits of a register change.\<close>

definition merge :: "nat \<Rightarrow> u32 \<Rightarrow> u32 \<Rightarrow> u32" where
  "merge bits old res = (old AND NOT (szmask bits)) OR res"


subsection \<open>Exceptions\<close>

definition j5d_pack_sr :: "m68k \<Rightarrow> u16" where
  "j5d_pack_sr m = push_bit 8 (sr_high m) OR
     ((if ccr m AND CCR_C \<noteq> 0 then 0x01 else 0) OR (if ccr m AND CCR_V \<noteq> 0 then 0x02 else 0) OR
      (if ccr m AND CCR_Z \<noteq> 0 then 0x04 else 0) OR (if ccr m AND CCR_N \<noteq> 0 then 0x08 else 0) OR
      (if ccr m AND CCR_X \<noteq> 0 then 0x10 else 0))"

definition iunpack_sr :: "u16 \<Rightarrow> m68k \<Rightarrow> m68k" where
  "iunpack_sr sr m = m\<lparr>
     ccr := flag (sr AND 0x01 \<noteq> 0) CCR_C OR flag (sr AND 0x02 \<noteq> 0) CCR_V OR flag (sr AND 0x04 \<noteq> 0) CCR_Z OR
            flag (sr AND 0x08 \<noteq> 0) CCR_N OR flag (sr AND 0x10 \<noteq> 0) CCR_X,
     sr_high := drop_bit 8 sr AND 0xFF\<rparr>"

definition iread_vector :: "m68k \<Rightarrow> u32 \<Rightarrow> u32 option" where
  "iread_vector m vnum = (let va = VBR + vnum * 4 in
     if \<not> in_box m va 4 then None else Some (sb_read_be32 (hmem m) (hoff m va)))"

text \<open>The 6-byte frame: status register, then the return address.\<close>

definition push_frame :: "bytes \<Rightarrow> nat \<Rightarrow> u16 \<Rightarrow> u32 \<Rightarrow> bytes" where
  "push_frame b p sr rpc = sb_write_be32 (wr_be16 b p sr) (p + 2) rpc"

definition iraise :: "m68k \<Rightarrow> u32 \<Rightarrow> u32 \<Rightarrow> string + (m68k \<times> u32)" where
  "iraise m vnum return_pc =
     (case iread_vector m vnum of None \<Rightarrow> Inl ''exc: vector out of sandbox''
      | Some handler \<Rightarrow>
        let sr = j5d_pack_sr m; a7 = areg m 7 - 6 in
        if \<not> in_box m a7 6 then Inl ''exc: frame a7 out of sandbox''
        else
          let m1 = m\<lparr>hmem := push_frame (hmem m) (hoff m a7) sr return_pc\<rparr>;
              m2 = (set_a 7 a7 m1)\<lparr>sr_high := sr_high m OR drop_bit 8 SR_S, exc_count := exc_count m + 1\<rparr>;
              r = \<lparr>er_vector = ucast vnum, er_frame_sr = ucast sr, er_frame_pc = return_pc, er_a7 = a7, er_handler = handler\<rparr>
          in Inr (m2\<lparr>exlog := (case exlog m of None \<Rightarrow> None | Some l \<Rightarrow> if length l < MAX_EXC then Some (l @ [r]) else Some l)\<rparr>,
                  handler))"

text \<open>What every caller does with it.\<close>

definition raise_to :: "u32 \<Rightarrow> u32 \<Rightarrow> m68k \<Rightarrow> outcome" where
  "raise_to vnum return_pc m =
     (case iraise m vnum return_pc of Inl e \<Rightarrow> IFail e m | Inr (m', h) \<Rightarrow> Next (set_pc h m'))"

subsection \<open>Effective addresses\<close>

text \<open>The index part of an extension word: a data or address register, whole or its low word
  sign-extended.\<close>

definition brief_index :: "m68k \<Rightarrow> u16 \<Rightarrow> u32" where
  "brief_index m ext = (let rn = unat (drop_bit 12 ext AND 7);
     xn = (if ext AND 0x8000 \<noteq> 0 then areg m rn else dreg m rn)
   in if ext AND 0x0800 = 0 then sx16 (ucast xn) else xn)"

definition scaled_index :: "m68k \<Rightarrow> u16 \<Rightarrow> u32" where
  "scaled_index m ext = push_bit (unat (drop_bit 9 ext AND 3)) (brief_index m ext)"

text \<open>The indexed address as the instruction blocks compute it inline, and \<open>brief_ea_i\<close>, which
  refuses the 68020 full format.\<close>

definition brief_addr :: "m68k \<Rightarrow> u16 \<Rightarrow> u32 \<Rightarrow> u32" where
  "brief_addr m ext base = base + sx8 (ucast ext) + scaled_index m ext"

definition brief_ea_i :: "m68k \<Rightarrow> u16 \<Rightarrow> u32 \<Rightarrow> u32 option" where
  "brief_ea_i m ext base = (if ext AND 0x0100 \<noteq> 0 then None else Some (brief_addr m ext base))"

text \<open>A displacement of the full format: its value and the cursor after it, \<open>None\<close> when it runs off
  the sandbox.\<close>

definition ext_disp :: "m68k \<Rightarrow> nat \<Rightarrow> u32 \<Rightarrow> (u32 \<times> u32) option" where
  "ext_disp m sel cursor =
     (if sel = 2 then
        if unat cursor + 2 > unat (org m) + unat (msz m) then None
        else Some (sx16 (be16 (hmem m) (hoff m cursor)), cursor + 2)
      else if sel = 3 then
        if unat cursor + 4 > unat (org m) + unat (msz m) then None
        else Some (sb_read_be32 (hmem m) (hoff m cursor), cursor + 4)
      else Some (0, cursor))"

definition control_indexed_ea_i :: "m68k \<Rightarrow> u32 \<Rightarrow> (u32 \<times> u32) option" where
  "control_indexed_ea_i m base =
     (let pc = cpc m in
      if \<not> in_box m pc 4 then None
      else let ext = xw m 2 in
        if ext AND 0x0100 = 0 then
          (case brief_ea_i m ext base of None \<Rightarrow> None | Some r \<Rightarrow> Some (r, pc + 4))
        else if ext AND 0x0008 \<noteq> 0 then None
        else let bdsize = unat (drop_bit 4 ext AND 3) in
          if bdsize = 0 then None
          else case ext_disp m bdsize (pc + 4) of None \<Rightarrow> None | Some (bd, c1) \<Rightarrow>
            let iis = ext AND 7 in
            if iis = 4 then None
            else case ext_disp m (unat (iis AND 3)) c1 of None \<Rightarrow> None | Some (outer, c2) \<Rightarrow>
              let index = (if ext AND 0x0040 = 0 then scaled_index m ext else 0);
                  base1 = (if ext AND 0x0080 \<noteq> 0 then 0 else base) in
              if iis = 0 then Some (base1 + bd + index, c2)
              else let pointer = base1 + bd + (if iis AND 4 \<noteq> 0 then 0 else index) in
                if \<not> in_box m pointer 4 then None
                else Some (sb_read_be32 (hmem m) (hoff m pointer) + outer + (if iis AND 4 \<noteq> 0 then index else 0), c2))"

text \<open>The effective address of the modes with a memory operand, as the blocks that share one pattern
  compute it: \<open>k\<close> is the offset of the extension words from \<open>ip\<close>; the result is the address and the
  offset after them.\<close>

definition ea_d16 :: "m68k \<Rightarrow> nat \<Rightarrow> nat \<Rightarrow> u32 \<times> nat" where
  "ea_d16 m reg k = (areg m reg + sxw m k, k + 2)"

definition ea_idx :: "m68k \<Rightarrow> nat \<Rightarrow> nat \<Rightarrow> u32 \<times> nat" where
  "ea_idx m reg k = (brief_addr m (xw m k) (areg m reg), k + 2)"

definition ea_absw :: "m68k \<Rightarrow> nat \<Rightarrow> u32 \<times> nat" where
  "ea_absw m k = (sxw m k, k + 2)"

definition ea_absl :: "m68k \<Rightarrow> nat \<Rightarrow> u32 \<times> nat" where
  "ea_absl m k = (xl m k, k + 4)"

definition ea_pcd16 :: "m68k \<Rightarrow> nat \<Rightarrow> u32 \<times> nat" where
  "ea_pcd16 m k = (cpc m + of_nat k + sxw m k, k + 2)"

end
