(* ===== verification/M68kControl.thy ===== *)
theory M68kControl
  imports M68kCore "HOL-Library.Signed_Division"
begin

text \<open>
  The first blocks of \<open>j5d_interp_run\<close> in \<open>hosted/jit68k/j5d_interp.c\<close>, one definition for each
  \<open>if\<close> block, in the order of the chain: returns, the ALU operations with a memory source, the exception causes,
  the word divisions, the library bridge, the CCR moves, compare-and-swap, the calls and jumps and the stack frames.
\<close>

subsection \<open>Return and no-operation\<close>

definition i_rts :: handler where
  "i_rts op m =
     (if op \<noteq> 0x4E75 then Fall m
      else if areg m 7 \<ge> isp m then Exit (dreg m 0) m
      else let sp = areg m 7 in
        if \<not> in_box m sp 4 then IFail ''rts: a7 out of sandbox'' m
        else Next (set_a 7 (sp + 4) (set_pc (sb_read_be32 (hmem m) (hoff m sp)) m)))"

definition i_nop :: handler where
  "i_nop op m = (if op = 0x4E71 then Next (adv 2 m) else Fall m)"

subsection \<open>ALU with a memory source\<close>

definition alu_ea :: "m68k \<Rightarrow> nat \<Rightarrow> nat \<Rightarrow> nat \<Rightarrow> (u32 \<times> nat) option" where
  "alu_ea m mode reg step =
     (if mode = 2 \<or> mode = 3 then Some (areg m reg, 2)
      else if mode = 4 then Some (areg m reg - of_nat step, 2)
      else if mode = 5 then Some (ea_d16 m reg 2)
      else if mode = 6 then Some (ea_idx m reg 2)
      else if reg = 1 then Some (ea_absl m 2)
      else if reg = 3 then map_option (\<lambda>a. (a, 4)) (brief_ea_i m (xw m 2) (cpc m + 2))
      else Some (ea_pcd16 m 2))"

definition alu_op :: "u16 \<Rightarrow> nat \<Rightarrow> nat \<Rightarrow> u32 \<Rightarrow> m68k \<Rightarrow> m68k" where
  "alu_op line bits dn src m =
     (let a = dreg m dn AND szmask bits; b = src AND szmask bits in
      if line = 0xC000 \<or> line = 0x8000 then
        let res = (if line = 0xC000 then a AND b else a OR b) AND szmask bits
        in set_cc (logic_sz bits res (ccr m)) (set_d dn (merge bits (dreg m dn) res) m)
      else if line = 0xD000 then
        let (res, cc) = add_sz bits a b in set_cc cc (set_d dn (merge bits (dreg m dn) res) m)
      else if line = 0x9000 then
        let (res, cc) = sub_sz bits a b in set_cc cc (set_d dn (merge bits (dreg m dn) res) m)
      else set_cc (cmp_sz bits a b (ccr m)) m)"

definition i_alu_mem :: handler where
  "i_alu_mem op m =
     (let line = op AND 0xF000; opmode = fld 6 op; mode = fld 3 op; reg = fld 0 op;
          bits = (if opmode = 0 then 8 else if opmode = 1 then 16 else 32); step = bits div 8 in
      if \<not> ((line = 0xD000 \<or> line = 0x9000 \<or> line = 0xC000 \<or> line = 0x8000 \<or> line = 0xB000) \<and> opmode \<le> 2 \<and>
            (mode \<in> {2, 3, 4, 5, 6} \<or> mode = 7 \<and> reg \<in> {1, 2, 3})) then Fall m
      else case alu_ea m mode reg step of None \<Rightarrow> Fall m
      | Some (addr, k) \<Rightarrow>
          rdm bits m addr ''alu ea,Dn: address out of sandbox'' (\<lambda>src.
            let m1 = (if mode = 3 then set_a reg (areg m reg + of_nat step) m
                      else if mode = 4 then set_a reg (areg m reg - of_nat step) m else m)
            in Next (adv k (alu_op line bits (fld 9 op) src m1))))"

subsection \<open>Exceptions\<close>

definition i_rte :: handler where
  "i_rte op m =
     (if op \<noteq> 0x4E73 then Fall m
      else let a7 = areg m 7 in
        if \<not> in_box m a7 6 then IFail ''rte: frame a7 out of sandbox'' m
        else let sr = be16 (hmem m) (hoff m a7); rpc = sb_read_be32 (hmem m) (hoff m a7 + 2)
             in Next (set_pc rpc (iunpack_sr sr (set_a 7 (a7 + 6) m))))"

definition i_trap :: handler where
  "i_trap op m = (if op AND 0xFFF0 \<noteq> 0x4E40 then Fall m
     else raise_to (VEC_TRAP_BASE + ucast (op AND 0xF)) (cpc m + 2) m)"

definition i_illegal :: handler where
  "i_illegal op m = (if op \<noteq> 0x4AFC then Fall m else raise_to VEC_ILLEGAL (cpc m) m)"

subsection \<open>Word divisions\<close>

text \<open>The source operand: its value, the address of the next instruction, and the machine after the
  side effects of the addressing mode.\<close>

definition divw_ea :: "m68k \<Rightarrow> nat \<Rightarrow> nat \<Rightarrow> string + (u32 \<times> u32 \<times> m68k)" where
  "divw_ea m mode reg =
     (let full = ''divu/divs: 68020 full extension in oracle''; a = areg m reg in
      if mode = 2 then Inr (a, 2, m)
      else if mode = 3 then Inr (a, 2, set_a reg (a + 2) m)
      else if mode = 4 then Inr (a - 2, 2, set_a reg (a - 2) m)
      else if mode = 5 then Inr (a + sxw m 2, 4, m)
      else if mode = 6 then (case brief_ea_i m (xw m 2) a of None \<Rightarrow> Inl full | Some e \<Rightarrow> Inr (e, 4, m))
      else if mode = 7 \<and> reg = 0 then Inr (sxw m 2, 4, m)
      else if mode = 7 \<and> reg = 1 then Inr (xl m 2, 6, m)
      else if mode = 7 \<and> reg = 2 then Inr (cpc m + 2 + sxw m 2, 4, m)
      else if mode = 7 \<and> reg = 3 then (case brief_ea_i m (xw m 2) (cpc m + 2) of None \<Rightarrow> Inl full | Some e \<Rightarrow> Inr (e, 4, m))
      else Inl ''divu/divs: unsupported source EA in oracle'')"

definition divw_src :: "m68k \<Rightarrow> nat \<Rightarrow> nat \<Rightarrow> (string \<times> m68k) + (u32 \<times> u32 \<times> m68k)" where
  "divw_src m mode reg =
     (if mode = 0 then Inr (dreg m reg AND 0xFFFF, cpc m + 2, m)
      else if mode = 7 \<and> reg = 4 then Inr (ucast (xw m 2), cpc m + 4, m)
      else case divw_ea m mode reg of Inl e \<Rightarrow> Inl (e, m)
      | Inr (addr, len, m1) \<Rightarrow>
          (case mem_rd16 m1 addr of None \<Rightarrow> Inl (''divu/divs: source outside the sandbox'', m1)
           | Some v \<Rightarrow> Inr (ucast v, cpc m + len, m1)))"

text \<open>Quotient, remainder and overflow; the signed division is C's, truncating towards zero, on 64 bits.\<close>

definition divw :: "bool \<Rightarrow> u32 \<Rightarrow> u32 \<Rightarrow> u32 \<times> u32 \<times> bool" where
  "divw is_signed dividend divisor =
     (if is_signed then
        let x = sint dividend; y = sint (ucast divisor :: u16); q = x sdiv y; r = x smod y
        in (word_of_int q, word_of_int r, q < -32768 \<or> q > 32767)
      else let q = dividend div divisor in (q, dividend mod divisor, q > 0xFFFF))"

definition i_divw :: handler where
  "i_divw op m =
     (if op AND 0xF1C0 \<noteq> 0x80C0 \<and> op AND 0xF1C0 \<noteq> 0x81C0 then Fall m
      else case divw_src m (fld 3 op) (fld 0 op) of Inl (e, m1) \<Rightarrow> IFail e m1
      | Inr (divisor, after, m1) \<Rightarrow>
          if divisor = 0 then raise_to VEC_DIV_BY_ZERO after m1
          else let dn = fld 9 op; cc = ccr m1 AND CCR_X;
                   (quot, rem, ovf) = divw (op AND 0xF1C0 = 0x81C0) (dreg m1 dn) divisor
            in if ovf then Next (set_pc after (set_cc (cc OR CCR_V) m1))
               else Next (set_pc after (set_cc (cc OR nz_sz 16 (quot AND 0xFFFF))
                      (set_d dn (push_bit 16 (rem AND 0xFFFF) OR (quot AND 0xFFFF)) m1))))"

subsection \<open>The library bridge\<close>

text \<open>\<open>lvo n m\<close> is the caller's bridge: whether it failed, and the machine it leaves. The local
  variables of the interpreter are out of its reach.\<close>

type_synonym bridge = "nat \<Rightarrow> m68k \<Rightarrow> bool \<times> m68k"

definition i_lvo :: "bridge option \<Rightarrow> handler" where
  "i_lvo lvo op m =
     (if op \<noteq> 0x4EAE then Fall m
      else let target = areg m 6 + sxw m 2; delta = areg m 6 - target in
        if target > areg m 6 then IFail ''jsr(A6) target above libbase'' m
        else if delta mod 6 \<noteq> 0 then IFail ''jsr(A6) not on a 6-byte vector'' m
        else case lvo of None \<Rightarrow> IFail ''jsr(A6) but no bridge'' m
        | Some f \<Rightarrow>
            let (failed, m') = f (unat (delta div 6)) m; m1 = m'\<lparr>cpc := cpc m, isp := isp m\<rparr>
            in if failed then IFail ''bridge'' m1 else Next (adv 4 m1))"

subsection \<open>CCR moves\<close>

definition i_ccr_moves :: handler where
  "i_ccr_moves op m =
     (let n = fld 0 op in
      if op AND 0xFFF8 = 0x42C0 then
        Next (adv 2 (set_d n ((dreg m n AND 0xFFFF0000) OR (ccr m AND 0x1F)) m))
      else if op AND 0xFFF8 = 0x44C0 then Next (adv 2 (set_cc (dreg m n AND 0x1F) m))
      else if op AND 0xFFF8 = 0x42E0 then
        wrm 16 m (areg m n - 2) (ccr m AND 0x1F) ''move.w ccr,-(An): address out of sandbox''
          (\<lambda>m'. Next (adv 2 (set_a n (areg m n - 2) m')))
      else if op AND 0xFFF8 = 0x44D8 then
        rdm 16 m (areg m n) ''move.w (An)+,ccr: address out of sandbox''
          (\<lambda>v. Next (adv 2 (set_a n (areg m n + 2) (set_cc (v AND 0x1F) m))))
      else Fall m)"

subsection \<open>Read-modify-write\<close>

definition i_addsubi_mem :: handler where
  "i_addsubi_mem op m =
     (if op AND 0xFFF8 \<noteq> 0x0690 \<and> op AND 0xFFF8 \<noteq> 0x0490 then Fall m
      else let addr = areg m (fld 0 op); b = xl m 2 in
        rdm 32 m addr ''addi/subi.l (An): address out of sandbox'' (\<lambda>a.
          let (res, cc) = (if op AND 0x0F00 = 0x0600 then add_l a b else sub_l a b)
          in wrm 32 m addr res ''addi/subi.l (An): store out of sandbox'' (\<lambda>m'. Next (adv 6 (set_cc cc m')))))"

definition i_cas :: handler where
  "i_cas op m =
     (if op AND 0xFDF8 \<noteq> 0x0CD0 \<and> op AND 0xFFF8 \<noteq> 0x0AD0 then Fall m
      else let bits = (if op AND 0xFF00 = 0x0A00 then 8 else if op AND 0xFF00 = 0x0C00 then 16 else 32);
               ext = xw m 2; du = fld 6 ext; dc = fld 0 ext; addr = areg m (fld 0 op) in
        rdm bits m addr ''cas: address out of sandbox'' (\<lambda>mm.
          let c = dreg m dc AND szmask bits; v = mm AND szmask bits; res = (c - v) AND szmask bits;
              m1 = set_cc (cmp_sz bits c v (ccr m)) m
          in if res = 0 then
               wrm bits m1 addr (dreg m du AND szmask bits) ''cas: store out of sandbox'' (\<lambda>m'. Next (adv 4 m'))
             else Next (adv 4 (set_d dc (if bits = 32 then mm else merge bits (dreg m dc) v) m1))))"

subsection \<open>Calls and jumps\<close>

text \<open>Push the return address and go to the target.\<close>

definition jsr_to :: "string \<Rightarrow> u32 \<Rightarrow> u32 \<Rightarrow> m68k \<Rightarrow> outcome" where
  "jsr_to msg target ret m = (let sp = areg m 7 - 4 in
     wrm 32 m sp ret msg (\<lambda>m'. Next (set_pc target (set_a 7 sp m'))))"

definition i_jsr :: handler where
  "i_jsr op m =
     (if op = 0x4EB9 then jsr_to ''jsr abs.l: a7 out of sandbox'' (xl m 2) (cpc m + 6) m
      else if op AND 0xFFF8 = 0x4E90 then jsr_to ''jsr (An): a7 out of sandbox'' (areg m (fld 0 op)) (cpc m + 2) m
      else if op AND 0xFFF8 = 0x4EB0 then
        (case control_indexed_ea_i m (areg m (fld 0 op)) of
           None \<Rightarrow> IFail ''jsr indexed: invalid full extension'' m
         | Some (target, after) \<Rightarrow> jsr_to ''jsr indexed: a7 out of sandbox'' target after m)
      else Fall m)"

definition i_jmp :: handler where
  "i_jmp op m =
     (if op = 0x4EF9 then Next (set_pc (xl m 2) m)
      else if op AND 0xFFF8 = 0x4ED0 then Next (set_pc (areg m (fld 0 op)) m)
      else if op AND 0xFFF8 = 0x4EF0 then
        (case control_indexed_ea_i m (areg m (fld 0 op)) of
           None \<Rightarrow> IFail ''jmp indexed: invalid full extension'' m
         | Some (target, after) \<Rightarrow> Next (set_pc target m))
      else Fall m)"

definition i_pcrel :: handler where
  "i_pcrel op m =
     (if op = 0x4EBA then jsr_to ''jsr (d16,PC): a7 out of sandbox'' (cpc m + 2 + sxw m 2) (cpc m + 4) m
      else if op = 0x4EFA then Next (set_pc (cpc m + 2 + sxw m 2) m)
      else Fall m)"

subsection \<open>Stack frames\<close>

definition i_link :: handler where
  "i_link op m =
     (if op AND 0xFFF8 \<noteq> 0x4E50 then Fall m
      else let an = fld 0 op; sp = areg m 7 - 4 in
        wrm 32 m sp (areg m an) ''link: a7 out of sandbox''
          (\<lambda>m'. Next (adv 4 (set_a 7 (sp + sxw m 2) (set_a an sp m')))))"

definition i_unlk :: handler where
  "i_unlk op m =
     (if op AND 0xFFF8 \<noteq> 0x4E58 then Fall m
      else let an = fld 0 op; sp = areg m an in
        rdm 32 m sp ''unlk: frame pointer out of sandbox''
          (\<lambda>v. Next (adv 2 (set_a 7 (sp + 4) (set_a an v m)))))"

definition control_blocks :: "bridge option \<Rightarrow> handler list" where
  "control_blocks lvo = [i_rts, i_nop, i_alu_mem, i_rte, i_trap, i_illegal, i_divw, i_lvo lvo, i_ccr_moves,
     i_addsubi_mem, i_cas, i_jsr, i_jmp, i_pcrel, i_link, i_unlk]"

end
