(* ===== verification/M68kAlu.thy ===== *)
theory M68kAlu
  imports M68kControl
begin

text \<open>
  The second group of blocks of \<open>j5d_interp_run\<close>: the immediate and register ALU operations, clear
  and test, the loads of addresses, the multi-precision ADDX and SUBX, comparisons, the quick forms
  and the conditional branches, integer and floating point. The order is that of the chain.
\<close>

text \<open>Immediate operands: the low byte or the whole of the word at \<open>ip + k\<close>.\<close>

definition imm8 :: "m68k \<Rightarrow> nat \<Rightarrow> u32" where "imm8 m k = ucast (xw m k) AND 0xFF"
definition imm16 :: "m68k \<Rightarrow> nat \<Rightarrow> u32" where "imm16 m k = ucast (xw m k)"

text \<open>Write a sized result to a data register and set the condition codes.\<close>

definition put_d :: "nat \<Rightarrow> nat \<Rightarrow> u32 \<times> u32 \<Rightarrow> m68k \<Rightarrow> m68k" where
  "put_d bits n rc m = (case rc of (res, cc) \<Rightarrow> set_cc cc (set_d n (merge bits (dreg m n) res) m))"

definition low :: "nat \<Rightarrow> m68k \<Rightarrow> nat \<Rightarrow> u32" where "low bits m n = dreg m n AND szmask bits"

definition put_logic :: "nat \<Rightarrow> nat \<Rightarrow> u32 \<Rightarrow> m68k \<Rightarrow> m68k" where
  "put_logic bits n res m = put_d bits n (res, logic_sz bits res (ccr m)) m"

subsection \<open>Immediate forms\<close>

definition i_movea_w_imm :: handler where
  "i_movea_w_imm op m =
     (if op AND 0xF1FF = 0x307C \<and> fld 6 op = 1 then Next (adv 4 (set_a (fld 9 op) (sxw m 2) m)) else Fall m)"

definition i_addsubi_b :: handler where
  "i_addsubi_b op m =
     (if op AND 0xFDF8 \<noteq> 0x0400 then Fall m
      else let dn = fld 0 op; a = low 8 m dn; b = imm8 m 2 in
        Next (adv 4 (put_d 8 dn (if op AND 0x0200 \<noteq> 0 then add_sz 8 a b else sub_sz 8 a b) m)))"

definition i_addsub_b_imm :: handler where
  "i_addsub_b_imm op m =
     (if op AND 0xB1FF \<noteq> 0x903C then Fall m
      else let dn = fld 9 op; a = low 8 m dn; b = imm8 m 2 in
        Next (adv 4 (put_d 8 dn (if op AND 0x4000 \<noteq> 0 then add_sz 8 a b else sub_sz 8 a b) m)))"

definition i_logic_imm :: handler where
  "i_logic_imm op m = (let dn = fld 0 op in
     if op AND 0xFFF8 = 0x0A40 then Next (adv 4 (put_logic 16 dn (low 16 m dn XOR imm16 m 2) m))
     else if op AND 0xFFF8 = 0x0A00 then Next (adv 4 (put_logic 8 dn (low 8 m dn XOR imm8 m 2) m))
     else if op AND 0xFFF8 = 0x0240 then Next (adv 4 (put_logic 16 dn (low 16 m dn AND imm16 m 2) m))
     else Fall m)"

text \<open>Clear and test of a memory longword.\<close>

definition clr_cc :: "m68k \<Rightarrow> u32" where "clr_cc m = (ccr m AND CCR_X) OR CCR_Z"

definition i_clr_mem :: handler where
  "i_clr_mem op m = (let an = fld 0 op; a = areg m an in
     if op AND 0xFFF8 = 0x42A0 then
       wrm 32 m (a - 4) 0 ''clr.l -(An): address out of sandbox''
         (\<lambda>m'. Next (adv 2 (set_cc (clr_cc m) (set_a an (a - 4) m'))))
     else if op AND 0xFFF8 = 0x4290 then
       wrm 32 m a 0 ''clr.l (An): address out of sandbox'' (\<lambda>m'. Next (adv 2 (set_cc (clr_cc m) m')))
     else if op AND 0xFFF8 = 0x42A8 then
       wrm 32 m (a + sxw m 2) 0 ''clr.l (d16,An): address out of sandbox''
         (\<lambda>m'. Next (adv 4 (set_cc (clr_cc m) m')))
     else Fall m)"

definition i_tst_clr_abs :: handler where
  "i_tst_clr_abs op m =
     (if op AND 0xFFF8 = 0x4AA8 then
        rdm 32 m (areg m (fld 0 op) + sxw m 2) ''tst.l (d16,An): address out of sandbox''
          (\<lambda>v. Next (adv 4 (set_cc (nz32 v (ccr m AND CCR_X)) m)))
      else if op = 0x4AB9 then
        rdm 32 m (xl m 2) ''tst.l abs.l: address out of sandbox''
          (\<lambda>v. Next (adv 6 (set_cc (nz32 v (ccr m AND CCR_X)) m)))
      else if op = 0x42B9 then
        wrm 32 m (xl m 2) 0 ''clr.l abs.l: address out of sandbox'' (\<lambda>m'. Next (adv 6 (set_cc (clr_cc m) m')))
      else Fall m)"

subsection \<open>Register moves and address computation\<close>

definition i_moveq :: handler where
  "i_moveq op m =
     (if op AND 0xF100 \<noteq> 0x7000 then Fall m
      else let v = sx8 (ucast op) in Next (adv 2 (set_cc (logic_ccr v (ccr m)) (set_d (fld 9 op) v m))))"

definition i_move_l_reg :: handler where
  "i_move_l_reg op m = (let n = fld 9 op; s = fld 0 op in
     if op AND 0xF1FF = 0x203C then
       Next (adv 6 (set_cc (nz32 (xl m 2) (ccr m AND CCR_X)) (set_d n (xl m 2) m)))
     else if op AND 0xF1FF = 0x207C then Next (adv 6 (set_a n (xl m 2) m))
     else if op AND 0xF1F8 = 0x2000 then
       Next (adv 2 (set_cc (nz32 (dreg m s) (ccr m AND CCR_X)) (set_d n (dreg m s) m)))
     else if op AND 0xF1F8 = 0x2040 then Next (adv 2 (set_a n (dreg m s) m))
     else if op AND 0xF1F8 = 0x2048 then Next (adv 2 (set_a n (areg m s) m))
     else Fall m)"

text \<open>The indexed form adds the index without the scale bits of its extension word.\<close>

definition i_lea :: handler where
  "i_lea op m = (let n = fld 9 op; s = fld 0 op in
     if op AND 0xF1FF = 0x41F9 then Next (adv 6 (set_a n (xl m 2) m))
     else if op AND 0xF1FF = 0x41FA then Next (adv 4 (set_a n (cpc m + 2 + sxw m 2) m))
     else if op AND 0xF1F8 = 0x41E8 then Next (adv 4 (set_a n (areg m s + sxw m 2) m))
     else if op AND 0xF1F8 = 0x41F0 then
       Next (adv 4 (set_a n (areg m s + sx8 (ucast (xw m 2)) + brief_index m (xw m 2)) m))
     else Fall m)"

subsection \<open>Multi-precision addition and subtraction\<close>

definition xbit :: "m68k \<Rightarrow> u32" where "xbit m = (if ccr m AND CCR_X \<noteq> 0 then 1 else 0)"

definition szbits :: "u16 \<Rightarrow> nat" where
  "szbits op = (let sz = drop_bit 6 op AND 3 in if sz = 0 then 8 else if sz = 1 then 16 else 32)"

definition i_addx :: handler where
  "i_addx op m =
     (if op AND 0xF138 \<noteq> 0xD100 then Fall m
      else let dx = fld 9 op; bits = szbits op; a = low bits m dx; b = low bits m (fld 0 op);
               s = ucast a + ucast b + ucast (xbit m) :: u64; res = ucast s AND szmask bits;
               carry = drop_bit bits s AND 1 \<noteq> 0;
               overflow = (a XOR res) AND (b XOR res) AND szmsb bits \<noteq> 0
        in Next (adv 2 (put_d bits dx (res, sized_x_ccr res bits carry overflow (ccr m)) m)))"

definition i_addsub_l_imm :: handler where
  "i_addsub_l_imm op m = (let dn = fld 9 op in
     if op AND 0xF1FF = 0xD0BC then Next (adv 6 (put_d 32 dn (add_l (dreg m dn) (xl m 2)) m))
     else if op AND 0xF1FF = 0x90BC then Next (adv 6 (put_d 32 dn (sub_l (dreg m dn) (xl m 2)) m))
     else if op AND 0xF1FF = 0xB0BC then Next (adv 6 (set_cc (cmp_sz 32 (dreg m dn) (xl m 2) (ccr m)) m))
     else Fall m)"

definition i_add_l :: handler where
  "i_add_l op m = (let dn = fld 9 op; s = fld 0 op; addr = areg m s in
     if op AND 0xF1F8 = 0xD080 then Next (adv 2 (put_d 32 dn (add_l (dreg m dn) (dreg m s)) m))
     else if op AND 0xF1F8 = 0xD088 then Next (adv 2 (put_d 32 dn (add_l (dreg m dn) (areg m s)) m))
     else if op AND 0xF1F8 = 0xD098 then
       rdm 32 m addr ''add.l (An)+ address out of sandbox''
         (\<lambda>b. Next (adv 2 (set_a s (addr + 4) (put_d 32 dn (add_l (dreg m dn) b) m))))
     else if op AND 0xF1F8 = 0xD090 then
       rdm 32 m addr ''add.l (An): address out of sandbox''
         (\<lambda>b. Next (adv 2 (put_d 32 dn (add_l (dreg m dn) b) m)))
     else Fall m)"

definition i_subx :: handler where
  "i_subx op m =
     (if op AND 0xF138 \<noteq> 0x9100 then Fall m
      else let dx = fld 9 op; bits = szbits op; a = low bits m dx; b = low bits m (fld 0 op);
               diff = ucast a - ucast b - ucast (xbit m) :: u64; res = ucast diff AND szmask bits;
               borrow = (ucast b :: u64) + ucast (xbit m) > ucast a;
               overflow = (a XOR b) AND (a XOR res) AND szmsb bits \<noteq> 0
        in Next (adv 2 (put_d bits dx (res, sized_x_ccr res bits borrow overflow (ccr m)) m)))"

definition i_addsub_bw :: handler where
  "i_addsub_bw op m =
     (if op AND 0xF1F8 \<notin> {0xD000, 0xD040, 0x9000, 0x9040} then Fall m
      else let dn = fld 9 op; bits = (if drop_bit 6 op AND 3 = 0 then 8 else 16);
               a = low bits m dn; b = low bits m (fld 0 op)
        in Next (adv 2 (put_d bits dn (if op AND 0xF000 = 0xD000 then add_sz bits a b else sub_sz bits a b) m)))"

definition i_addsub_l_d16 :: handler where
  "i_addsub_l_d16 op m = (let dn = fld 9 op; s = fld 0 op; addr = areg m s + sxw m 2 in
     if op AND 0xF1F8 = 0x9080 then Next (adv 2 (put_d 32 dn (sub_l (dreg m dn) (dreg m s)) m))
     else if op AND 0xF1F8 = 0x90A8 then
       rdm 32 m addr ''sub.l (d16,An): address out of sandbox''
         (\<lambda>b. Next (adv 4 (put_d 32 dn (sub_l (dreg m dn) b) m)))
     else if op AND 0xF1F8 = 0xD0A8 then
       rdm 32 m addr ''add.l (d16,An): address out of sandbox''
         (\<lambda>b. Next (adv 4 (put_d 32 dn (add_l (dreg m dn) b) m)))
     else Fall m)"

definition i_scc :: handler where
  "i_scc op m =
     (if op AND 0xF0F8 \<noteq> 0x50C0 then Fall m
      else let cc4 = unat (drop_bit 8 op AND 0xF); dn = fld 0 op;
               t = (if cc4 = 0 then True else if cc4 = 1 then False else bcc_taken cc4 (ccr m))
        in Next (adv 2 (set_d dn (merge 8 (dreg m dn) (if t then 0xFF else 0x00)) m)))"

subsection \<open>Comparison with an immediate and sized logic\<close>

definition i_and_l_imm :: handler where
  "i_and_l_imm op m = (let dn = fld 9 op; res = dreg m dn AND xl m 2 in
     if op AND 0xF1FF = 0xC0BC then Next (adv 6 (set_cc (nz32 res (ccr m AND CCR_X)) (set_d dn res m)))
     else Fall m)"

definition i_cmpi_b :: handler where
  "i_cmpi_b op m = (let dn = fld 0 op in
     if op AND 0xFFF8 = 0x0C00 then Next (adv 4 (set_cc (cmp_sz 8 (low 8 m dn) (imm8 m 2) (ccr m)) m))
     else Fall m)"

text \<open>The immediate comes first, then the extension words of the address.\<close>

definition i_cmpi_mem :: handler where
  "i_cmpi_mem op m =
     (let mode = fld 3 op; reg = fld 0 op; bits = szbits op in
      if op AND 0xFF00 = 0x0C00 \<and> drop_bit 6 op AND 3 \<noteq> 3 \<and> (mode \<in> {2, 3, 6} \<or> mode = 7 \<and> reg = 1) then
        let (imm, k) = (if bits = 8 then (imm8 m 2, 4) else if bits = 16 then (imm16 m 2, 4) else (xl m 2, 6));
            (addr, k') = (if mode = 2 \<or> mode = 3 then (areg m reg, k)
                          else if mode = 6 then ea_idx m reg k else ea_absl m k)
        in rdm bits m addr ''cmpi ea: address out of sandbox'' (\<lambda>a.
             let m1 = (if mode = 3 then set_a reg (areg m reg + of_nat (bits div 8)) m else m)
             in Next (adv k' (set_cc (cmp_sz bits (a AND szmask bits) (imm AND szmask bits) (ccr m)) m1)))
      else Fall m)"

definition i_logic_imm_dn :: handler where
  "i_logic_imm_dn op m = (let dn = fld 9 op in
     if op AND 0xFFF8 = 0x0C40 then
       Next (adv 4 (set_cc (cmp_sz 16 (low 16 m (fld 0 op)) (imm16 m 2) (ccr m)) m))
     else if op AND 0xF1FF = 0xC07C \<or> op AND 0xF1FF = 0x807C then
       Next (adv 4 (put_logic 16 dn (if op AND 0xF000 = 0xC000 then low 16 m dn AND imm16 m 2
                                     else low 16 m dn OR imm16 m 2) m))
     else if op AND 0xF1FF = 0xC03C then Next (adv 4 (put_logic 8 dn (low 8 m dn AND imm8 m 2) m))
     else if op AND 0xF1FF = 0x803C then Next (adv 4 (put_logic 8 dn (low 8 m dn OR imm8 m 2) m))
     else if op AND 0xF1FF = 0x80BC then
       Next (adv 6 (set_cc (nz32 (dreg m dn OR xl m 2) (ccr m AND CCR_X)) (set_d dn (dreg m dn OR xl m 2) m)))
     else Fall m)"

definition i_logic_reg :: handler where
  "i_logic_reg op m = (let dn = fld 9 op; dm = fld 0 op in
     if op AND 0xF1F8 \<in> {0xC000, 0xC040, 0x8000, 0x8040} then
       let bits = (if drop_bit 6 op AND 3 = 0 then 8 else 16)
       in Next (adv 2 (put_logic bits dn
            (if op AND 0xF000 = 0xC000 then dreg m dn AND dreg m dm AND szmask bits
             else (dreg m dn OR dreg m dm) AND szmask bits) m))
     else if op AND 0xF1F8 = 0xC080 then
       let res = dreg m dn AND dreg m dm in Next (adv 2 (set_cc (nz32 res (ccr m AND CCR_X)) (set_d dn res m)))
     else if op AND 0xF1F8 = 0x8080 then
       let res = dreg m dn OR dreg m dm in Next (adv 2 (set_cc (nz32 res (ccr m AND CCR_X)) (set_d dn res m)))
     else if op AND 0xF1F8 = 0xB180 then
       let res = dreg m dm XOR dreg m dn in Next (adv 2 (set_cc (nz32 res (ccr m AND CCR_X)) (set_d dm res m)))
     else if op AND 0xF1F8 = 0xB080 then
       Next (adv 2 (set_cc (cmp_sz 32 (dreg m dn) (dreg m dm) (ccr m)) m))
     else Fall m)"

text \<open>The mask tests neither the addressing mode nor the operand: the low three bits are always taken
  as a data register.\<close>

definition i_muls_w :: handler where
  "i_muls_w op m =
     (if op AND 0xF1C0 \<noteq> 0xC1C0 then Fall m
      else let dn = fld 9 op; res = sx16 (ucast (dreg m dn)) * sx16 (ucast (dreg m (fld 0 op)))
        in Next (adv 2 (set_cc (nz32 res (ccr m AND CCR_X)) (set_d dn res m))))"

subsection \<open>Quick forms\<close>

definition quick :: "u16 \<Rightarrow> u32" where
  "quick op = (let q = drop_bit 9 op AND 7 in if q = 0 then 8 else ucast q)"

definition i_quick_l :: handler where
  "i_quick_l op m = (let n = fld 0 op in
     if op AND 0xF1F8 = 0x5088 then Next (adv 2 (set_a n (areg m n + quick op) m))
     else if op AND 0xF1F8 = 0x5188 then Next (adv 2 (set_a n (areg m n - quick op) m))
     else if op AND 0xF1F8 = 0x5080 then Next (adv 2 (put_d 32 n (add_l (dreg m n) (quick op)) m))
     else if op AND 0xF1F8 = 0x5180 then Next (adv 2 (put_d 32 n (sub_l (dreg m n) (quick op)) m))
     else Fall m)"

subsection \<open>Branches\<close>

text \<open>Target and next instruction of the three displacement widths.\<close>

definition branch_target :: "u16 \<Rightarrow> m68k \<Rightarrow> u32 \<times> u32" where
  "branch_target op m = (let disp8 = ucast op :: u8; base = cpc m + 2 in
     if disp8 = 0 then (base + sxw m 2, cpc m + 4)
     else if disp8 = 0xFF then (base + xl m 2, cpc m + 6)
     else (base + sx8 disp8, cpc m + 2))"

definition i_bcc :: handler where
  "i_bcc op m =
     (if op AND 0xF000 \<noteq> 0x6000 then Fall m
      else let cc4 = unat (drop_bit 8 op AND 0xF); (target, after) = branch_target op m in
        if cc4 = 1 then jsr_to ''bsr: a7 out of sandbox'' target after m
        else Next (set_pc (if (if cc4 = 0 then True else bcc_taken cc4 (ccr m)) then target else after) m))"

definition FPSR_N :: u32 where "FPSR_N = 0x08000000"
definition FPSR_Z :: u32 where "FPSR_Z = 0x04000000"
definition FPSR_NAN :: u32 where "FPSR_NAN = 0x01000000"
definition FPSR_BSUN :: u32 where "FPSR_BSUN = 0x00008000"
definition FPSR_AIOP :: u32 where "FPSR_AIOP = 0x00000080"
definition VEC_FP_BSUN :: u32 where "VEC_FP_BSUN = 48"

definition j5q_fp_cond_taken :: "u16 \<Rightarrow> u32 \<Rightarrow> bool" where
  "j5q_fp_cond_taken predicate f =
     (let N = f AND FPSR_N \<noteq> 0; Z = f AND FPSR_Z \<noteq> 0; U = f AND FPSR_NAN \<noteq> 0; p = predicate AND 0x0F in
      if p = 0x0 then False else if p = 0x1 then Z
      else if p = 0x2 then \<not> U \<and> \<not> Z \<and> \<not> N else if p = 0x3 then Z \<or> \<not> N \<and> \<not> U
      else if p = 0x4 then N \<and> \<not> U \<and> \<not> Z else if p = 0x5 then Z \<or> N \<and> \<not> U
      else if p = 0x6 then \<not> U \<and> \<not> Z else if p = 0x7 then \<not> U
      else if p = 0x8 then U else if p = 0x9 then Z \<or> U
      else if p = 0xA then U \<or> \<not> N \<and> \<not> Z else if p = 0xB then U \<or> Z \<or> \<not> N
      else if p = 0xC then U \<or> N \<and> \<not> Z else if p = 0xD then U \<or> Z \<or> N
      else if p = 0xE then \<not> Z else True)"

text \<open>BSUN: \<open>k\<close> is the instruction proper, which a taken trap supersedes. The callers take a handler address of
  0xFFFFFFFF for the failure mark and leave with 1 and no message.\<close>

definition j5s_bsun :: "u16 \<Rightarrow> u32 \<Rightarrow> m68k \<Rightarrow> (m68k \<Rightarrow> outcome) \<Rightarrow> outcome" where
  "j5s_bsun pred return_pc m k =
     (if \<not> (pred AND 0x10 \<noteq> 0 \<and> fpsr m AND FPSR_NAN \<noteq> 0) then k m
      else let m1 = m\<lparr>fpsr := fpsr m OR FPSR_BSUN OR FPSR_AIOP\<rparr> in
        if fpcr m AND FPSR_BSUN = 0 then k m1
        else case iraise m1 VEC_FP_BSUN return_pc of Inl e \<Rightarrow> IFail e m1
        | Inr (m', h) \<Rightarrow> if h = 0xFFFFFFFF then IFail [] m' else Next (set_pc h m'))"

definition i_fdbcc :: handler where
  "i_fdbcc op m =
     (if op AND 0xFFF8 \<noteq> 0xF248 then Fall m
      else let dn = fld 0 op; pred = xw m 2 AND 0x3F; after = cpc m + 6; target = cpc m + 4 + sxw m 4 in
        j5s_bsun pred after m (\<lambda>m.
          if j5q_fp_cond_taken pred (fpsr m) then Next (set_pc after m)
          else let cnt = (dreg m dn - 1) AND 0xFFFF
               in Next (set_pc (if cnt = 0xFFFF then after else target)
                    (set_d dn ((dreg m dn AND 0xFFFF0000) OR cnt) m))))"

definition i_ftrapcc :: handler where
  "i_ftrapcc op m =
     (if op AND 0xFFF8 \<noteq> 0xF278 then Fall m
      else let mode = fld 0 op; pred = xw m 2 AND 0x3F;
               after = cpc m + 4 + (if mode = 2 then 2 else if mode = 3 then 4 else 0) in
        j5s_bsun pred after m (\<lambda>m.
          if j5q_fp_cond_taken pred (fpsr m) then raise_to VECTOR_TRAPcc after m else Next (set_pc after m)))"

definition i_fscc :: handler where
  "i_fscc op m =
     (if op AND 0xFFC0 \<noteq> 0xF240 then Fall m
      else let mode = fld 3 op; n = fld 0 op; pred = xw m 2 AND 0x3F; d16 = sxw m 4;
               after = cpc m + 4 + (if mode = 5 then 2 else 0) in
        j5s_bsun pred after m (\<lambda>m.
          let v = (if j5q_fp_cond_taken pred (fpsr m) then 0xFF else 0x00) in
          if mode = 0 then Next (set_pc after (set_d n (merge 8 (dreg m n) v) m))
          else if mode = 2 then
            wrm 8 m (areg m n) v ''FScc (An) destination out of sandbox'' (\<lambda>m'. Next (set_pc after m'))
          else if mode = 5 then
            wrm 8 m (areg m n + d16) v ''FScc (d16,An) destination out of sandbox'' (\<lambda>m'. Next (set_pc after m'))
          else IFail ''FScc destination EA mode not in the [J5q] subset'' m))"

definition i_fbcc :: handler where
  "i_fbcc op m =
     (if op AND 0xFF80 \<noteq> 0xF280 then Fall m
      else let pred = op AND 0x3F;
               (disp, after) = (if op AND 0x40 \<noteq> 0 then (xl m 2, cpc m + 6) else (sxw m 2, cpc m + 4));
               target = cpc m + 2 + disp in
        j5s_bsun pred after m (\<lambda>m. Next (set_pc (if j5q_fp_cond_taken pred (fpsr m) then target else after) m)))"

definition alu_blocks :: "handler list" where
  "alu_blocks = [i_movea_w_imm, i_addsubi_b, i_addsub_b_imm, i_logic_imm, i_clr_mem, i_tst_clr_abs, i_moveq,
     i_move_l_reg, i_lea, i_addx, i_addsub_l_imm, i_add_l, i_subx, i_addsub_bw, i_addsub_l_d16, i_scc,
     i_and_l_imm, i_cmpi_b, i_cmpi_mem, i_logic_imm_dn, i_logic_reg, i_muls_w, i_quick_l, i_bcc,
     i_fdbcc, i_ftrapcc, i_fscc, i_fbcc]"

end
