(* ===== verification/M68kMove.thy ===== *)
theory M68kMove
  imports M68kAlu
begin

text \<open>
  The third group of blocks of \<open>j5d_interp_run\<close>: the longword MOVE with its addressing modes, the
  immediate operations of line 0, MOVEM, the single-register operations of line 4 and the shifts
  and rotates.
\<close>

subsection \<open>MOVE.L\<close>

text \<open>A source operand: no such mode in the block, an access outside the sandbox, or the value, the
  offset of the next extension word and the machine after the mode's side effects.\<close>

datatype operand = NoMode m68k | OutOfBox m68k | Operand u32 nat m68k

definition load_l :: "m68k \<Rightarrow> u32 \<times> nat \<Rightarrow> operand" where
  "load_l m ak = (case mem_rd32 m (fst ak) of None \<Rightarrow> OutOfBox m | Some v \<Rightarrow> Operand v (snd ak) m)"

definition move_l_src :: "m68k \<Rightarrow> nat \<Rightarrow> nat \<Rightarrow> operand" where
  "move_l_src m mode reg =
     (let a = areg m reg in
      if mode = 0 then Operand (dreg m reg) 2 m
      else if mode = 1 then Operand a 2 m
      else if mode = 2 then load_l m (a, 2)
      else if mode = 3 then
        (case mem_rd32 m a of None \<Rightarrow> OutOfBox m | Some v \<Rightarrow> Operand v 2 (set_a reg (a + 4) m))
      else if mode = 4 then load_l (set_a reg (a - 4) m) (a - 4, 2)
      else if mode = 6 then load_l m (ea_idx m reg 2)
      else if mode = 5 then load_l m (ea_d16 m reg 2)
      else if mode = 7 \<and> reg = 0 then load_l m (ea_absw m 2)
      else if mode = 7 \<and> reg = 1 then load_l m (ea_absl m 2)
      else if mode = 7 \<and> reg = 2 then load_l m (ea_pcd16 m 2)
      else if mode = 7 \<and> reg = 3 then
        (case brief_ea_i m (xw m 2) (cpc m + 2) of None \<Rightarrow> NoMode m | Some e \<Rightarrow> load_l m (e, 4))
      else if mode = 7 \<and> reg = 4 then Operand (xl m 2) 6 m
      else NoMode m)"

text \<open>A store: the condition codes are set whether or not the address is inside.\<close>

definition store_l :: "m68k \<Rightarrow> u32 \<Rightarrow> u32 \<Rightarrow> nat \<Rightarrow> (m68k \<Rightarrow> m68k) \<Rightarrow> outcome" where
  "store_l m a v k post =
     (let cc = logic_ccr v (ccr m) in
      case mem_wr32 m a v of None \<Rightarrow> IFail ''move.l EA access out of sandbox'' (set_cc cc m)
      | Some m' \<Rightarrow> Next (adv k (set_cc cc (post m'))))"

definition move_l_dst :: "m68k \<Rightarrow> nat \<Rightarrow> nat \<Rightarrow> u32 \<Rightarrow> nat \<Rightarrow> outcome" where
  "move_l_dst m mode reg v k =
     (let a = areg m reg; st = (\<lambda>ak. store_l m (fst ak) v (snd ak) id) in
      if mode = 0 then Next (adv k (set_cc (logic_ccr v (ccr m)) (set_d reg v m)))
      else if mode = 1 then Next (adv k (set_a reg v m))
      else if mode = 2 then st (a, k)
      else if mode = 3 then store_l m a v k (set_a reg (a + 4))
      else if mode = 4 then store_l (set_a reg (a - 4) m) (a - 4) v k id
      else if mode = 6 then st (ea_idx m reg k)
      else if mode = 5 then st (ea_d16 m reg k)
      else if mode = 7 \<and> reg = 0 then st (ea_absw m k)
      else if mode = 7 \<and> reg = 1 then st (ea_absl m k)
      else Fall m)"

definition i_move_l :: handler where
  "i_move_l op m =
     (if op AND 0xF000 \<noteq> 0x2000 then Fall m
      else case move_l_src m (fld 3 op) (fld 0 op) of
        NoMode m1 \<Rightarrow> Fall m1
      | OutOfBox m1 \<Rightarrow> IFail ''move.l EA access out of sandbox'' m1
      | Operand v k m1 \<Rightarrow> move_l_dst m1 (fld 6 op) (fld 9 op) v k)"

definition i_move_w_reg :: handler where
  "i_move_w_reg op m =
     (if op AND 0xF1F8 \<noteq> 0x3000 then Fall m
      else Next (adv 2 (put_logic 16 (fld 9 op) (low 16 m (fld 0 op)) m)))"

subsection \<open>Line 0 immediates\<close>

definition i_line0 :: handler where
  "i_line0 op m =
     (let hi = op AND 0xFF00; dn = fld 0 op; a = dreg m dn; imm = xl m 2;
          put = (\<lambda>res. Next (adv 6 (set_cc (logic_ccr res (ccr m)) (set_d dn res m)))) in
      if fld 3 op = 0 \<and> op AND 0x00C0 = 0x0080 \<and> hi \<in> {0x0600, 0x0400, 0x0200, 0x0000, 0x0A00, 0x0C00} then
        if hi = 0x0600 then Next (adv 6 (put_d 32 dn (add_l a imm) m))
        else if hi = 0x0400 then Next (adv 6 (put_d 32 dn (sub_l a imm) m))
        else if hi = 0x0C00 then Next (adv 6 (set_cc (cmp_sz 32 a imm (ccr m)) m))
        else if hi = 0x0200 then put (a AND imm)
        else if hi = 0x0000 then put (a OR imm)
        else put (a XOR imm)
      else if hi = 0x0800 \<and> fld 3 op = 0 then
        let tested = drop_bit (unat (xw m 2 AND 31)) a AND 1
        in Next (adv 4 (set_cc ((ccr m AND NOT CCR_Z) OR flag (tested = 0) CCR_Z) m))
      else Fall m)"

subsection \<open>MOVEM\<close>

definition mv_reg :: "m68k \<Rightarrow> nat \<Rightarrow> u32" where
  "mv_reg m i = (if i < 8 then dreg m i else areg m (i - 8))"

definition mv_set :: "nat \<Rightarrow> u32 \<Rightarrow> m68k \<Rightarrow> m68k" where
  "mv_set i v m = (if i < 8 then set_d i v m else set_a (i - 8) v m)"

text \<open>The three transfer loops, over the bits of the mask that are set. Each stops at the first access outside the
  sandbox (\<open>Inl\<close>), keeping what it transferred before.\<close>

fun movem_push :: "nat \<Rightarrow> nat list \<Rightarrow> u32 \<Rightarrow> m68k \<Rightarrow> m68k + (m68k \<times> u32)" where
  "movem_push step [] an m = Inr (m, an)"
| "movem_push step (i # is) an m =
     (case mem_wr (8 * step) m (an - of_nat step) (mv_reg m (15 - i)) of None \<Rightarrow> Inl m
      | Some m' \<Rightarrow> movem_push step is (an - of_nat step) m')"

fun movem_store :: "nat \<Rightarrow> nat list \<Rightarrow> u32 \<Rightarrow> m68k \<Rightarrow> m68k + m68k" where
  "movem_store step [] addr m = Inr m"
| "movem_store step (i # is) addr m =
     (case mem_wr (8 * step) m addr (mv_reg m i) of None \<Rightarrow> Inl m
      | Some m' \<Rightarrow> movem_store step is (addr + of_nat step) m')"

fun movem_load :: "nat \<Rightarrow> nat list \<Rightarrow> u32 \<Rightarrow> m68k \<Rightarrow> m68k + m68k" where
  "movem_load step [] addr m = Inr m"
| "movem_load step (i # is) addr m =
     (case mem_rd (8 * step) m addr of None \<Rightarrow> Inl m
      | Some v \<Rightarrow> movem_load step is (addr + of_nat step)
                    (mv_set i (if step = 4 then v else sx16 (ucast v)) m))"

definition mask_bits :: "u16 \<Rightarrow> nat list" where
  "mask_bits w = filter (\<lambda>i. drop_bit i w AND 1 \<noteq> 0) [0..<16]"

definition movem_store_ea :: "m68k \<Rightarrow> nat \<Rightarrow> nat \<Rightarrow> (u32 \<times> nat) option" where
  "movem_store_ea m mode ereg =
     (if mode = 2 then Some (areg m ereg, 4)
      else if mode = 5 then Some (ea_d16 m ereg 4)
      else if mode = 7 \<and> ereg = 0 then Some (ea_absw m 4)
      else if mode = 7 \<and> ereg = 1 then Some (ea_absl m 4)
      else None)"

definition movem_load_ea :: "m68k \<Rightarrow> nat \<Rightarrow> nat \<Rightarrow> (u32 \<times> nat) option" where
  "movem_load_ea m mode ereg =
     (if mode = 3 then Some (areg m ereg, 4)
      else if mode = 7 \<and> ereg = 2 then Some (ea_pcd16 m 4)
      else movem_store_ea m mode ereg)"

definition i_movem :: handler where
  "i_movem op m =
     (let mode = fld 3 op; ereg = fld 0 op; step = (if op AND 0x0040 \<noteq> 0 then 4 else 2);
          is = mask_bits (xw m 2); oob = ''movem: EA access out of sandbox'' in
      if \<not> (op AND 0xFB80 = 0x4880 \<and> mode \<ge> 2) then Fall m
      else if op AND 0x0400 = 0 then
        if mode = 4 then
          (case movem_push step is (areg m ereg) m of Inl m1 \<Rightarrow> IFail oob m1
           | Inr (m1, an) \<Rightarrow> Next (adv 4 (set_a ereg an m1)))
        else case movem_store_ea m mode ereg of None \<Rightarrow> IFail ''movem: unsupported store EA mode'' m
        | Some (addr, k) \<Rightarrow>
            (case movem_store step is addr m of Inl m1 \<Rightarrow> IFail oob m1 | Inr m1 \<Rightarrow> Next (adv k m1))
      else case movem_load_ea m mode ereg of None \<Rightarrow> IFail ''movem: unsupported load EA mode'' m
      | Some (addr, k) \<Rightarrow>
          (case movem_load step is addr m of Inl m1 \<Rightarrow> IFail oob m1
           | Inr m1 \<Rightarrow> Next (adv k (if mode = 3 then set_a ereg (areg m1 ereg + of_nat (step * length is)) m1 else m1))))"

subsection \<open>Line 4\<close>

definition i_clr_l :: handler where
  "i_clr_l op m = (if op AND 0xFFF8 \<noteq> 0x4280 then Fall m
     else Next (adv 2 (set_cc (clr_cc m) (set_d (fld 0 op) 0 m))))"

text \<open>The borrow is tested on the 32-bit sum \<open>a + X\<close>.\<close>

definition i_negx :: handler where
  "i_negx op m =
     (if op AND 0xFF38 \<noteq> 0x4000 then Fall m
      else let dn = fld 0 op; bits = szbits op; a = low bits m dn;
               res = ucast (0 - ucast a - ucast (xbit m) :: u64) AND szmask bits;
               borrow = a + xbit m \<noteq> 0; overflow = a AND res AND szmsb bits \<noteq> 0
        in Next (adv 2 (put_d bits dn (res, sized_x_ccr res bits borrow overflow (ccr m)) m)))"

definition i_neg :: handler where
  "i_neg op m =
     (if op AND 0xFF38 \<noteq> 0x4400 then Fall m
      else let dn = fld 0 op; bits = szbits op; a = low bits m dn; res = (0 - a) AND szmask bits;
               cc = flag (a \<noteq> 0) (CCR_C OR CCR_X) OR flag (a = szmsb bits) CCR_V OR nz_sz bits res
        in Next (adv 2 (put_d bits dn (res, cc) m)))"

definition i_line4 :: handler where
  "i_line4 op m =
     (let dn = fld 0 op; v = dreg m dn;
          put = (\<lambda>res. Next (adv 2 (set_cc (logic_ccr res (ccr m)) (set_d dn res m)))) in
      if op AND 0xFFF8 = 0x4680 then put (NOT v)
      else if op AND 0xFFF8 = 0x4A80 then Next (adv 2 (set_cc (logic_ccr v (ccr m)) m))
      else if op AND 0xFFF8 = 0x4840 then put (drop_bit 16 v OR push_bit 16 v)
      else if op AND 0xFFF8 = 0x48C0 then put (sx16 (ucast v))
      else if op AND 0xFFF8 = 0x4880 then Next (adv 2 (put_logic 16 dn (sx8 (ucast v) AND 0xFFFF) m))
      else Fall m)"

subsection \<open>Shifts and rotates\<close>

text \<open>Shifts by the count in a register (modulo 64).\<close>

definition rot :: "nat \<Rightarrow> bool \<Rightarrow> nat \<Rightarrow> u32 \<Rightarrow> u32" where
  "rot bits left r a =
     (if left then push_bit r a OR drop_bit (bits - r) a else drop_bit r a OR push_bit (bits - r) a) AND szmask bits"

definition shift_count_rot :: "nat \<Rightarrow> bool \<Rightarrow> nat \<Rightarrow> u32 \<Rightarrow> u32 \<Rightarrow> u32 \<times> u32" where
  "shift_count_rot bits left cnt a keep =
     (let res = (if cnt = 0 then a else rot bits left (cnt mod bits) a);
          last_out = cnt \<noteq> 0 \<and> (if left then res AND 1 \<noteq> 0 else drop_bit (bits - 1) res AND 1 \<noteq> 0)
      in (res, (keep AND CCR_X) OR flag last_out CCR_C OR nz_sz bits res))"

definition shift_count_left :: "nat \<Rightarrow> bool \<Rightarrow> nat \<Rightarrow> u32 \<Rightarrow> u32 \<times> u32" where
  "shift_count_left bits arith cnt a =
     (let last_out = cnt \<le> bits \<and> drop_bit (bits - cnt) a AND 1 \<noteq> 0;
          res = (if cnt \<ge> bits then 0 else push_bit cnt a AND szmask bits);
          sm = (if cnt \<ge> bits then szmask bits else push_bit (bits - 1 - cnt) (szmask bits) AND szmask bits);
          top = a AND sm
      in (res, flag last_out (CCR_C OR CCR_X) OR flag (arith \<and> \<not> (top = 0 \<or> top = sm)) CCR_V OR nz_sz bits res))"

definition shift_count_right :: "nat \<Rightarrow> bool \<Rightarrow> nat \<Rightarrow> u32 \<Rightarrow> u32 \<times> u32" where
  "shift_count_right bits arith cnt a =
     (let neg = a AND szmsb bits \<noteq> 0; msk = szmask bits;
          last_out = (if cnt \<le> bits then drop_bit (cnt - 1) a AND 1 \<noteq> 0 else neg \<and> arith);
          se = (if neg then msk AND NOT (if cnt \<ge> bits then 0 else drop_bit cnt msk) else 0);
          res = (if arith then if cnt \<ge> bits then if neg then msk else 0 else (drop_bit cnt a OR se) AND msk
                 else if cnt \<ge> bits then 0 else drop_bit cnt a)
      in (res, flag last_out (CCR_C OR CCR_X) OR nz_sz bits res))"

definition i_shift_reg :: handler where
  "i_shift_reg op m =
     (let type = drop_bit 3 op AND 3; left = op AND 0x0100 \<noteq> 0; bits = szbits op; dn = fld 0 op;
          cnt = unat (dreg m (fld 9 op) AND 63); a = low bits m dn in
      if \<not> (op AND 0xF000 = 0xE000 \<and> op AND 0x0020 \<noteq> 0 \<and> type \<noteq> 2 \<and> drop_bit 6 op AND 3 \<noteq> 3) then Fall m
      else let (res, cc) =
          (if type = 3 then shift_count_rot bits left cnt a (ccr m)
           else if cnt = 0 then (a, (ccr m AND CCR_X) OR nz_sz bits a)
           else if left then shift_count_left bits (type = 0) cnt a
           else shift_count_right bits (type = 0) cnt a)
        in Next (adv 2 (put_d bits dn (res AND szmask bits, cc) m)))"

text \<open>Longword shifts by an immediate count of 1 to 8.\<close>

definition shift_l :: "u16 \<Rightarrow> bool \<Rightarrow> nat \<Rightarrow> u32 \<Rightarrow> u32 \<Rightarrow> u32 \<times> u32" where
  "shift_l type left cnt a keep =
     (let out_left = drop_bit (32 - cnt) a AND 1 \<noteq> 0; out_right = drop_bit (cnt - 1) a AND 1 \<noteq> 0;
          nz = (\<lambda>res. nz32 res 0 AND (CCR_N OR CCR_Z)) in
      if type = 1 then
        let res = (if left then push_bit cnt a else drop_bit cnt a)
        in (res, flag (if left then out_left else out_right) (CCR_C OR CCR_X) OR nz res)
      else if type = 0 then
        if left then
          let res = push_bit cnt a; sm = push_bit (31 - cnt) 0xFFFFFFFF; top = a AND sm
          in (res, flag out_left (CCR_C OR CCR_X) OR flag (\<not> (top = 0 \<or> top = sm)) CCR_V OR nz res)
        else let res = signed_drop_bit cnt a in (res, flag out_right (CCR_C OR CCR_X) OR nz res)
      else
        let r = (32 - cnt) mod 32;
            res = (if left then push_bit cnt a OR drop_bit r a else drop_bit cnt a OR push_bit r a)
        in (res, (keep AND CCR_X) OR flag (if left then res AND 1 \<noteq> 0 else drop_bit 31 res AND 1 \<noteq> 0) CCR_C OR nz res))"

definition i_shift_l :: handler where
  "i_shift_l op m =
     (let type = drop_bit 3 op AND 3; dn = fld 0 op in
      if \<not> (op AND 0xF000 = 0xE000 \<and> drop_bit 6 op AND 3 = 2 \<and> op AND 0x0020 = 0) \<or> type = 2 then Fall m
      else let (res, cc) = shift_l type (op AND 0x0100 \<noteq> 0) (unat (quick op)) (dreg m dn) (ccr m)
        in Next (adv 2 (set_cc cc (set_d dn res m))))"

definition move_blocks :: "handler list" where
  "move_blocks = [i_move_l, i_move_w_reg, i_line0, i_movem, i_clr_l, i_negx, i_neg, i_line4, i_shift_reg, i_shift_l]"

end
