(* ===== verification/M68kExt.thy ===== *)
theory M68kExt
  imports M68kMove
begin

text \<open>
  The last group of integer blocks of \<open>j5d_interp_run\<close>: the address-register arithmetic, the quick
  word and byte forms, TST, PEA, the comparisons with a memory operand, the 32-bit multiplications
  and divisions, the byte and word shifts, and the byte and general MOVE.
\<close>

subsection \<open>Address registers\<close>

definition i_adda :: handler where
  "i_adda op m = (let an = fld 9 op; a = areg m an in
     if op AND 0xF1FF = 0x90FC then Next (adv 4 (set_a an (a - sxw m 2) m))
     else if op AND 0xF1FF = 0xD0FC then Next (adv 4 (set_a an (a + sxw m 2) m))
     else if op AND 0xF1FF = 0x91FC then Next (adv 6 (set_a an (a - xl m 2) m))
     else if op AND 0xF1FF = 0xD1FC then Next (adv 6 (set_a an (a + xl m 2) m))
     else if op AND 0xF1C0 \<in> {0xD0C0, 0xD1C0, 0x90C0, 0x91C0} then
       if fld 3 op > 1 then IFail ''adda/suba: unsupported source EA in oracle'' m
       else let v = (if fld 3 op = 0 then dreg m (fld 0 op) else areg m (fld 0 op));
                s = (if fld 6 op = 7 then v else sx16 (ucast v))
         in Next (adv 2 (set_a an (if op AND 0xF000 = 0x9000 then a - s else a + s) m))
     else Fall m)"

definition i_quick_bw :: handler where
  "i_quick_bw op m = (let n = fld 0 op in
     if op AND 0xF1F8 = 0x5048 then Next (adv 2 (set_a n (areg m n + quick op) m))
     else if op AND 0xF1F8 = 0x5148 then Next (adv 2 (set_a n (areg m n - quick op) m))
     else if op AND 0xF1F8 = 0x5040 then Next (adv 2 (put_d 16 n (add_sz 16 (low 16 m n) (quick op)) m))
     else if op AND 0xF1F8 = 0x5140 then Next (adv 2 (put_d 16 n (sub_sz 16 (low 16 m n) (quick op)) m))
     else if op AND 0xF1F8 = 0x5000 then Next (adv 2 (put_d 8 n (add_sz 8 (low 8 m n) (quick op)) m))
     else if op AND 0xF1F8 = 0x5100 then Next (adv 2 (put_d 8 n (sub_sz 8 (low 8 m n) (quick op)) m))
     else Fall m)"

definition i_extb :: handler where
  "i_extb op m =
     (if op AND 0xFFF8 \<noteq> 0x49C0 then Fall m
      else let dn = fld 0 op; res = sx8 (ucast (dreg m dn))
        in Next (adv 2 (set_cc (logic_ccr res (ccr m)) (set_d dn res m))))"

subsection \<open>TST and PEA\<close>

definition tst_cc :: "nat \<Rightarrow> u32 \<Rightarrow> m68k \<Rightarrow> m68k" where
  "tst_cc bits v m = set_cc (logic_sz bits (v AND szmask bits) (ccr m)) m"

definition i_tst :: handler where
  "i_tst op m =
     (let mode = fld 3 op; reg = fld 0 op; bits = szbits op; a = areg m reg; oob = ''tst: EA access out of sandbox'';
          mem = (\<lambda>ak. rdm bits m (fst ak) oob (\<lambda>v. Next (adv (snd ak) (tst_cc bits v m)))) in
      if \<not> (op AND 0xFF00 = 0x4A00 \<and> drop_bit 6 op AND 3 \<noteq> 3) then Fall m
      else if mode = 0 then Next (adv 2 (tst_cc bits (dreg m reg) m))
      else if mode = 1 then Next (adv 2 (tst_cc bits a m))
      else if mode = 2 then mem (a, 2)
      else if mode = 3 then
        rdm bits m a oob (\<lambda>v. Next (adv 2 (tst_cc bits v (set_a reg (a + of_nat (bits div 8)) m))))
      else if mode = 5 then mem (ea_d16 m reg 2)
      else if mode = 6 then mem (ea_idx m reg 2)
      else if mode = 7 \<and> reg = 1 then mem (ea_absl m 2)
      else IFail ''tst: unsupported EA in oracle'' m)"

definition pea_ea :: "m68k \<Rightarrow> nat \<Rightarrow> nat \<Rightarrow> (u32 \<times> nat) option" where
  "pea_ea m mode reg =
     (if mode = 2 then Some (areg m reg, 2)
      else if mode = 5 then Some (ea_d16 m reg 2)
      else if mode = 7 \<and> reg = 0 then Some (ea_absw m 2)
      else if mode = 7 \<and> reg = 1 then Some (ea_absl m 2)
      else if mode = 7 \<and> reg = 2 then Some (ea_pcd16 m 2)
      else if mode = 6 then Some (ea_idx m reg 2)
      else None)"

definition i_pea :: handler where
  "i_pea op m =
     (if op AND 0xFFC0 \<noteq> 0x4840 then Fall m
      else case pea_ea m (fld 3 op) (fld 0 op) of None \<Rightarrow> Fall m
      | Some (ea, k) \<Rightarrow> let sp = areg m 7 - 4 in
          wrm 32 m sp ea ''pea: push out of sandbox'' (\<lambda>m'. Next (adv k (set_a 7 sp m'))))"

subsection \<open>Comparisons\<close>

definition cmp_l_src :: "m68k \<Rightarrow> nat \<Rightarrow> nat \<Rightarrow> operand" where
  "cmp_l_src m mode reg =
     (let a = areg m reg in
      if mode = 0 then Operand (dreg m reg) 2 m
      else if mode = 1 then Operand a 2 m
      else if mode = 6 then load_l m (ea_idx m reg 2)
      else if mode = 2 then load_l m (a, 2)
      else if mode = 3 then
        (case mem_rd32 m a of None \<Rightarrow> OutOfBox m | Some v \<Rightarrow> Operand v 2 (set_a reg (a + 4) m))
      else if mode = 5 then load_l m (ea_d16 m reg 2)
      else if mode = 7 \<and> reg = 1 then load_l m (ea_absl m 2)
      else NoMode m)"

definition i_cmp_l :: handler where
  "i_cmp_l op m =
     (if op AND 0xF1C0 \<noteq> 0xB080 \<and> op AND 0xF1C0 \<noteq> 0xB1C0 then Fall m
      else case cmp_l_src m (fld 3 op) (fld 0 op) of
        NoMode m1 \<Rightarrow> IFail ''cmp.l: unsupported source EA in oracle'' m1
      | OutOfBox m1 \<Rightarrow> IFail ''cmp.l: EA access out of sandbox'' m1
      | Operand b k m1 \<Rightarrow>
          let a = (if op AND 0x00C0 = 0x00C0 then areg m1 (fld 9 op) else dreg m1 (fld 9 op))
          in Next (adv k (set_cc (cmp_sz 32 a b (ccr m1)) m1)))"

definition i_add_b_reg :: handler where
  "i_add_b_reg op m = (let dn = fld 9 op in
     if op AND 0xF1F8 = 0xD000 then Next (adv 2 (put_d 8 dn (add_sz 8 (low 8 m dn) (low 8 m (fld 0 op))) m))
     else Fall m)"

definition i_cmpi_l_d16 :: handler where
  "i_cmpi_l_d16 op m =
     (if op AND 0xFFF8 = 0x0CA8 then
        rdm 32 m (areg m (fld 0 op) + sxw m 6) ''cmpi.l (d16,An): address out of sandbox''
          (\<lambda>a. Next (adv 8 (set_cc (cmp_sz 32 a (xl m 2) (ccr m)) m)))
      else Fall m)"

definition i_cmpm :: handler where
  "i_cmpm op m =
     (let ax = fld 9 op; ay = fld 0 op; bits = szbits op; n = of_nat (bits div 8); oob = ''cmpm: address out of sandbox'' in
      if op AND 0xF138 = 0xB108 \<and> drop_bit 6 op AND 3 \<noteq> 3 then
        rdm bits m (areg m ay) oob (\<lambda>s. rdm bits m (areg m ax) oob (\<lambda>dv.
          let m1 = set_a ay (areg m ay + n) m; m2 = set_a ax (areg m1 ax + n) m1
          in Next (adv 2 (set_cc (cmp_sz bits dv s (ccr m)) m2))))
      else Fall m)"

definition i_cmpi_rest :: handler where
  "i_cmpi_rest op m =
     (if op AND 0xFFF8 = 0x0C28 then
        rdm 8 m (areg m (fld 0 op) + sxw m 4) ''cmpi.b (d16,An): address out of sandbox''
          (\<lambda>a. Next (adv 6 (set_cc (cmp_sz 8 a (imm8 m 2) (ccr m)) m)))
      else if op AND 0xFFF8 = 0x0C90 then
        rdm 32 m (areg m (fld 0 op)) ''cmpi.l (An): address out of sandbox''
          (\<lambda>a. Next (adv 6 (set_cc (cmp_sz 32 a (xl m 2) (ccr m)) m)))
      else Fall m)"

subsection \<open>Byte and word loads\<close>

definition i_move_bw_d16 :: handler where
  "i_move_bw_d16 op m = (let dn = fld 9 op; addr = areg m (fld 0 op) + sxw m 2 in
     if op AND 0xF1F8 = 0x1028 then
       rdm 8 m addr ''move.b (d16,An): address out of sandbox'' (\<lambda>v. Next (adv 4 (put_logic 8 dn v m)))
     else if op AND 0xF1F8 = 0x3028 then
       rdm 16 m addr ''move.w (d16,An): address out of sandbox'' (\<lambda>v. Next (adv 4 (put_logic 16 dn v m)))
     else Fall m)"

definition i_move_pcx :: handler where
  "i_move_pcx op m =
     (if op AND 0xF1FF \<noteq> 0x103B \<and> op AND 0xF1FF \<noteq> 0x303B then Fall m
      else let dn = fld 9 op in
        case brief_ea_i m (xw m 2) (cpc m + 2) of None \<Rightarrow> IFail ''move (d8,PC,Xn): 68020 full extension word'' m
        | Some ea \<Rightarrow>
            if op AND 0xF000 = 0x3000 then
              rdm 16 m ea ''move.w (d8,PC,Xn): address out of sandbox'' (\<lambda>v. Next (adv 4 (put_logic 16 dn v m)))
            else rdm 8 m ea ''move.b (d8,PC,Xn): address out of sandbox'' (\<lambda>v. Next (adv 4 (put_logic 8 dn v m))))"

definition i_add_b_mem :: handler where
  "i_add_b_mem op m = (let dn = fld 9 op; an = fld 0 op in
     if op AND 0xF1F8 = 0xD010 then
       rdm 8 m (areg m an) ''add.b (An): address out of sandbox''
         (\<lambda>b. Next (adv 2 (put_d 8 dn (add_sz 8 (low 8 m dn) b) m)))
     else Fall m)"

definition i_move_w_imm :: handler where
  "i_move_w_imm op m = (let an = fld 9 op; v = imm16 m 2 in
     if op AND 0xF1FF = 0x30BC \<and> fld 6 op = 2 then
       wrm 16 m (areg m an) v ''move.w #imm,(An): address out of sandbox''
         (\<lambda>m'. Next (adv 4 (set_cc (logic_sz 16 v (ccr m)) m')))
     else Fall m)"

subsection \<open>32-bit multiplication and division\<close>

definition mul64 :: "bool \<Rightarrow> u32 \<Rightarrow> u32 \<Rightarrow> u64" where
  "mul64 is_signed a b = (if is_signed then word_of_int (sint a * sint b) else ucast a * ucast b)"

definition i_mul_l :: handler where
  "i_mul_l op m =
     (if op AND 0xFFC0 \<noteq> 0x4C00 then Fall m
      else let mode = fld 3 op; reg = fld 0 op; ext = xw m 2; dl = fld 12 ext; dh = fld 0 ext;
               is_signed = ext AND 0x0800 \<noteq> 0; size64 = ext AND 0x0400 \<noteq> 0 in
        if \<not> (mode = 0 \<or> mode = 7 \<and> reg = 4) then IFail ''mul.l: unsupported source EA in oracle'' m
        else let (src, k) = (if mode = 0 then (dreg m reg, 4) else (xl m 4, 8)); a = dreg m dl in
          if size64 then
            let p = mul64 is_signed a src;
                cc = (ccr m AND CCR_X) OR flag (p = 0) CCR_Z OR flag (p AND 0x8000000000000000 \<noteq> 0) CCR_N
            in Next (adv k (set_cc cc (set_d dh (ucast (drop_bit 32 p)) (set_d dl (ucast p) m))))
          else let res = a * src in Next (adv k (set_cc (logic_ccr res (ccr m)) (set_d dl res m))))"

text \<open>C leaves \<open>INT_MIN / -1\<close> undefined; the AArch64 instruction gives \<open>INT_MIN\<close>, as here.\<close>

definition divl :: "bool \<Rightarrow> u32 \<Rightarrow> u32 \<Rightarrow> u32 \<times> u32" where
  "divl is_signed a b =
     (if is_signed then (word_of_int (sint a sdiv sint b), word_of_int (sint a smod sint b)) else (a div b, a mod b))"

definition divl_src :: "m68k \<Rightarrow> nat \<Rightarrow> nat \<Rightarrow> string + (u32 \<times> nat)" where
  "divl_src m mode reg =
     (if mode = 0 then Inr (dreg m reg, 4)
      else if mode = 7 \<and> reg = 4 then Inr (xl m 4, 8)
      else if mode = 5 then
        (case mem_rd32 m (areg m reg + sxw m 4) of None \<Rightarrow> Inl ''div.l (d16,An): source out of sandbox''
         | Some v \<Rightarrow> Inr (v, 6))
      else Inl ''div.l: unsupported source EA in oracle'')"

definition i_div_l :: handler where
  "i_div_l op m =
     (if op AND 0xFFC0 \<noteq> 0x4C40 then Fall m
      else let ext = xw m 2; dq = fld 12 ext; dr = fld 0 ext in
        case divl_src m (fld 3 op) (fld 0 op) of Inl e \<Rightarrow> IFail e m
        | Inr (divisor, k) \<Rightarrow>
            if ext AND 0x0400 \<noteq> 0 then IFail ''div.l: 64-bit dividend form not in subset'' m
            else if divisor = 0 then raise_to VEC_DIV_BY_ZERO (cpc m + of_nat k) m
            else let (quot, rem) = divl (ext AND 0x0800 \<noteq> 0) (dreg m dq) divisor;
                     m1 = set_d dq quot m; m2 = (if dr \<noteq> dq then set_d dr rem m1 else m1)
              in Next (adv k (set_cc (logic_sz 32 quot (ccr m)) m2)))"

subsection \<open>Byte and word shifts\<close>

text \<open>By an immediate count of 1 to 8. For ASL the shift count \<open>bits - 1 - cnt\<close> of the C code is -1 when
  \<open>bits = cnt = 8\<close>, which C leaves undefined; the AArch64 instruction takes it modulo 32, as here.\<close>

definition shift_bw :: "nat \<Rightarrow> u16 \<Rightarrow> bool \<Rightarrow> nat \<Rightarrow> u32 \<Rightarrow> u32 \<Rightarrow> u32 \<times> u32" where
  "shift_bw bits type left cnt a keep =
     (let fm = szmask bits; out_left = cnt \<le> bits \<and> drop_bit (bits - cnt) a AND 1 \<noteq> 0;
          out_right = drop_bit (cnt - 1) a AND 1 \<noteq> 0 in
      if type = 1 then
        let res = (if left then push_bit cnt a AND fm else drop_bit cnt a)
        in (res, flag (if left then out_left else out_right) (CCR_C OR CCR_X) OR nz_sz bits res)
      else if type = 0 then
        if left then
          let res = push_bit cnt a AND fm; sb = push_bit ((bits + 31 - cnt) mod 32) fm AND fm; top = a AND sb
          in (res, flag out_left (CCR_C OR CCR_X) OR flag (\<not> (top = 0 \<or> top = sb)) CCR_V OR nz_sz bits res)
        else
          let sa = signed_drop_bit (32 - bits) (push_bit (32 - bits) a); res = signed_drop_bit cnt sa AND fm
          in (res, flag out_right (CCR_C OR CCR_X) OR nz_sz bits res)
      else
        let r = cnt mod bits; q = (bits - r) mod bits;
            res = (if left then push_bit r a OR drop_bit q a else drop_bit r a OR push_bit q a) AND fm
        in (res, (keep AND CCR_X) OR
              flag (if left then res AND 1 \<noteq> 0 else drop_bit (bits - 1) res AND 1 \<noteq> 0) CCR_C OR nz_sz bits res))"

definition i_shift_bw :: handler where
  "i_shift_bw op m =
     (let type = drop_bit 3 op AND 3; sz = drop_bit 6 op AND 3; dn = fld 0 op; bits = szbits op in
      if op AND 0xF000 = 0xE000 \<and> op AND 0x0020 = 0 \<and> sz \<noteq> 2 \<and> sz \<noteq> 3 \<and> type \<noteq> 2 then
        Next (adv 2 (put_d bits dn
          (shift_bw bits type (op AND 0x0100 \<noteq> 0) (unat (quick op)) (low bits m dn) (ccr m)) m))
      else Fall m)"

subsection \<open>MOVE.B\<close>

definition load_b :: "m68k \<Rightarrow> u32 \<times> nat \<Rightarrow> operand" where
  "load_b m ak = (case mem_rd8 m (fst ak) of None \<Rightarrow> OutOfBox m | Some v \<Rightarrow> Operand (ucast v) (snd ak) m)"

definition move_b_src :: "m68k \<Rightarrow> nat \<Rightarrow> nat \<Rightarrow> operand" where
  "move_b_src m mode reg =
     (let a = areg m reg in
      if mode = 0 then Operand (dreg m reg AND 0xFF) 2 m
      else if mode = 2 then load_b m (a, 2)
      else if mode = 3 then
        (case mem_rd8 m a of None \<Rightarrow> OutOfBox m | Some v \<Rightarrow> Operand (ucast v) 2 (set_a reg (a + 1) m))
      else if mode = 5 then load_b m (ea_d16 m reg 2)
      else if mode = 7 \<and> reg = 1 then load_b m (ea_absl m 2)
      else if mode = 7 \<and> reg = 4 then Operand (imm8 m 2) 4 m
      else NoMode m)"

definition store_b :: "m68k \<Rightarrow> u32 \<Rightarrow> u32 \<Rightarrow> nat \<Rightarrow> (m68k \<Rightarrow> m68k) \<Rightarrow> outcome" where
  "store_b m a v k post =
     (let cc = logic_sz 8 v (ccr m) in
      case mem_wr8 m a (ucast v) of None \<Rightarrow> IFail ''move.b EA access out of sandbox'' (set_cc cc m)
      | Some m' \<Rightarrow> Next (adv k (set_cc cc (post m'))))"

definition move_b_dst :: "m68k \<Rightarrow> nat \<Rightarrow> nat \<Rightarrow> u32 \<Rightarrow> nat \<Rightarrow> outcome" where
  "move_b_dst m mode reg v k =
     (let a = areg m reg; st = (\<lambda>ak. store_b m (fst ak) v (snd ak) id) in
      if mode = 0 then Next (adv k (put_logic 8 reg v m))
      else if mode = 2 then st (a, k)
      else if mode = 3 then store_b m a v k (set_a reg (a + 1))
      else if mode = 5 then st (ea_d16 m reg k)
      else if mode = 6 then st (ea_idx m reg k)
      else if mode = 7 \<and> reg = 1 then st (ea_absl m k)
      else Fall m)"

definition i_move_b :: handler where
  "i_move_b op m =
     (if op AND 0xF000 \<noteq> 0x1000 then Fall m
      else case move_b_src m (fld 3 op) (fld 0 op) of
        NoMode m1 \<Rightarrow> Fall m1
      | OutOfBox m1 \<Rightarrow> IFail ''move.b EA access out of sandbox'' m1
      | Operand v k m1 \<Rightarrow> move_b_dst m1 (fld 6 op) (fld 9 op) v k)"

subsection \<open>The remaining MOVEs\<close>

definition i_color00 :: handler where
  "i_color00 op m =
     (if op AND 0xFFF8 = 0x33C0 \<and> xl m 2 = 0x00DFF180 then
        Next (adv 6 (set_cc (logic_sz 16 (low 16 m (fld 0 op)) (ccr m)) m))
      else Fall m)"

definition load_sz :: "nat \<Rightarrow> m68k \<Rightarrow> u32 \<times> nat \<Rightarrow> operand" where
  "load_sz bits m ak = (case mem_rd bits m (fst ak) of None \<Rightarrow> OutOfBox m | Some v \<Rightarrow> Operand v (snd ak) m)"

definition move_src :: "nat \<Rightarrow> m68k \<Rightarrow> nat \<Rightarrow> nat \<Rightarrow> operand" where
  "move_src bits m mode reg =
     (let a = areg m reg; step = of_nat (bits div 8) in
      if mode = 0 then Operand (dreg m reg) 2 m
      else if mode = 1 then Operand a 2 m
      else if mode = 2 then load_sz bits m (a, 2)
      else if mode = 3 then
        (case mem_rd bits m a of None \<Rightarrow> OutOfBox m | Some v \<Rightarrow> Operand v 2 (set_a reg (a + step) m))
      else if mode = 4 then
        (case mem_rd bits m (a - step) of None \<Rightarrow> OutOfBox m | Some v \<Rightarrow> Operand v 2 (set_a reg (a - step) m))
      else if mode = 5 then load_sz bits m (ea_d16 m reg 2)
      else if mode = 6 then load_sz bits m (ea_idx m reg 2)
      else if reg = 0 then load_sz bits m (ea_absw m 2)
      else if reg = 1 then load_sz bits m (ea_absl m 2)
      else if reg = 2 then load_sz bits m (ea_pcd16 m 2)
      else if reg = 4 then
        if bits = 32 then Operand (xl m 2) 6 m else Operand (if bits = 8 then imm8 m 2 else imm16 m 2) 4 m
      else NoMode m)"

definition store_sz :: "nat \<Rightarrow> m68k \<Rightarrow> u32 \<Rightarrow> u32 \<Rightarrow> nat \<Rightarrow> (m68k \<Rightarrow> m68k) \<Rightarrow> outcome" where
  "store_sz bits m a v k post =
     wrm bits m a v ''move: destination out of sandbox''
       (\<lambda>m'. Next (adv k (set_cc (logic_sz bits (v AND szmask bits) (ccr m)) (post m'))))"

definition move_dst :: "nat \<Rightarrow> m68k \<Rightarrow> nat \<Rightarrow> nat \<Rightarrow> u32 \<Rightarrow> nat \<Rightarrow> outcome" where
  "move_dst bits m mode reg v k =
     (let a = areg m reg; step = of_nat (bits div 8); st = (\<lambda>ak. store_sz bits m (fst ak) v (snd ak) id) in
      if mode = 0 then Next (adv k (put_logic bits reg (v AND szmask bits) m))
      else if mode = 1 then Next (adv k (set_a reg (if bits = 16 then sx16 (ucast v) else v) m))
      else if mode = 2 then st (a, k)
      else if mode = 3 then store_sz bits m a v k (set_a reg (a + step))
      else if mode = 4 then store_sz bits m (a - step) v k (set_a reg (a - step))
      else if mode = 5 then st (ea_d16 m reg k)
      else if mode = 6 then st (ea_idx m reg k)
      else if mode = 7 \<and> reg = 0 then st (ea_absw m k)
      else if mode = 7 \<and> reg = 1 then st (ea_absl m k)
      else Fall m)"

definition i_move :: handler where
  "i_move op m =
     (if \<not> (op AND 0xC000 = 0 \<and> op AND 0x3000 \<noteq> 0) then Fall m
      else let szf = drop_bit 12 op AND 3; bits = (if szf = 1 then 8 else if szf = 3 then 16 else 32) in
        case move_src bits m (fld 3 op) (fld 0 op) of
          NoMode m1 \<Rightarrow> Fall m1
        | OutOfBox m1 \<Rightarrow> IFail ''move: source out of sandbox'' m1
        | Operand v k m1 \<Rightarrow> move_dst bits m1 (fld 6 op) (fld 9 op) v k)"

definition ext_blocks :: "handler list" where
  "ext_blocks = [i_adda, i_quick_bw, i_extb, i_tst, i_pea, i_cmp_l, i_add_b_reg, i_cmpi_l_d16, i_cmpm, i_cmpi_rest,
     i_move_bw_d16, i_move_pcx, i_add_b_mem, i_move_w_imm, i_mul_l, i_div_l, i_shift_bw, i_move_b]"

definition last_blocks :: "handler list" where
  "last_blocks = [i_color00, i_move]"

end
