(* ===== verification/M68kInterp.thy ===== *)
theory M68kInterp
  imports M68kExt
begin

text \<open>
  The loop of \<open>j5d_interp_run\<close> around the instruction blocks: the safe point, the address and bus
  errors of a bad program counter, the stop address, the diagnostics hook, and the step cap.
  What the interpreter takes from its surroundings is a record: the library bridge, the stop request polled every
  1024 steps, the stop address, the step hook and the blocks of the FPU instructions that follow MOVE.B.
\<close>

record env =
  e_lvo :: "bridge option"
  e_take_stop :: "nat \<Rightarrow> bool"
  e_stop_pc :: "u32 option"
  e_hook :: "(m68k \<Rightarrow> u32 \<Rightarrow> u16 \<Rightarrow> bool) option"
  e_fpu :: handler

definition blocks :: "env \<Rightarrow> handler list" where
  "blocks e = control_blocks (e_lvo e) @ alu_blocks @ move_blocks @ ext_blocks @ [e_fpu e] @ last_blocks"

definition exec_op :: "env \<Rightarrow> handler" where
  "exec_op e op m = (case chain (blocks e) op m of Fall m' \<Rightarrow> IFail ''interp: out-of-subset opcode'' m' | r \<Rightarrow> r)"

definition interp_step :: "env \<Rightarrow> nat \<Rightarrow> m68k \<Rightarrow> outcome" where
  "interp_step e steps m =
     (let pc = cpc m in
      if steps mod 1024 = 0 \<and> e_take_stop e steps then Killed (m\<lparr>st_pc := pc\<rparr>)
      else if pc AND 1 \<noteq> 0 \<and> in_box m pc 2 then raise_to VEC_ADDRESS_ERROR pc m
      else if \<not> in_box m pc 2 then raise_to VEC_BUS_ERROR pc m
      else if e_stop_pc e = Some pc then StopAt (m\<lparr>st_pc := pc\<rparr>)
      else let op = xw m 0; m1 = m\<lparr>st_pc := pc\<rparr> in
        if (case e_hook e of None \<Rightarrow> False | Some f \<Rightarrow> f m1 pc op) then Exit (dreg m1 0) m1
        else exec_op e op m1)"

text \<open>\<open>n\<close> instructions have been started, \<open>k\<close> more are allowed.\<close>

fun interp_loop :: "env \<Rightarrow> nat \<Rightarrow> nat \<Rightarrow> m68k \<Rightarrow> outcome" where
  "interp_loop e n 0 m = IFail ''step cap exceeded (runaway/mis-decode)'' m"
| "interp_loop e n (Suc k) m =
     (case interp_step e (n + 1) m of Next m' \<Rightarrow> interp_loop e (n + 1) k m' | r \<Rightarrow> r)"

definition interp_start :: "u32 \<Rightarrow> u32 \<Rightarrow> m68k \<Rightarrow> m68k" where
  "interp_start entry_pc a6_libbase m =
     (let m1 = set_a 6 a6_libbase m; sp0 = areg m1 7;
          sp = (if sp0 = 0 then (org m + msz m) AND NOT 0xF else sp0)
      in set_pc entry_pc ((set_a 7 sp m1)\<lparr>isp := sp\<rparr>))"

definition j5d_interp_run :: "nat \<Rightarrow> env \<Rightarrow> u32 \<Rightarrow> u32 \<Rightarrow> m68k \<Rightarrow> outcome" where
  "j5d_interp_run cap e entry_pc a6_libbase m = interp_loop e 0 cap (interp_start entry_pc a6_libbase m)"

subsection \<open>Confinement\<close>

named_theorems confI \<open>introduction rules that walk through an instruction block\<close>

text \<open>The machine \<open>m'\<close> has the same region as \<open>m\<close>, the same initial stack pointer, and the same host bytes outside the region.\<close>

definition within :: "m68k \<Rightarrow> m68k \<Rightarrow> bool" where
  "within m m' \<longleftrightarrow> org m' = org m \<and> msz m' = msz m \<and> isp m' = isp m \<and>
     (\<forall>a. unat (msz m) \<le> a \<longrightarrow> hmem m' a = hmem m a)"

definition conf :: "m68k \<Rightarrow> outcome \<Rightarrow> bool" where
  "conf m r \<longleftrightarrow> (case r of Next m' \<Rightarrow> within m m' | Fall m' \<Rightarrow> within m m' | Exit d m' \<Rightarrow> within m m' |
     IFail e m' \<Rightarrow> within m m' | StopAt m' \<Rightarrow> within m m' | Killed m' \<Rightarrow> within m m')"

lemma conf_simps [simp]:
  "conf m (Next m') = within m m'" "conf m (Fall m') = within m m'" "conf m (Exit d m') = within m m'"
  "conf m (IFail e m') = within m m'" "conf m (StopAt m') = within m m'" "conf m (Killed m') = within m m'"
  by (simp_all add: conf_def)

lemma within_refl [simp]: "within m m"
  by (simp add: within_def)

lemma within_trans: "within m m' \<Longrightarrow> within m' m'' \<Longrightarrow> within m m''"
  by (simp add: within_def)

lemma within_upd [simp]:
  "within m (set_d n v m') = within m m'" "within m (set_a n v m') = within m m'"
  "within m (set_cc c m') = within m m'" "within m (set_pc p m') = within m m'"
  "within m (adv k m') = within m m'" "within m (put_d bits n rc m') = within m m'"
  "within m (put_logic bits n r m') = within m m'" "within m (m'\<lparr>st_pc := p\<rparr>) = within m m'"
  "within m (m'\<lparr>fpsr := f\<rparr>) = within m m'" "within m (iunpack_sr sr m') = within m m'"
  "within m (tst_cc bits v m') = within m m'" "within m (mv_set i v m') = within m m'"
  "within m (alu_op l bits n v m') = within m m'"
  by (auto simp: within_def set_d_def set_a_def set_cc_def set_pc_def adv_def put_d_def put_logic_def iunpack_sr_def
      tst_cc_def mv_set_def alu_op_def Let_def split: prod.splits)

lemma box_off: "in_box m a n \<Longrightarrow> hoff m a + n \<le> unat (msz m)"
  by (auto simp: in_box_def hoff_def not_less word_le_nat_alt unat_sub)

lemma mem_wr_within:
  "mem_wr32 m a v = Some m' \<Longrightarrow> within m m'" "mem_wr16 m a w = Some m' \<Longrightarrow> within m m'"
  "mem_wr8 m a b = Some m' \<Longrightarrow> within m m'" "mem_wr bits m a v = Some m' \<Longrightarrow> within m m'"
proof -
  show 32: "mem_wr32 m a v = Some m' \<Longrightarrow> within m m'" for v
    by (auto simp: mem_wr32_def within_def sb_write_be32_def dest!: box_off split: if_splits)
  show 16: "mem_wr16 m a w = Some m' \<Longrightarrow> within m m'" for w
    by (auto simp: mem_wr16_def within_def wr_be16_def dest!: box_off split: if_splits)
  show 8: "mem_wr8 m a b = Some m' \<Longrightarrow> within m m'" for b
    by (auto simp: mem_wr8_def within_def dest!: box_off split: if_splits)
  show "mem_wr bits m a v = Some m' \<Longrightarrow> within m m'"
    using 32 16 8 by (auto simp: mem_wr_def split: if_splits)
qed

lemma mem_wr_step:
  "mem_wr bits m a v = Some m' \<Longrightarrow> within m0 m \<Longrightarrow> within m0 m'" "mem_wr32 m a v = Some m' \<Longrightarrow> within m0 m \<Longrightarrow> within m0 m'"
  "mem_wr8 m a b = Some m' \<Longrightarrow> within m0 m \<Longrightarrow> within m0 m'"
  using mem_wr_within within_trans by blast+

lemma conf_rdm [confI]: "within m0 m \<Longrightarrow> (\<And>v. conf m0 (k v)) \<Longrightarrow> conf m0 (rdm bits m a msg k)"
  by (simp add: rdm_def split: option.splits)

lemma conf_wrm [confI]: "within m0 m \<Longrightarrow> (\<And>m'. within m0 m' \<Longrightarrow> conf m0 (k m')) \<Longrightarrow> conf m0 (wrm bits m a v msg k)"
  by (auto simp: wrm_def dest: mem_wr_step split: option.splits)

lemma push_frame_other: "a < p \<or> p + 6 \<le> a \<Longrightarrow> push_frame b p sr rpc a = b a"
  by (auto simp: push_frame_def sb_write_be32_def wr_be16_def)

lemma iraise_within: "iraise m vnum rpc = Inr (m', h) \<Longrightarrow> within m m'"
proof -
  assume "iraise m vnum rpc = Inr (m', h)"
  then have b: "in_box m (areg m 7 - 6) 6"
    and m': "hmem m' = push_frame (hmem m) (hoff m (areg m 7 - 6)) (j5d_pack_sr m) rpc" "org m' = org m" "msz m' = msz m"
      "isp m' = isp m"
    by (auto simp: iraise_def Let_def set_a_def split: option.splits if_splits)
  show ?thesis using box_off [OF b] by (simp add: within_def m' push_frame_other)
qed

lemma conf_raise [confI]: "within m0 m \<Longrightarrow> conf m0 (raise_to vnum rpc m)"
  by (auto simp: raise_to_def dest!: iraise_within intro: within_trans split: sum.splits)

lemma conf_jsr_to [confI]: "within m0 m \<Longrightarrow> conf m0 (jsr_to msg t r m)"
  unfolding jsr_to_def Let_def by (rule conf_wrm) simp_all

lemma conf_bsun [confI]: "within m0 m \<Longrightarrow> (\<And>m'. within m0 m' \<Longrightarrow> conf m0 (k m')) \<Longrightarrow> conf m0 (j5s_bsun p r m k)"
  unfolding j5s_bsun_def Let_def
  by (auto split: sum.splits dest!: iraise_within simp: within_def set_pc_def)


lemma conf_if [confI]: "(c \<Longrightarrow> conf m x) \<Longrightarrow> (\<not> c \<Longrightarrow> conf m y) \<Longrightarrow> conf m (if c then x else y)"
  by simp

lemma conf_Let [confI]: "(\<And>x. x = t \<Longrightarrow> conf m (f x)) \<Longrightarrow> conf m (let x = t in f x)"
  by (simp add: Let_def)

lemma conf_prod [confI]: "(\<And>a b. r = (a, b) \<Longrightarrow> conf m (f a b)) \<Longrightarrow> conf m (case r of (a, b) \<Rightarrow> f a b)"
  by (cases r) simp

lemma conf_option [confI]:
  "(r = None \<Longrightarrow> conf m x) \<Longrightarrow> (\<And>a. r = Some a \<Longrightarrow> conf m (f a)) \<Longrightarrow> conf m (case r of None \<Rightarrow> x | Some a \<Rightarrow> f a)"
  by (cases r) simp_all

lemma conf_sum [confI]:
  "(\<And>a. r = Inl a \<Longrightarrow> conf m (f a)) \<Longrightarrow> (\<And>a. r = Inr a \<Longrightarrow> conf m (g a)) \<Longrightarrow>
   conf m (case r of Inl a \<Rightarrow> f a | Inr a \<Rightarrow> g a)"
  by (cases r) simp_all

lemma conf_operand [confI]:
  "(\<And>a. r = NoMode a \<Longrightarrow> conf m (f a)) \<Longrightarrow> (\<And>a. r = OutOfBox a \<Longrightarrow> conf m (g a)) \<Longrightarrow>
   (\<And>v k a. r = Operand v k a \<Longrightarrow> conf m (h v k a)) \<Longrightarrow>
   conf m (case r of NoMode a \<Rightarrow> f a | OutOfBox a \<Rightarrow> g a | Operand v k a \<Rightarrow> h v k a)"
  by (cases r) simp_all

end
