(* ===== verification/M68kSafe.thy ===== *)
theory M68kSafe
  imports M68kInterp
begin

text \<open>
  Memory safety of the reference interpreter: every instruction block of \<open>j5d_interp_run\<close>, whatever the
  opcode and the registers, leaves the region and the host bytes outside it as they were. One lemma for each
  block; the chain, the step and the loop follow.
\<close>

subsection \<open>Operands\<close>

definition owithin :: "m68k \<Rightarrow> operand \<Rightarrow> bool" where
  "owithin m r \<longleftrightarrow> (case r of NoMode a \<Rightarrow> within m a | OutOfBox a \<Rightarrow> within m a | Operand v k a \<Rightarrow> within m a)"

lemma owithin_simps [simp]:
  "owithin m (NoMode a) = within m a" "owithin m (OutOfBox a) = within m a" "owithin m (Operand v k a) = within m a"
  by (simp_all add: owithin_def)

lemma owithin_loads [simp]:
  "within m0 m \<Longrightarrow> owithin m0 (load_l m ak)" "within m0 m \<Longrightarrow> owithin m0 (load_b m ak)"
  "within m0 m \<Longrightarrow> owithin m0 (load_sz bits m ak)"
  by (simp_all add: load_l_def load_b_def load_sz_def split: option.splits)

lemma owithin_if: "(c \<Longrightarrow> owithin m x) \<Longrightarrow> (\<not> c \<Longrightarrow> owithin m y) \<Longrightarrow> owithin m (if c then x else y)"
  by simp

lemma owithin_option:
  "(r = None \<Longrightarrow> owithin m x) \<Longrightarrow> (\<And>a. r = Some a \<Longrightarrow> owithin m (f a)) \<Longrightarrow>
   owithin m (case r of None \<Rightarrow> x | Some a \<Rightarrow> f a)"
  by (cases r) simp_all

lemma operands_within:
  "owithin m (move_l_src m mode reg)" "owithin m (cmp_l_src m mode reg)" "owithin m (move_b_src m mode reg)"
  "owithin m (move_src bits m mode reg)"
  unfolding move_l_src_def cmp_l_src_def move_b_src_def move_src_def Let_def
  by (intro owithin_if owithin_option; simp)+

lemma conf_store [confI]:
  assumes "within m0 m" "\<And>m'. within m0 m' \<Longrightarrow> within m0 (post m')"
  shows "conf m0 (store_l m a v k post)" "conf m0 (store_b m a v k post)" "conf m0 (store_sz bits m a v k post)"
  using assms
  by (auto simp: store_l_def store_b_def store_sz_def Let_def intro!: conf_wrm dest: mem_wr_step split: option.splits)

lemma conf_dst:
  assumes "within m0 m"
  shows "conf m0 (move_l_dst m mode reg v k)" "conf m0 (move_b_dst m mode reg v k)" "conf m0 (move_dst bits m mode reg v k)"
  using assms unfolding move_l_dst_def move_b_dst_def move_dst_def Let_def
  by (intro conf_if conf_store; simp only: within_upd conf_simps id_apply)+

lemma conf_operand_case:
  assumes "owithin m r" "\<And>a. within m a \<Longrightarrow> conf m (f a)" "\<And>a. within m a \<Longrightarrow> conf m (g a)"
    "\<And>v k a. within m a \<Longrightarrow> conf m (h v k a)"
  shows "conf m (case r of NoMode a \<Rightarrow> f a | OutOfBox a \<Rightarrow> g a | Operand v k a \<Rightarrow> h v k a)"
  using assms by (cases r) simp_all

lemma divw_ea_within: "divw_ea m mode reg = Inr (a, len, m') \<Longrightarrow> within m m'"
  by (auto simp: divw_ea_def Let_def split: if_splits option.splits)

lemma divw_src_within:
  "divw_src m mode reg = Inl (e, m') \<Longrightarrow> within m m'" "divw_src m mode reg = Inr (d, p, m') \<Longrightarrow> within m m'"
  by (auto simp: divw_src_def dest!: divw_ea_within split: if_splits option.splits sum.splits)

subsection \<open>The transfer loops of MOVEM\<close>

lemma movem_within:
  "within m0 m \<Longrightarrow> case movem_push step is a m of Inl m' \<Rightarrow> within m0 m' | Inr (m', an) \<Rightarrow> within m0 m'"
  "within m0 m \<Longrightarrow> case movem_store step is a m of Inl m' \<Rightarrow> within m0 m' | Inr m' \<Rightarrow> within m0 m'"
  "within m0 m \<Longrightarrow> case movem_load step is a m of Inl m' \<Rightarrow> within m0 m' | Inr m' \<Rightarrow> within m0 m'"
proof -
  show "within m0 m \<Longrightarrow> case movem_push step is a m of Inl m' \<Rightarrow> within m0 m' | Inr (m', an) \<Rightarrow> within m0 m'"
    by (induction step "is" a m rule: movem_push.induct) (auto split: option.splits dest: mem_wr_step)
  show "within m0 m \<Longrightarrow> case movem_store step is a m of Inl m' \<Rightarrow> within m0 m' | Inr m' \<Rightarrow> within m0 m'"
    by (induction step "is" a m rule: movem_store.induct) (auto split: option.splits dest: mem_wr_step)
  show "within m0 m \<Longrightarrow> case movem_load step is a m of Inl m' \<Rightarrow> within m0 m' | Inr m' \<Rightarrow> within m0 m'"
    by (induction step "is" a m rule: movem_load.induct) (auto split: option.splits)
qed

lemma movem_withinD:
  "movem_push step is a m = Inl m' \<Longrightarrow> within m m'" "movem_push step is a m = Inr (m', an) \<Longrightarrow> within m m'"
  "movem_store step is a m = Inl m' \<Longrightarrow> within m m'" "movem_store step is a m = Inr m' \<Longrightarrow> within m m'"
  "movem_load step is a m = Inl m' \<Longrightarrow> within m m'" "movem_load step is a m = Inr m' \<Longrightarrow> within m m'"
  using movem_within [OF within_refl [of m], of step "is" a] by simp_all

subsection \<open>The blocks\<close>

text \<open>What the bridge and the FPU blocks must keep.\<close>

definition safe_bridge :: "bridge option \<Rightarrow> bool" where
  "safe_bridge lvo \<longleftrightarrow> (\<forall>f n m. lvo = Some f \<longrightarrow> within m ((snd (f n m))\<lparr>isp := isp m\<rparr>))"

definition safe :: "handler \<Rightarrow> bool" where
  "safe h \<longleftrightarrow> (\<forall>op m. conf m (h op m))"

lemma safe_lvo: "safe_bridge lvo \<Longrightarrow> safe (i_lvo lvo)"
proof -
  assume b: "safe_bridge lvo"
  have w: "within m (m'\<lparr>cpc := cpc m, isp := isp m\<rparr>)" if "lvo = Some f" "f n m = (bad, m')" for f n m bad m'
  proof -
    have "within m ((snd (f n m))\<lparr>isp := isp m\<rparr>)" using b that(1) by (simp add: safe_bridge_def)
    then show ?thesis by (simp add: that(2) within_def)
  qed
  show ?thesis
    unfolding safe_def i_lvo_def Let_def by (intro allI confI) (auto intro!: w)
qed

lemma safe_divw: "safe i_divw"
  unfolding safe_def
proof (intro allI)
  fix op m
  show "conf m (i_divw op m)"
    unfolding i_divw_def by (intro confI) (auto dest: divw_src_within)
qed

lemma safe_moves: "safe i_move_l" "safe i_cmp_l" "safe i_move_b" "safe i_move"
  unfolding safe_def i_move_l_def i_cmp_l_def i_move_b_def i_move_def
  by (intro allI conf_if conf_Let conf_operand_case operands_within; simp add: conf_dst)+

lemma safe_movem: "safe i_movem"
  unfolding safe_def
proof (intro allI)
  fix op m
  show "conf m (i_movem op m)"
    unfolding i_movem_def by (intro confI) (auto dest: movem_withinD)
qed

lemma safe_tst: "safe i_tst"
  unfolding safe_def i_tst_def Let_def by (intro allI) (auto intro!: confI)

lemma safe_bcc: "safe i_bcc"
  unfolding safe_def i_bcc_def
  by (intro allI confI) (simp_all only: within_upd within_refl conf_simps)

lemma safe_control_1:
  "safe i_rts" "safe i_nop" "safe i_alu_mem" "safe i_rte" "safe i_trap" "safe i_illegal"
  unfolding safe_def i_rts_def i_nop_def i_alu_mem_def i_rte_def i_trap_def i_illegal_def
  by (intro allI confI; simp)+

lemma safe_control_2:
  "safe i_ccr_moves" "safe i_addsubi_mem" "safe i_cas" "safe i_jsr" "safe i_jmp" "safe i_pcrel"
  unfolding safe_def i_ccr_moves_def i_addsubi_mem_def i_cas_def i_jsr_def i_jmp_def i_pcrel_def
  by (intro allI confI; simp)+

lemma safe_control_3:
  "safe i_link" "safe i_unlk"
  unfolding safe_def i_link_def i_unlk_def
  by (intro allI confI; simp)+

lemma safe_alu_1:
  "safe i_movea_w_imm" "safe i_addsubi_b" "safe i_addsub_b_imm" "safe i_logic_imm" "safe i_clr_mem" "safe i_tst_clr_abs"
  unfolding safe_def i_movea_w_imm_def i_addsubi_b_def i_addsub_b_imm_def i_logic_imm_def i_clr_mem_def i_tst_clr_abs_def
  by (intro allI confI; simp)+

lemma safe_alu_2:
  "safe i_moveq" "safe i_move_l_reg" "safe i_lea" "safe i_addx" "safe i_addsub_l_imm" "safe i_add_l"
  unfolding safe_def i_moveq_def i_move_l_reg_def i_lea_def i_addx_def i_addsub_l_imm_def i_add_l_def
  by (intro allI confI; simp)+

lemma safe_alu_3:
  "safe i_subx" "safe i_addsub_bw" "safe i_addsub_l_d16" "safe i_scc" "safe i_and_l_imm" "safe i_cmpi_b"
  unfolding safe_def i_subx_def i_addsub_bw_def i_addsub_l_d16_def i_scc_def i_and_l_imm_def i_cmpi_b_def
  by (intro allI confI; simp)+

lemma safe_alu_4:
  "safe i_cmpi_mem" "safe i_logic_imm_dn" "safe i_logic_reg" "safe i_muls_w" "safe i_quick_l" "safe i_fdbcc"
  unfolding safe_def i_cmpi_mem_def i_logic_imm_dn_def i_logic_reg_def i_muls_w_def i_quick_l_def i_fdbcc_def
  by (intro allI confI; simp)+

lemma safe_alu_5:
  "safe i_ftrapcc" "safe i_fscc" "safe i_fbcc"
  unfolding safe_def i_ftrapcc_def i_fscc_def i_fbcc_def
  by (intro allI confI; simp)+

lemma safe_move_1:
  "safe i_move_w_reg" "safe i_line0" "safe i_clr_l" "safe i_negx" "safe i_neg" "safe i_line4"
  unfolding safe_def i_move_w_reg_def i_line0_def i_clr_l_def i_negx_def i_neg_def i_line4_def
  by (intro allI confI; simp)+

lemma safe_move_2:
  "safe i_shift_reg" "safe i_shift_l"
  unfolding safe_def i_shift_reg_def i_shift_l_def
  by (intro allI confI; simp)+

lemma safe_ext_1:
  "safe i_adda" "safe i_quick_bw" "safe i_extb" "safe i_pea" "safe i_add_b_reg" "safe i_cmpi_l_d16"
  unfolding safe_def i_adda_def i_quick_bw_def i_extb_def i_pea_def i_add_b_reg_def i_cmpi_l_d16_def
  by (intro allI confI; simp)+

lemma safe_ext_2:
  "safe i_cmpm" "safe i_cmpi_rest" "safe i_move_bw_d16" "safe i_move_pcx" "safe i_add_b_mem" "safe i_move_w_imm"
  unfolding safe_def i_cmpm_def i_cmpi_rest_def i_move_bw_d16_def i_move_pcx_def i_add_b_mem_def i_move_w_imm_def
  by (intro allI confI; simp)+

lemma safe_ext_3:
  "safe i_mul_l" "safe i_div_l" "safe i_shift_bw" "safe i_color00"
  unfolding safe_def i_mul_l_def i_div_l_def i_shift_bw_def i_color00_def
  by (intro allI confI; simp)+

lemmas safe_blocks = safe_divw safe_moves safe_movem safe_tst safe_bcc
  safe_control_1 safe_control_2 safe_control_3 safe_alu_1 safe_alu_2 safe_alu_3 safe_alu_4 safe_alu_5 safe_move_1 safe_move_2 safe_ext_1 safe_ext_2 safe_ext_3

subsection \<open>The chain, the step and the loop\<close>

lemma conf_trans: "within m m' \<Longrightarrow> conf m' r \<Longrightarrow> conf m r"
  by (cases r) (auto intro: within_trans)

lemma safe_or_else: "safe h \<Longrightarrow> safe k \<Longrightarrow> safe (or_else h k)"
  unfolding safe_def or_else_def
proof (intro allI)
  fix op m
  assume "\<forall>op m. conf m (h op m)" "\<forall>op m. conf m (k op m)"
  then have h: "conf m (h op m)" and k: "\<And>m'. conf m' (k op m')" by blast+
  show "conf m (case h op m of Fall m' \<Rightarrow> k op m' | r \<Rightarrow> r)"
    using h conf_trans [OF _ k] by (cases "h op m") simp_all
qed

lemma safe_chain: "list_all safe hs \<Longrightarrow> safe (chain hs)"
proof (induction hs)
  case (Cons h hs)
  then have "safe (or_else h (chain hs))" by (simp add: safe_or_else)
  then show ?case by (simp add: safe_def)
qed (simp add: safe_def)

definition safe_env :: "env \<Rightarrow> bool" where
  "safe_env e \<longleftrightarrow> safe_bridge (e_lvo e) \<and> safe (e_fpu e)"

lemma safe_exec: "safe_env e \<Longrightarrow> safe (exec_op e)"
proof -
  assume e: "safe_env e"
  have "safe (chain (blocks e))"
    by (rule safe_chain)
       (use e safe_lvo in \<open>simp add: blocks_def control_blocks_def alu_blocks_def move_blocks_def ext_blocks_def
          last_blocks_def safe_blocks safe_env_def\<close>)
  then have "conf m (chain (blocks e) op m)" for op m by (simp add: safe_def)
  then have "conf m (exec_op e op m)" for op m
    unfolding exec_op_def by (cases "chain (blocks e) op m") (metis conf_simps outcome.simps)+
  then show ?thesis by (simp add: safe_def)
qed

lemma safe_step: "safe_env e \<Longrightarrow> conf m (interp_step e n m)"
proof -
  assume e: "safe_env e"
  have x: "conf m (exec_op e op (m\<lparr>st_pc := pc\<rparr>))" for op pc
  proof -
    have "conf (m\<lparr>st_pc := pc\<rparr>) (exec_op e op (m\<lparr>st_pc := pc\<rparr>))" using safe_exec [OF e] by (simp add: safe_def)
    then show ?thesis by (rule conf_trans [rotated]) simp
  qed
  show ?thesis unfolding interp_step_def Let_def
    by (intro confI x) simp_all
qed

lemma safe_loop: "safe_env e \<Longrightarrow> conf m (interp_loop e n k m)"
proof (induction e n k m rule: interp_loop.induct)
  case (2 e n k m)
  have c: "conf m (interp_step e (n + 1) m)" by (rule safe_step [OF 2(2)])
  show ?case
  proof (cases "interp_step e (n + 1) m")
    case (Next m')
    then have "conf m' (interp_loop e (n + 1) k m')" "within m m'" using 2(1) [OF Next 2(2)] c by simp_all
    then show ?thesis using Next conf_trans by simp
  qed (use c in auto)
qed simp

text \<open>The machine an outcome carries.\<close>

fun after :: "outcome \<Rightarrow> m68k" where
  "after (Next m) = m" | "after (Fall m) = m" | "after (Exit d m) = m" | "after (IFail e m) = m"
| "after (StopAt m) = m" | "after (Killed m) = m"

lemma conf_after: "conf m r \<longleftrightarrow> within m (after r)"
  by (cases r) simp_all

lemma start_region:
  "org (interp_start pc b m) = org m" "msz (interp_start pc b m) = msz m" "hmem (interp_start pc b m) = hmem m"
  by (simp_all add: interp_start_def Let_def set_a_def set_pc_def)

subsection \<open>Properties\<close>


definition plain_env :: env where
  "plain_env = \<lparr>e_lvo = None, e_take_stop = (\<lambda>_. False), e_stop_pc = None, e_hook = None, e_fpu = (\<lambda>op m. Fall m)\<rparr>"

lemma plain_safe: "safe_env plain_env"
  by (simp add: plain_env_def safe_env_def safe_bridge_def safe_def)

definition demo_m68k :: m68k where
  "demo_m68k = \<lparr>dreg = (\<lambda>_. 0), areg = (\<lambda>_. 0), ccr = 0, st_pc = 0, sr_high = 0, exc_count = 0, fpr = (\<lambda>_. 0), fpcr = 0,
     fpsr = 0, fpiar = 0, hmem = (\<lambda>_. 0), org = 0x1000, msz = 64, cpc = 0x1000, isp = 0x1040, exlog = None\<rparr>"


end
