(* ===== verification/M68kArith.thy ===== *)
theory M68kArith
  imports M68kSafe
begin

text \<open>
  The arithmetic of the interpreter: the condition codes that the XOR-and-mask formulas of the C
  code compute are the integer conditions of the processor manual, at every operand size; the branch conditions
  after a comparison are the comparisons of the numbers; and ADD.L followed by ADDX.L adds 64-bit numbers.
\<close>

subsection \<open>Condition code words\<close>

definition mk_cc :: "bool \<Rightarrow> bool \<Rightarrow> bool \<Rightarrow> bool \<Rightarrow> bool \<Rightarrow> u32" where
  "mk_cc x n z v c = flag x CCR_X OR flag n CCR_N OR flag z CCR_Z OR flag v CCR_V OR flag c CCR_C"

lemma mk_cc_bits [simp]:
  "(mk_cc x n z v c AND CCR_X \<noteq> 0) = x" "(mk_cc x n z v c AND CCR_N \<noteq> 0) = n" "(mk_cc x n z v c AND CCR_Z \<noteq> 0) = z"
  "(mk_cc x n z v c AND CCR_V \<noteq> 0) = v" "(mk_cc x n z v c AND CCR_C \<noteq> 0) = c"
  by (cases x; cases n; cases z; cases v; cases c; simp add: mk_cc_def flag_def ccr_defs)+

lemma and_exp: "(k::'a::len word) AND 2 ^ n = (if bit k n then 2 ^ n else 0)"
  by (rule bit_eqI) (auto simp: bit_and_iff bit_exp_iff)

lemma keep_x: "k AND CCR_X = flag (k AND CCR_X \<noteq> 0) CCR_X"
  using and_exp [of k 4] by (simp add: CCR_X_def flag_def split: if_splits)

lemma flags_join:
  "flag p CCR_X OR flag c CCR_C OR flag v CCR_V OR (flag z CCR_Z OR flag n CCR_N) = mk_cc p n z v c"
  "flag c (CCR_C OR CCR_X) OR flag v CCR_V OR (flag z CCR_Z OR flag n CCR_N) = mk_cc c n z v c"
  by (cases p; cases n; cases z; cases v; cases c; simp add: mk_cc_def flag_def ccr_defs)+

lemma flags_mk_cc:
  "flag c (CCR_C OR CCR_X) OR flag v CCR_V OR nz_sz bits r = mk_cc c (r AND szmsb bits \<noteq> 0) (r = 0) v c"
  "(k AND CCR_X) OR flag c CCR_C OR flag v CCR_V OR nz_sz bits r =
     mk_cc (k AND CCR_X \<noteq> 0) (r AND szmsb bits \<noteq> 0) (r = 0) v c"
  by (simp_all only: nz_sz_def flags_join) (subst keep_x, rule flags_join)

subsection \<open>Sizes as integers\<close>

text \<open>The operand sizes; the number a masked operand stands for when it is read as signed.\<close>

definition op_size :: "nat \<Rightarrow> bool" where "op_size bits \<longleftrightarrow> bits = 8 \<or> bits = 16 \<or> bits = 32"

definition sval :: "nat \<Rightarrow> u32 \<Rightarrow> int" where
  "sval bits a = (if 2 ^ (bits - 1) \<le> uint a then uint a - 2 ^ bits else uint a)"

definition in_srange :: "nat \<Rightarrow> int \<Rightarrow> bool" where
  "in_srange bits x \<longleftrightarrow> - (2 ^ (bits - 1)) \<le> x \<and> x < 2 ^ (bits - 1)"

lemma size_cases [elim]:
  assumes "op_size bits" obtains "bits = 8" | "bits = 16" | "bits = 32"
  using assms by (auto simp: op_size_def)

lemma size_pow: "op_size bits \<Longrightarrow> (2::int) ^ bits = 2 * 2 ^ (bits - 1)"
  by (auto simp: op_size_def)

lemma szmask_mask: "op_size bits \<Longrightarrow> szmask bits = mask bits"
  by (auto simp: op_size_def szmask_def mask_eq_exp_minus_1)

lemma szmask_carry: "op_size bits \<Longrightarrow> (ucast (szmask bits) + 1 :: u64) = 2 ^ bits"
  by (auto simp: op_size_def szmask_def)

lemma szmsb_bit: "(x AND szmsb bits \<noteq> 0) = bit x (bits - 1)" if "op_size bits"
  using that and_exp [of x "bits - 1"] by (auto simp: op_size_def szmsb_def)

lemma uint_masked: "op_size bits \<Longrightarrow> uint ((x::u32) AND szmask bits) = uint x mod 2 ^ bits"
  by (simp only: szmask_mask take_bit_eq_mask [symmetric] unsigned_take_bit_eq) (simp add: take_bit_eq_mod)

lemma masked_le: "op_size bits \<Longrightarrow> x \<le> szmask bits \<longleftrightarrow> uint x < 2 ^ bits"
  using uint_lt2p [of x] by (auto simp: op_size_def szmask_def word_le_def)

lemma bit_high:
  fixes x :: u32
  assumes "op_size bits" and "uint x < 2 ^ bits" shows "bit x (bits - 1) \<longleftrightarrow> 2 ^ (bits - 1) \<le> uint x"
proof -
  let ?P = "(2::int) ^ (bits - 1)"
  have p: "0 < ?P" by simp
  have "bit x (bits - 1) \<longleftrightarrow> bit (uint x) (bits - 1)"
    using assms(1) by (auto simp: op_size_def bit_uint_iff)
  then have "bit x (bits - 1) \<longleftrightarrow> odd (uint x div ?P)"
    by (simp only: bit_iff_odd [of "uint x"])
  moreover have "uint x < 2 * ?P" using assms size_pow by simp
  then have "uint x div ?P = (if ?P \<le> uint x then 1 else 0)"
    using p by (auto simp: div_pos_pos_trivial intro!: div_pos_geq [THEN trans])
  ultimately show ?thesis by auto
qed


lemma masked_high: "op_size bits \<Longrightarrow> uint x < 2 ^ bits \<Longrightarrow> (x AND szmsb bits \<noteq> 0) = (2 ^ (bits - 1) \<le> uint x)"
  by (simp only: szmsb_bit bit_high)

lemma xor_high:
  "op_size bits \<Longrightarrow> ((a XOR b) AND (c XOR d) AND szmsb bits \<noteq> 0) =
     ((bit a (bits - 1) \<noteq> bit b (bits - 1)) \<and> (bit c (bits - 1) \<noteq> bit d (bits - 1)))"
  by (simp only: and.assoc [symmetric] szmsb_bit bit_and_iff bit_xor_iff)

lemma dvd_size: "op_size bits \<Longrightarrow> (2::int) ^ bits dvd 2 ^ 32"
  by (rule le_imp_power_dvd) (auto simp: op_size_def)

lemma diff_masked: "op_size bits \<Longrightarrow> uint ((a - b) AND szmask bits) = (uint a - uint b) mod 2 ^ bits"
  by (simp add: uint_masked uint_word_ariths mod_mod_cancel [OF dvd_size, simplified])

lemma uint_ucast64: "uint (ucast (a::u32) :: u64) = uint a"
  using uint_lt2p [of a] by (simp add: unsigned_ucast_eq take_bit_int_eq_self)

lemma sum_masked:
  "op_size bits \<Longrightarrow> uint ((ucast (ucast (a::u32) + ucast (b::u32) :: u64) :: u32) AND szmask bits) = (uint a + uint b) mod 2 ^ bits"
proof -
  assume s: "op_size bits"
  have "(ucast (ucast a + ucast b :: u64) :: u32) = a + b"
    by (rule word_uint_eqI) (simp add: unsigned_ucast_eq uint_word_ariths take_bit_eq_mod mod_simps mod_mod_cancel)
  then show ?thesis using s by (simp add: uint_masked uint_word_ariths mod_mod_cancel [OF dvd_size, simplified])
qed

text \<open>Addition and subtraction of numbers below twice \<open>p\<close>, with a carry, in the two's complement reading.\<close>

lemma add_twos_carry:
  fixes x y p c :: int
  assumes "0 \<le> x" "x < 2 * p" "0 \<le> y" "y < 2 * p" "c = 0 \<or> c = 1"
  defines "r \<equiv> (x + y + c) mod (2 * p)"
  shows "r = (if x + y + c < 2 * p then x + y + c else x + y + c - 2 * p)"
    "((p \<le> x) \<noteq> (p \<le> r) \<and> (p \<le> y) \<noteq> (p \<le> r)) =
     (\<not> (- p \<le> (if p \<le> x then x - 2 * p else x) + (if p \<le> y then y - 2 * p else y) + c \<and>
         (if p \<le> x then x - 2 * p else x) + (if p \<le> y then y - 2 * p else y) + c < p))"
proof -
  show r: "r = (if x + y + c < 2 * p then x + y + c else x + y + c - 2 * p)"
  proof (cases "x + y + c < 2 * p")
    case False
    have "r = (x + y + c - 2 * p) mod (2 * p)" by (simp add: r_def)
    also have "\<dots> = x + y + c - 2 * p" using False assms(1-5) by (intro mod_pos_pos_trivial) auto
    finally show ?thesis using False by simp
  qed (use assms in \<open>auto simp: r_def\<close>)
  show "((p \<le> x) \<noteq> (p \<le> r) \<and> (p \<le> y) \<noteq> (p \<le> r)) =
     (\<not> (- p \<le> (if p \<le> x then x - 2 * p else x) + (if p \<le> y then y - 2 * p else y) + c \<and>
         (if p \<le> x then x - 2 * p else x) + (if p \<le> y then y - 2 * p else y) + c < p))"
    unfolding r using assms(1-5) by auto
qed

lemma sub_twos_borrow:
  fixes x y p c :: int
  assumes "0 \<le> x" "x < 2 * p" "0 \<le> y" "y < 2 * p" "c = 0 \<or> c = 1"
  defines "r \<equiv> (x - y - c) mod (2 * p)"
  shows "r = (if y + c \<le> x then x - y - c else x - y - c + 2 * p)"
    "((p \<le> x) \<noteq> (p \<le> y) \<and> (p \<le> x) \<noteq> (p \<le> r)) =
     (\<not> (- p \<le> (if p \<le> x then x - 2 * p else x) - (if p \<le> y then y - 2 * p else y) - c \<and>
         (if p \<le> x then x - 2 * p else x) - (if p \<le> y then y - 2 * p else y) - c < p))"
proof -
  show r: "r = (if y + c \<le> x then x - y - c else x - y - c + 2 * p)"
  proof (cases "y + c \<le> x")
    case False
    have "r = (x - y - c + 2 * p) mod (2 * p)" by (simp add: r_def)
    also have "\<dots> = x - y - c + 2 * p" using False assms(1-5) by (intro mod_pos_pos_trivial) auto
    finally show ?thesis using False by simp
  qed (use assms in \<open>auto simp: r_def\<close>)
  show "((p \<le> x) \<noteq> (p \<le> y) \<and> (p \<le> x) \<noteq> (p \<le> r)) =
     (\<not> (- p \<le> (if p \<le> x then x - 2 * p else x) - (if p \<le> y then y - 2 * p else y) - c \<and>
         (if p \<le> x then x - 2 * p else x) - (if p \<le> y then y - 2 * p else y) - c < p))"
    unfolding r using assms(1-5) by auto
qed

lemma add_overflow:
  fixes a b r :: u32
  assumes s: "op_size bits" and a: "a \<le> szmask bits" and b: "b \<le> szmask bits" and c: "c = 0 \<or> c = 1"
    and r: "uint r = (uint a + uint b + c) mod 2 ^ bits"
  shows "((a XOR r) AND (b XOR r) AND szmsb bits \<noteq> 0) = (\<not> in_srange bits (sval bits a + sval bits b + c))"
proof -
  have u: "uint a < 2 ^ bits" "uint b < 2 ^ bits" "uint r < 2 ^ bits"
    using a b masked_le [OF s] r by simp_all
  show ?thesis
    by (simp only: xor_high [OF s] bit_high [OF s u(1)] bit_high [OF s u(2)] bit_high [OF s u(3)] in_srange_def sval_def
        r size_pow [OF s] add_twos_carry(2) [OF _ u(1) [unfolded size_pow [OF s]] _ u(2) [unfolded size_pow [OF s]] c] uint_ge_0)
qed

lemma sub_overflow:
  fixes a b r :: u32
  assumes s: "op_size bits" and a: "a \<le> szmask bits" and b: "b \<le> szmask bits" and c: "c = 0 \<or> c = 1"
    and r: "uint r = (uint a - uint b - c) mod 2 ^ bits"
  shows "((a XOR b) AND (a XOR r) AND szmsb bits \<noteq> 0) = (\<not> in_srange bits (sval bits a - sval bits b - c))"
proof -
  have u: "uint a < 2 ^ bits" "uint b < 2 ^ bits" "uint r < 2 ^ bits"
    using a b masked_le [OF s] r by simp_all
  show ?thesis
    by (simp only: xor_high [OF s] bit_high [OF s u(1)] bit_high [OF s u(2)] bit_high [OF s u(3)] in_srange_def sval_def
        r size_pow [OF s] sub_twos_borrow(2) [OF _ u(1) [unfolded size_pow [OF s]] _ u(2) [unfolded size_pow [OF s]] c] uint_ge_0)
qed

lemmas add_overflow_0 = add_overflow [where c = 0, simplified]
lemmas sub_overflow_0 = sub_overflow [where c = 0, simplified]

lemma add_carry:
  fixes a b :: u32
  assumes s: "op_size bits" and a: "a \<le> szmask bits" and b: "b \<le> szmask bits"
  shows "((ucast a + ucast b :: u64) AND (ucast (szmask bits) + 1) \<noteq> 0) = (2 ^ bits \<le> uint a + uint b)"
proof -
  have u: "uint a < 2 ^ bits" "uint b < 2 ^ bits" using a b masked_le [OF s] by simp_all
  have "uint a + uint b < 2 ^ 64" using uint_lt2p [of a] uint_lt2p [of b] by simp
  then have t: "uint (ucast a + ucast b :: u64) = uint a + uint b"
    by (simp add: uint_word_ariths uint_ucast64)
  have "((ucast a + ucast b :: u64) AND 2 ^ bits \<noteq> 0) = bit (ucast a + ucast b :: u64) bits"
    using s by (auto simp: and_exp op_size_def)
  also have "\<dots> = bit (uint (ucast a + ucast b :: u64)) bits"
    using s by (auto simp: op_size_def bit_uint_iff)
  also have "\<dots> = odd ((uint a + uint b) div 2 ^ bits)" by (simp only: t bit_iff_odd)
  also have "(uint a + uint b) div 2 ^ bits = (if 2 ^ bits \<le> uint a + uint b then 1 else 0)"
    using u by (auto simp: div_pos_pos_trivial intro!: div_pos_geq [THEN trans])
  finally show ?thesis by (simp add: szmask_carry [OF s])
qed


lemma masked_codes:
  assumes s: "op_size bits" and x: "uint x = d mod 2 ^ bits"
  shows "(x AND szmsb bits \<noteq> 0) = (2 ^ (bits - 1) \<le> d mod 2 ^ bits)" "(x = 0) = (d mod 2 ^ bits = 0)"
    "x = word_of_int (d mod 2 ^ bits)"
proof -
  show "(x AND szmsb bits \<noteq> 0) = (2 ^ (bits - 1) \<le> d mod 2 ^ bits)"
    using masked_high [OF s, of x] x by simp
  show "(x = 0) = (d mod 2 ^ bits = 0)" by (simp only: uint_0_iff [symmetric] x)
  show "x = word_of_int (d mod 2 ^ bits)" by (simp flip: x)
qed

lemma sized_codes:
  assumes s: "op_size bits" and a: "a \<le> szmask bits" and b: "b \<le> szmask bits"
  shows "add_sz bits a b = (let d = (uint a + uint b) mod 2 ^ bits; c = 2 ^ bits \<le> uint a + uint b in
           (word_of_int d, mk_cc c (2 ^ (bits - 1) \<le> d) (d = 0) (\<not> in_srange bits (sval bits a + sval bits b)) c))"
    and "sub_sz bits a b = (let d = (uint a - uint b) mod 2 ^ bits; c = a < b in
           (word_of_int d, mk_cc c (2 ^ (bits - 1) \<le> d) (d = 0) (\<not> in_srange bits (sval bits a - sval bits b)) c))"
    and "cmp_sz bits a b k = (let d = (uint a - uint b) mod 2 ^ bits in
           mk_cc (k AND CCR_X \<noteq> 0) (2 ^ (bits - 1) \<le> d) (d = 0) (\<not> in_srange bits (sval bits a - sval bits b)) (a < b))"
  by (simp_all only: masked_codes(3) [OF s sum_masked [OF s], of a b, symmetric]
      masked_codes(3) [OF s diff_masked [OF s], of a b, symmetric] add_sz_def sub_sz_def cmp_sz_def Let_def add_carry [OF s a b] add_overflow_0 [OF s a b sum_masked [OF s]]
      sub_overflow_0 [OF s a b diff_masked [OF s]] flags_mk_cc masked_codes(1,2) [OF s sum_masked [OF s]] masked_codes(1,2) [OF s diff_masked [OF s]])

subsection \<open>The longword forms and the branch conditions\<close>

lemma szmask_32: "szmask 32 = - 1" "szmsb 32 = 0x80000000" "x \<le> szmask 32" "x AND szmask 32 = x" "op_size 32"
proof -
  show 1: "szmask 32 = - 1" by (simp add: szmask_def)
  show "x \<le> szmask 32" "x AND szmask 32 = x" unfolding 1 by simp_all
qed (simp_all add: szmsb_def op_size_def)

lemma nz32_flags:
  "nz32 res (flag c (CCR_C OR CCR_X) OR flag v CCR_V) OR ((flag c (CCR_C OR CCR_X) OR flag v CCR_V) AND (CCR_V OR CCR_C OR CCR_X)) =
     flag c (CCR_C OR CCR_X) OR flag v CCR_V OR nz_sz 32 res"
  by (cases c; cases v; simp add: nz32_def nz_sz_def flag_def ccr_defs szmask_32)

lemma carry_32: "(drop_bit 32 (ucast (a::u32) + ucast (b::u32) :: u64) \<noteq> 0) = (2 ^ 32 \<le> uint a + uint b)"
proof -
  have t: "uint (ucast a + ucast b :: u64) = uint a + uint b"
    using uint_lt2p [of a] uint_lt2p [of b] by (simp add: uint_word_ariths uint_ucast64)
  have "(drop_bit 32 (ucast a + ucast b :: u64) \<noteq> 0) = (drop_bit 32 (uint (ucast a + ucast b :: u64)) \<noteq> 0)"
    using take_bit_int_eq_self [OF uint_ge_0, of "ucast a + ucast b :: u64" 64] uint_lt2p [of "ucast a + ucast b :: u64"]
    by (simp add: uint_0_iff [symmetric] unsigned_drop_bit_eq)
  also have "\<dots> = ((uint a + uint b) div 2 ^ 32 \<noteq> 0)" by (simp only: t drop_bit_eq_div)
  also have "\<dots> = (2 ^ 32 \<le> uint a + uint b)"
  proof (cases "2 ^ 32 \<le> uint a + uint b")
    case True
    then have "0 < (uint a + uint b) div 2 ^ 32" by (subst pos_imp_zdiv_pos_iff) simp_all
    then show ?thesis using True by simp
  qed simp
  finally show ?thesis .
qed

lemma add_l_sz: "add_l a b = add_sz 32 a b"
proof -
  have c: "((ucast a + ucast b :: u64) AND (ucast (szmask 32) + 1) \<noteq> 0) = (2 ^ 32 \<le> uint a + uint b)"
    by (rule add_carry) (rule szmask_32)+
  show ?thesis unfolding add_l_def add_sz_def Let_def nz32_flags carry_32 c szmask_32(2,4) ..
qed

lemma sub_l_sz: "sub_l a b = sub_sz 32 a b"
  unfolding sub_l_def sub_sz_def Let_def nz32_flags szmask_32(2,4) ..

text \<open>What a branch sees after a comparison.\<close>

lemma cmp_twos:
  fixes x y p :: int
  assumes "0 \<le> x" "x < 2 * p" "0 \<le> y" "y < 2 * p"
  defines "sx \<equiv> if p \<le> x then x - 2 * p else x" and "sy \<equiv> if p \<le> y then y - 2 * p else y"
  shows "((p \<le> (if y \<le> x then x - y else x - y + 2 * p)) = (\<not> (- p \<le> sx - sy \<and> sx - sy < p))) = (sy \<le> sx)"
    "(sx = sy) = (x = y)"
  using assms(1-4) by (auto simp: sx_def sy_def)

lemma cmp_relations:
  fixes a b :: u32
  assumes s: "op_size bits" and a: "a \<le> szmask bits" and b: "b \<le> szmask bits"
  defines "d \<equiv> (uint a - uint b) mod 2 ^ bits"
  shows "(d = 0) = (a = b)"
    "((2 ^ (bits - 1) \<le> d) = (\<not> in_srange bits (sval bits a - sval bits b))) = (sval bits b \<le> sval bits a)"
    "(sval bits a = sval bits b) = (a = b)"
proof -
  let ?P = "(2::int) ^ (bits - 1)"
  have u: "uint a < 2 * ?P" "uint b < 2 * ?P" using a b masked_le [OF s] size_pow [OF s] by simp_all
  have d: "d = (if uint b \<le> uint a then uint a - uint b else uint a - uint b + 2 * ?P)"
  proof (cases "uint b \<le> uint a")
    case False
    have "d = (uint a - uint b + 2 * ?P) mod (2 * ?P)" by (simp only: d_def size_pow [OF s] mod_add_self2)
    also have "\<dots> = uint a - uint b + 2 * ?P" using False u uint_ge_0 [of a] by (intro mod_pos_pos_trivial) linarith+
    finally show ?thesis using False by simp
  next
    case True
    have "d = (uint a - uint b) mod (2 * ?P)" by (simp only: d_def size_pow [OF s])
    also have "\<dots> = uint a - uint b" using True u uint_ge_0 [of b] by (intro mod_pos_pos_trivial) linarith+
    finally show ?thesis using True by simp
  qed
  show "(d = 0) = (a = b)"
  proof (cases "uint b \<le> uint a")
    case False
    have "0 < uint a - uint b + 2 * ?P" using u(2) uint_ge_0 [of a] by linarith
    then have "0 < d" using False by (simp add: d)
    then show ?thesis using False by auto
  qed (use d in \<open>simp add: word_uint_eq_iff\<close>)
  show "((?P \<le> d) = (\<not> in_srange bits (sval bits a - sval bits b))) = (sval bits b \<le> sval bits a)"
    unfolding d sval_def in_srange_def size_pow [OF s] by (rule cmp_twos) (use u in simp_all)
  show "(sval bits a = sval bits b) = (a = b)"
    unfolding sval_def size_pow [OF s] word_uint_eq_iff by (rule cmp_twos) (use u in simp_all)
qed

lemma bcc_mk_cc:
  "bcc_taken 0x2 (mk_cc x n z v c) = (\<not> c \<and> \<not> z)" "bcc_taken 0x3 (mk_cc x n z v c) = (c \<or> z)"
  "bcc_taken 0x4 (mk_cc x n z v c) = (\<not> c)" "bcc_taken 0x5 (mk_cc x n z v c) = c"
  "bcc_taken 0x6 (mk_cc x n z v c) = (\<not> z)" "bcc_taken 0x7 (mk_cc x n z v c) = z"
  "bcc_taken 0xC (mk_cc x n z v c) = (n = v)" "bcc_taken 0xD (mk_cc x n z v c) = (n \<noteq> v)"
  "bcc_taken 0xE (mk_cc x n z v c) = (\<not> z \<and> n = v)" "bcc_taken 0xF (mk_cc x n z v c) = (z \<or> n \<noteq> v)"
  by (simp_all add: bcc_taken_def Let_def)

subsection \<open>Properties\<close>

text \<open>C14. The condition codes of addition, subtraction and comparison at 8, 16 and 32 bits: on operands
  of that size the result is the sum or difference modulo \<open>2 ^ bits\<close>, C (and X, which a
  comparison keeps) is the carry or the borrow, Z is a zero result, N its sign, and V says that the exact result of
  the signed operands does not fit the size.\<close>

theorem condition_codes:
  assumes "op_size bits" and "a \<le> szmask bits" and "b \<le> szmask bits"
  shows "add_sz bits a b = (let d = (uint a + uint b) mod 2 ^ bits; c = 2 ^ bits \<le> uint a + uint b in
           (word_of_int d, mk_cc c (2 ^ (bits - 1) \<le> d) (d = 0) (\<not> in_srange bits (sval bits a + sval bits b)) c)) \<and>
    sub_sz bits a b = (let d = (uint a - uint b) mod 2 ^ bits; c = a < b in
           (word_of_int d, mk_cc c (2 ^ (bits - 1) \<le> d) (d = 0) (\<not> in_srange bits (sval bits a - sval bits b)) c)) \<and>
    cmp_sz bits a b k = (let d = (uint a - uint b) mod 2 ^ bits in
           mk_cc (k AND CCR_X \<noteq> 0) (2 ^ (bits - 1) \<le> d) (d = 0) (\<not> in_srange bits (sval bits a - sval bits b)) (a < b))"
  by (intro conjI sized_codes assms)

theorem condition_codes_witness:
  "sub_sz 8 0x80 0x01 = (0x7F, mk_cc False False False True False)"
  using condition_codes [of 8 "0x80" "0x01" 0] by (simp add: op_size_def szmask_def sval_def in_srange_def)


text \<open>C15. The branch conditions after a comparison are the comparisons of the operands: HI, LS, CC and CS
  of the unsigned numbers, GE, LT, GT and LE of the signed ones, NE and EQ of both, at every operand size.\<close>

theorem bcc_after_cmp:
  assumes "op_size bits" and "a \<le> szmask bits" and "b \<le> szmask bits"
  shows "bcc_taken 0x2 (cmp_sz bits a b k) = (b < a) \<and> bcc_taken 0x3 (cmp_sz bits a b k) = (a \<le> b) \<and>
    bcc_taken 0x4 (cmp_sz bits a b k) = (b \<le> a) \<and> bcc_taken 0x5 (cmp_sz bits a b k) = (a < b) \<and>
    bcc_taken 0x6 (cmp_sz bits a b k) = (a \<noteq> b) \<and> bcc_taken 0x7 (cmp_sz bits a b k) = (a = b) \<and>
    bcc_taken 0xC (cmp_sz bits a b k) = (sval bits b \<le> sval bits a) \<and>
    bcc_taken 0xD (cmp_sz bits a b k) = (sval bits a < sval bits b) \<and>
    bcc_taken 0xE (cmp_sz bits a b k) = (sval bits b < sval bits a) \<and>
    bcc_taken 0xF (cmp_sz bits a b k) = (sval bits a \<le> sval bits b)"
proof -
  note r = cmp_relations [OF assms]
  show ?thesis unfolding sized_codes(3) [OF assms] Let_def bcc_mk_cc r(1,2) using r(3) by auto
qed

theorem bcc_after_cmp_witness:
  "bcc_taken 0xD (cmp_sz 8 0xFF 0x01 0) \<and> \<not> bcc_taken 0x5 (cmp_sz 8 0xFF 0x01 0)"
  using bcc_after_cmp [of 8 "0xFF" "0x01" 0] by (simp add: op_size_def szmask_def sval_def)

text \<open>The longword additions and subtractions, which the interpreter computes with a 64-bit sum and its own
  flag formulas, are the sized ones at 32 bits.\<close>

theorem longword_forms:
  "add_l a b = add_sz 32 a b \<and> sub_l a b = sub_sz 32 a b"
  by (simp only: add_l_sz sub_l_sz)

end
