(* ===== verification/M68kWide.thy ===== *)
theory M68kWide
  imports M68kArith
begin

text \<open>
  Running single opcodes of the reference interpreter through its whole chain of blocks, and the
  multi-precision arithmetic: ADD.L followed by ADDX.L, and SUB.L followed by SUBX.L, on a register pair are the
  64-bit operations, with the condition codes of 64-bit numbers.
\<close>

subsection \<open>One opcode through the chain\<close>

lemmas block_defs = exec_op_def blocks_def control_blocks_def alu_blocks_def move_blocks_def ext_blocks_def last_blocks_def
  or_else_def

lemmas control_defs = i_rts_def i_nop_def i_alu_mem_def i_rte_def i_trap_def i_illegal_def i_divw_def i_lvo_def
  i_ccr_moves_def i_addsubi_mem_def i_cas_def i_jsr_def i_jmp_def i_pcrel_def i_link_def i_unlk_def

lemmas alu_defs = i_movea_w_imm_def i_addsubi_b_def i_addsub_b_imm_def i_logic_imm_def i_clr_mem_def i_tst_clr_abs_def
  i_moveq_def i_move_l_reg_def i_lea_def i_addx_def i_addsub_l_imm_def i_add_l_def i_subx_def i_addsub_bw_def
  i_addsub_l_d16_def i_scc_def i_and_l_imm_def i_cmpi_b_def i_cmpi_mem_def i_logic_imm_dn_def i_logic_reg_def
  i_muls_w_def i_quick_l_def i_bcc_def i_fdbcc_def i_ftrapcc_def i_fscc_def i_fbcc_def

lemmas move_defs = i_move_l_def i_move_w_reg_def i_line0_def i_movem_def i_clr_l_def i_negx_def i_neg_def i_line4_def
  i_shift_reg_def i_shift_l_def

lemmas run_defs = block_defs control_defs alu_defs move_defs fld_def Let_def szbits_def

text \<open>A block that does not fall through decides the opcode.\<close>

lemma outcome_id:
  "(\<And>m'. r \<noteq> Fall m') \<Longrightarrow> (case r of Next a \<Rightarrow> Next a | Fall m' \<Rightarrow> f m' | Exit d a \<Rightarrow> Exit d a | IFail s a \<Rightarrow> IFail s a
     | StopAt a \<Rightarrow> StopAt a | Killed a \<Rightarrow> Killed a) = r"
  by (cases r) auto

text \<open>\<open>add.l d3,d1\<close>, \<open>addx.l d2,d0\<close>, \<open>sub.l d3,d1\<close>, \<open>subx.l d2,d0\<close>.\<close>

lemma exec_add_l: "exec_op e 0xD283 m = Next (adv 2 (put_d 32 1 (add_l (dreg m 1) (dreg m 3)) m))"
  by (simp add: run_defs)

lemma exec_sub_l: "exec_op e 0x9283 m = Next (adv 2 (put_d 32 1 (sub_l (dreg m 1) (dreg m 3)) m))"
  by (simp add: run_defs)

lemma exec_addx_l: "exec_op e 0xD182 m = i_addx 0xD182 m"
  by (simp add: run_defs)

lemma exec_subx_l: "exec_op e 0x9182 m = i_subx 0x9182 m"
  by (simp add: run_defs)

lemma exec_rts: "exec_op e 0x4E75 m = i_rts 0x4E75 m"
  by (simp add: run_defs)

subsection \<open>The extended operations at 32 bits\<close>

lemma sized_x_mk_cc:
  "sized_x_ccr res bits c v k = mk_cc c (res AND szmsb bits \<noteq> 0) (res = 0 \<and> k AND CCR_Z \<noteq> 0) v c"
proof -
  have "k AND CCR_Z = flag (k AND CCR_Z \<noteq> 0) CCR_Z"
    using and_exp [of k 2] by (simp add: CCR_Z_def flag_def split: if_splits)
  then obtain z where z: "k AND CCR_Z = flag z CCR_Z" by blast
  show ?thesis
    by (cases "res = 0"; cases "res AND szmsb bits = 0"; cases c; cases v; cases z)
      (simp_all add: sized_x_ccr_def z [unfolded CCR_Z_def flag_def] mk_cc_def flag_def ccr_defs)
qed

text \<open>The X flag as a number, and what ADDX.L and SUBX.L compute with it.\<close>

lemma uint_xbit: "uint (xbit m) = of_bool (ccr m AND CCR_X \<noteq> 0)"
  by (simp add: xbit_def)

lemma uint_32: "uint (a::u32) < 2 * 2 ^ 31" "0 \<le> uint a"
  using uint_lt2p [of a] by simp_all

lemma adv_put_simps [simp]:
  "dreg (adv k m) = dreg m" "areg (adv k m) = areg m" "ccr (adv k m) = ccr m" "cpc (adv k m) = cpc m + of_nat k"
  "dreg (put_d 32 n rc m) = (dreg m)(n := fst rc)" "areg (put_d 32 n rc m) = areg m" "ccr (put_d 32 n rc m) = snd rc"
  "hmem (adv k m) = hmem m" "hmem (put_d b n rc m) = hmem m"
  by (simp_all add: adv_def set_pc_def put_d_def set_cc_def set_d_def merge_def szmask_32 split: prod.splits)

lemma low_32 [simp]: "low 32 m n = dreg m n"
  by (simp add: low_def szmask_32)

lemma addx_32:
  defines "s m \<equiv> uint (dreg m 0) + uint (dreg m 2) + of_bool (ccr m AND CCR_X \<noteq> 0)"
  shows "i_addx 0xD182 m = Next (adv 2 (put_d 32 0 (word_of_int (s m mod 2 ^ 32),
     mk_cc (2 ^ 32 \<le> s m) (2 ^ 31 \<le> s m mod 2 ^ 32) (s m mod 2 ^ 32 = 0 \<and> ccr m AND CCR_Z \<noteq> 0)
       (\<not> in_srange 32 (sval 32 (dreg m 0) + sval 32 (dreg m 2) + of_bool (ccr m AND CCR_X \<noteq> 0))) (2 ^ 32 \<le> s m)) m))"
proof -
  let ?a = "dreg m 0" let ?b = "dreg m 2" let ?c = "of_bool (ccr m AND CCR_X \<noteq> 0) :: int"
  let ?s = "ucast ?a + ucast ?b + ucast (xbit m) :: u64" let ?r = "ucast ?s :: u32"
  have b: "uint ?a < 2 ^ 32" "uint ?b < 2 ^ 32" using uint_lt2p [of ?a] uint_lt2p [of ?b] by simp_all
  have u: "uint ?s = s m"
    using b by (simp add: uint_word_ariths uint_ucast64 uint_xbit s_def)
  have r: "uint ?r = s m mod 2 ^ 32" by (simp add: unsigned_ucast_eq u take_bit_eq_mod)
  have c: "(drop_bit 32 ?s AND 1 \<noteq> 0) = (2 ^ 32 \<le> s m)"
  proof -
    have "(drop_bit 32 ?s AND 1 \<noteq> 0) = bit ?s 32"
      by (simp only: bit_iff_odd_drop_bit [of ?s] and_one_eq even_iff_mod_2_eq_zero)
    also have "\<dots> = bit (uint ?s) 32" by (simp add: bit_uint_iff)
    also have "\<dots> = odd (s m div 2 ^ 32)" by (simp only: u bit_iff_odd)
    also have "s m div 2 ^ 32 = (if 2 ^ 32 \<le> s m then 1 else 0)"
      using b by (auto simp: s_def div_pos_pos_trivial intro!: div_pos_geq [THEN trans])
    finally show ?thesis by simp
  qed
  have v: "((?a XOR ?r) AND (?b XOR ?r) AND szmsb 32 \<noteq> 0) = (\<not> in_srange 32 (sval 32 ?a + sval 32 ?b + ?c))"
    by (rule add_overflow) (simp_all add: szmask_32 r s_def)
  have n: "(?r AND szmsb 32 \<noteq> 0) = (2 ^ 31 \<le> s m mod 2 ^ 32)" "(?r = 0) = (s m mod 2 ^ 32 = 0)" "?r = word_of_int (s m mod 2 ^ 32)"
    using masked_codes [of 32 ?r "s m"] r by (simp_all add: szmask_32)
  show ?thesis
    by (simp add: i_addx_def fld_def szbits_def Let_def szmask_32(4) c [simplified] v [simplified] sized_x_mk_cc n(1,2) [simplified] n(3) [symmetric, simplified])
qed

lemma subx_32:
  defines "s m \<equiv> uint (dreg m 0) - uint (dreg m 2) - of_bool (ccr m AND CCR_X \<noteq> 0)"
  shows "i_subx 0x9182 m = Next (adv 2 (put_d 32 0 (word_of_int (s m mod 2 ^ 32),
     mk_cc (s m < 0) (2 ^ 31 \<le> s m mod 2 ^ 32) (s m mod 2 ^ 32 = 0 \<and> ccr m AND CCR_Z \<noteq> 0)
       (\<not> in_srange 32 (sval 32 (dreg m 0) - sval 32 (dreg m 2) - of_bool (ccr m AND CCR_X \<noteq> 0))) (s m < 0)) m))"
proof -
  let ?a = "dreg m 0" let ?b = "dreg m 2" let ?c = "of_bool (ccr m AND CCR_X \<noteq> 0) :: int"
  let ?s = "ucast ?a - ucast ?b - ucast (xbit m) :: u64" let ?r = "ucast ?s :: u32"
  have u: "uint ?s = s m mod 2 ^ 64" by (simp add: uint_word_ariths uint_ucast64 uint_xbit s_def mod_simps)
  have r: "uint ?r = s m mod 2 ^ 32" by (simp add: unsigned_ucast_eq u take_bit_eq_mod mod_mod_cancel)
  have c: "((ucast ?b :: u64) + ucast (xbit m) > ucast ?a) = (s m < 0)"
    using uint_lt2p [of ?b] by (auto simp: word_less_def uint_word_ariths uint_ucast64 uint_xbit s_def)
  have v: "((?a XOR ?b) AND (?a XOR ?r) AND szmsb 32 \<noteq> 0) = (\<not> in_srange 32 (sval 32 ?a - sval 32 ?b - ?c))"
    by (rule sub_overflow) (simp_all add: szmask_32 r s_def)
  have n: "(?r AND szmsb 32 \<noteq> 0) = (2 ^ 31 \<le> s m mod 2 ^ 32)" "(?r = 0) = (s m mod 2 ^ 32 = 0)" "?r = word_of_int (s m mod 2 ^ 32)"
    using masked_codes [of 32 ?r "s m"] r by (simp_all add: szmask_32)
  show ?thesis
    by (simp add: i_subx_def fld_def szbits_def Let_def szmask_32(4) c [simplified] v [simplified] sized_x_mk_cc
        n(1,2) [simplified] n(3) [symmetric, simplified])
qed

subsection \<open>Register pairs\<close>

definition wide :: "u32 \<Rightarrow> u32 \<Rightarrow> u64" where
  "wide h l = word_of_int (uint h * 2 ^ 32 + uint l)"

lemma uint_wide: "uint (wide h l) = uint h * 2 ^ 32 + uint l"
  using uint_lt2p [of h] uint_lt2p [of l] unfolding wide_def uint_word_of_int by (intro mod_pos_pos_trivial) simp_all

lemma sint_sval: "sint (x :: u64) = (if 2 ^ 63 \<le> uint x then uint x - 2 ^ 64 else uint x)"
proof -
  have "sint x = (uint x + 2 ^ 63) mod 2 ^ 64 - 2 ^ 63"
    by (simp add: sint_uint signed_take_bit_eq_take_bit_shift take_bit_eq_mod)
  also have "(uint x + 2 ^ 63) mod 2 ^ 64 = (if 2 ^ 63 \<le> uint x then uint x - 2 ^ 63 else uint x + 2 ^ 63)"
    using add_twos_carry(1) [of "uint x" "2 ^ 63" "2 ^ 63" 0] uint_lt2p [of x] by simp
  finally show ?thesis by simp
qed

text \<open>A 64-bit number \<open>s * 2 ^ 32 + l\<close> is determined by its halves: its residue, its sign, its range.\<close>

lemma halves:
  fixes s l :: int
  assumes "0 \<le> l" "l < 2 ^ 32"
  defines "t \<equiv> s * 2 ^ 32 + l"
  shows "t mod 2 ^ 64 = s mod 2 ^ 32 * 2 ^ 32 + l" "(t < 0) = (s < 0)" "(2 ^ 64 \<le> t) = (2 ^ 32 \<le> s)"
    "(- (2 ^ 63) \<le> t \<and> t < 2 ^ 63) = (- (2 ^ 31) \<le> s \<and> s < 2 ^ 31)"
proof -
  let ?h = "s mod 2 ^ 32"
  have h: "0 \<le> ?h" "?h < 2 ^ 32" by simp_all
  have "s = q * 2 ^ 32 + r \<Longrightarrow> t = r * 2 ^ 32 + l + q * 2 ^ 64" for q r
    unfolding t_def by (simp add: algebra_simps)
  from this [OF div_mult_mod_eq [symmetric]] have "t = ?h * 2 ^ 32 + l + s div 2 ^ 32 * 2 ^ 64" .
  then have "t mod 2 ^ 64 = (?h * 2 ^ 32 + l) mod 2 ^ 64" by simp
  also have "\<dots> = ?h * 2 ^ 32 + l"
  proof -
    have "0 \<le> x * 2 ^ 32 + l" "x * 2 ^ 32 + l < 2 ^ 64" if "0 \<le> x" "x < 2 ^ 32" for x
      using that assms(1,2) by simp_all
    from this [OF h] show ?thesis by (rule mod_pos_pos_trivial)
  qed
  finally show "t mod 2 ^ 64 = ?h * 2 ^ 32 + l" .
  show "(t < 0) = (s < 0)" "(2 ^ 64 \<le> t) = (2 ^ 32 \<le> s)"
    "(- (2 ^ 63) \<le> t \<and> t < 2 ^ 63) = (- (2 ^ 31) \<le> s \<and> s < 2 ^ 31)"
    using assms(1,2) unfolding t_def by auto
qed

lemma low_sum:
  fixes x y :: int
  assumes "0 \<le> x" "x < 2 ^ 32" "0 \<le> y" "y < 2 ^ 32"
  shows "x + y = of_bool (2 ^ 32 \<le> x + y) * 2 ^ 32 + (x + y) mod 2 ^ 32"
    "x - y = (x - y) mod 2 ^ 32 - of_bool (x < y) * 2 ^ 32"
  using add_twos_carry(1) [of x "2 ^ 31" y 0] sub_twos_borrow(1) [of x "2 ^ 31" y 0] assms by simp_all

text \<open>The halves of the signed value.\<close>

lemma sint_wide: "sint (wide h l) = sval 32 h * 2 ^ 32 + uint l"
proof -
  have "(2 ^ 63 \<le> x * 2 ^ 32 + y) = (2 ^ 31 \<le> x)" if "0 \<le> y" "y < 2 ^ 32" for x y :: int
    using that by auto
  from this [of "uint l" "uint h"] show ?thesis using uint_lt2p [of l] by (simp add: sint_sval uint_wide sval_def)
qed


lemma wide_carry: "(x + y < x) = (2 ^ 64 \<le> uint x + uint y)" for x y :: u64
proof -
  have "uint (x + y) = (if uint x + uint y < 2 ^ 64 then uint x + uint y else uint x + uint y - 2 ^ 64)"
    using add_twos_carry(1) [of "uint x" "2 ^ 63" "uint y" 0] uint_lt2p [of x] uint_lt2p [of y]
    by (simp add: uint_word_ariths)
  then show ?thesis using uint_lt2p [of y] uint_ge_0 [of y] by (auto simp: word_less_def)
qed

lemma wide_borrow: "(x < y) = (uint x - uint y < 0)" for x y :: u64
  by (simp add: word_less_def)

text \<open>A pair of register halves \<open>s mod 2 ^ 32\<close> and \<open>l\<close> is the 64-bit word of \<open>s * 2 ^ 32 + l\<close>, and the condition
  codes of the halves are those of the whole.\<close>

lemma pair_codes:
  fixes s l :: int and w :: u64
  assumes l: "0 \<le> l" "l < 2 ^ 32" and w: "uint w = (s * 2 ^ 32 + l) mod 2 ^ 64"
  shows "wide (word_of_int (s mod 2 ^ 32)) (word_of_int l) = w"
    "(2 ^ 31 \<le> s mod 2 ^ 32) = (2 ^ 63 \<le> w)" "(s mod 2 ^ 32 = 0 \<and> l = 0) = (w = 0)"
proof -
  have u: "uint w = s mod 2 ^ 32 * 2 ^ 32 + l" using halves(1) [OF l, of s] w by simp
  show "wide (word_of_int (s mod 2 ^ 32)) (word_of_int l) = w"
    using l by (simp add: word_uint_eq_iff uint_wide u uint_word_of_int)
  have "(2 ^ 31 \<le> h) = (2 ^ 63 \<le> h * 2 ^ 32 + l) \<and> (h = 0 \<and> l = 0) = (h * 2 ^ 32 + l = 0)" if "0 \<le> h" for h
  proof (cases "1 \<le> h")
    case False
    then have "h = 0" using that by simp
    then show ?thesis using l by simp
  qed (use that l in auto)
  from this [of "s mod 2 ^ 32"] show "(2 ^ 31 \<le> s mod 2 ^ 32) = (2 ^ 63 \<le> w)" "(s mod 2 ^ 32 = 0 \<and> l = 0) = (w = 0)"
    by (simp_all add: word_le_def word_uint_eq_iff u)
qed

subsection \<open>Properties\<close>

text \<open>Multi-precision addition: \<open>add.l d3,d1\<close> then \<open>addx.l d2,d0\<close> adds the 64-bit number in \<open>d2:d3\<close> to
  the one in \<open>d0:d1\<close>, and leaves the condition codes of the 64-bit sum: X and C the carry out of bit 63, Z only when
  all 64 bits are zero, N and V those of the signed 64-bit numbers. Nothing else changes but the program counter.\<close>

theorem add_64:
  fixes m e
  defines "x \<equiv> wide (dreg m 0) (dreg m 1)" and "y \<equiv> wide (dreg m 2) (dreg m 3)"
  shows "\<exists>m1 m2. exec_op e 0xD283 m = Next m1 \<and> exec_op e 0xD182 m1 = Next m2 \<and>
    wide (dreg m2 0) (dreg m2 1) = x + y \<and> dreg m2 = (dreg m)(0 := dreg m2 0, 1 := dreg m2 1) \<and> areg m2 = areg m \<and> hmem m2 = hmem m \<and>
    ccr m2 = mk_cc (x + y < x) (x + y \<ge> 2 ^ 63) (x + y = 0) (\<not> (- (2 ^ 63) \<le> sint x + sint y \<and> sint x + sint y < 2 ^ 63)) (x + y < x)"
proof -
  let ?la = "uint (dreg m 1)" let ?lb = "uint (dreg m 3)" let ?ha = "uint (dreg m 0)" let ?hb = "uint (dreg m 2)"
  let ?c = "of_bool (2 ^ 32 \<le> ?la + ?lb) :: int"
  let ?l = "(?la + ?lb) mod 2 ^ 32" let ?s = "?ha + ?hb + ?c" let ?v = "sval 32 (dreg m 0) + sval 32 (dreg m 2) + ?c"
  obtain v0 n0 m1 where m1: "m1 = adv 2 (put_d 32 1 (word_of_int ?l, mk_cc (2 ^ 32 \<le> ?la + ?lb) n0 (?l = 0) v0 (2 ^ 32 \<le> ?la + ?lb)) m)"
    and e1: "exec_op e 0xD283 m = Next m1"
    unfolding exec_add_l add_l_sz sized_codes(1) [OF szmask_32(5,3,3)] Let_def by blast
  define m2 where "m2 = adv 2 (put_d 32 0 (word_of_int (?s mod 2 ^ 32),
    mk_cc (2 ^ 32 \<le> ?s) (2 ^ 31 \<le> ?s mod 2 ^ 32) (?s mod 2 ^ 32 = 0 \<and> ?l = 0) (\<not> in_srange 32 ?v) (2 ^ 32 \<le> ?s)) m1)"
  have e2: "exec_op e 0xD182 m1 = Next m2"
    unfolding exec_addx_l addx_32 m2_def by (simp add: m1)
  have b: "0 \<le> ?l" "?l < 2 ^ 32" by simp_all
  have low: "?la + ?lb = ?c * 2 ^ 32 + ?l" by (rule low_sum) (use uint_lt2p [of "dreg m 1"] uint_lt2p [of "dreg m 3"] in simp_all)
  have t: "uint x + uint y = ?s * 2 ^ 32 + ?l" "sint x + sint y = ?v * 2 ^ 32 + ?l"
    using low by (simp_all add: x_def y_def uint_wide sint_wide algebra_simps)
  have w: "uint (x + y) = (?s * 2 ^ 32 + ?l) mod 2 ^ 64" by (simp add: uint_word_ariths t)
  note p = pair_codes [OF b w] halves [OF b]
  have "wide (dreg m2 0) (dreg m2 1) = x + y" by (simp add: m2_def m1 p(1) [simplified])
  moreover have "ccr m2 = mk_cc (x + y < x) (x + y \<ge> 2 ^ 63) (x + y = 0)
      (\<not> (- (2 ^ 63) \<le> sint x + sint y \<and> sint x + sint y < 2 ^ 63)) (x + y < x)"
  proof -
    have "in_srange 32 ?v = (- (2 ^ 63) \<le> sint x + sint y \<and> sint x + sint y < 2 ^ 63)"
      unfolding t p(7) in_srange_def by simp
    then show ?thesis by (simp only: m2_def adv_put_simps snd_conv wide_carry t p(2,3,6))
  qed
  moreover have "dreg m2 = (dreg m)(0 := dreg m2 0, 1 := dreg m2 1)" by (simp add: m2_def m1 fun_upd_twist)
  moreover have "areg m2 = areg m" "hmem m2 = hmem m" by (simp_all add: m2_def m1)
  ultimately show ?thesis using e1 e2 by blast
qed

text \<open>Multi-precision subtraction: \<open>sub.l d3,d1\<close> then \<open>subx.l d2,d0\<close> subtracts the 64-bit numbers, and leaves
  the condition codes of the 64-bit difference: X and C the unsigned borrow, Z only when all 64 bits are zero, N and V
  those of the signed numbers.\<close>

theorem sub_64:
  fixes m e
  defines "x \<equiv> wide (dreg m 0) (dreg m 1)" and "y \<equiv> wide (dreg m 2) (dreg m 3)"
  shows "\<exists>m1 m2. exec_op e 0x9283 m = Next m1 \<and> exec_op e 0x9182 m1 = Next m2 \<and>
    wide (dreg m2 0) (dreg m2 1) = x - y \<and> dreg m2 = (dreg m)(0 := dreg m2 0, 1 := dreg m2 1) \<and> areg m2 = areg m \<and> hmem m2 = hmem m \<and>
    ccr m2 = mk_cc (x < y) (x - y \<ge> 2 ^ 63) (x - y = 0) (\<not> (- (2 ^ 63) \<le> sint x - sint y \<and> sint x - sint y < 2 ^ 63)) (x < y)"
proof -
  let ?la = "uint (dreg m 1)" let ?lb = "uint (dreg m 3)" let ?ha = "uint (dreg m 0)" let ?hb = "uint (dreg m 2)"
  let ?c = "of_bool (dreg m 1 < dreg m 3) :: int"
  let ?l = "(?la - ?lb) mod 2 ^ 32" let ?s = "?ha - ?hb - ?c" let ?v = "sval 32 (dreg m 0) - sval 32 (dreg m 2) - ?c"
  obtain v0 n0 m1 where m1: "m1 = adv 2 (put_d 32 1 (word_of_int ?l, mk_cc (dreg m 1 < dreg m 3) n0 (?l = 0) v0 (dreg m 1 < dreg m 3)) m)"
    and e1: "exec_op e 0x9283 m = Next m1"
    unfolding exec_sub_l sub_l_sz sized_codes(2) [OF szmask_32(5,3,3)] Let_def by blast
  define m2 where "m2 = adv 2 (put_d 32 0 (word_of_int (?s mod 2 ^ 32),
    mk_cc (?s < 0) (2 ^ 31 \<le> ?s mod 2 ^ 32) (?s mod 2 ^ 32 = 0 \<and> ?l = 0) (\<not> in_srange 32 ?v) (?s < 0)) m1)"
  have e2: "exec_op e 0x9182 m1 = Next m2"
    unfolding exec_subx_l subx_32 m2_def by (simp add: m1)
  have b: "0 \<le> ?l" "?l < 2 ^ 32" by simp_all
  have low: "?la - ?lb = ?l - ?c * 2 ^ 32"
    unfolding word_less_def by (rule low_sum) (use uint_lt2p [of "dreg m 1"] uint_lt2p [of "dreg m 3"] in simp_all)
  have t: "uint x - uint y = ?s * 2 ^ 32 + ?l" "sint x - sint y = ?v * 2 ^ 32 + ?l"
    using low by (simp_all add: x_def y_def uint_wide sint_wide algebra_simps)
  have w: "uint (x - y) = (?s * 2 ^ 32 + ?l) mod 2 ^ 64" by (simp add: uint_word_ariths t)
  note p = pair_codes [OF b w] halves [OF b]
  have "wide (dreg m2 0) (dreg m2 1) = x - y" by (simp add: m2_def m1 p(1) [simplified])
  moreover have "ccr m2 = mk_cc (x < y) (x - y \<ge> 2 ^ 63) (x - y = 0)
      (\<not> (- (2 ^ 63) \<le> sint x - sint y \<and> sint x - sint y < 2 ^ 63)) (x < y)"
  proof -
    have "in_srange 32 ?v = (- (2 ^ 63) \<le> sint x - sint y \<and> sint x - sint y < 2 ^ 63)"
      unfolding t p(7) in_srange_def by simp
    then show ?thesis by (simp only: m2_def adv_put_simps snd_conv wide_borrow t p(2,3,5))
  qed
  moreover have "dreg m2 = (dreg m)(0 := dreg m2 0, 1 := dreg m2 1)" by (simp add: m2_def m1 fun_upd_twist)
  moreover have "areg m2 = areg m" "hmem m2 = hmem m" by (simp_all add: m2_def m1)
  ultimately show ?thesis using e1 e2 by blast
qed

end
