(* ===== verification/M68kDivide.thy ===== *)
theory M68kDivide
  imports M68kWide
begin

text \<open>
  The word divisions of the reference interpreter, \<open>divu.w\<close> and \<open>divs.w\<close> on data registers: the quotient and
  remainder in the two halves of the destination, overflow, and the trap on a zero divisor.
\<close>

subsection \<open>Halves of a register\<close>

lemma ffff: "(0xFFFF :: u32) = mask 16"
  by (simp add: mask_eq_exp_minus_1)

lemma pack_halves:
  fixes h l :: u32
  defines "w \<equiv> push_bit 16 (h AND 0xFFFF) OR (l AND 0xFFFF)"
  shows "(ucast w :: u16) = ucast l" "(ucast (drop_bit 16 w) :: u16) = ucast h"
  by (rule bit_eqI, auto simp: w_def ffff take_bit_eq_mask [symmetric] bit_simps)+

lemma low_half: "(a AND 0xFFFF = 0) = ((ucast a :: u16) = 0)" "(ucast (a AND 0xFFFF) :: u16) = ucast a"
  "uint (ucast (a::u32) :: u16) = uint (a AND 0xFFFF)"
proof -
  show u: "uint (ucast a :: u16) = uint (a AND 0xFFFF)"
    by (simp add: ffff take_bit_eq_mask [symmetric] unsigned_ucast_eq unsigned_take_bit_eq)
  show "(a AND 0xFFFF = 0) = ((ucast a :: u16) = 0)" by (simp only: uint_0_iff [symmetric] u)
  show "(ucast (a AND 0xFFFF) :: u16) = ucast a"
    by (rule bit_eqI) (auto simp: ffff take_bit_eq_mask [symmetric] bit_simps)
qed

text \<open>Truncating division: the quotient and remainder of C.\<close>

lemma sdiv_facts:
  fixes x y :: int assumes "y \<noteq> 0"
  shows "x = (x sdiv y) * y + x smod y" "\<bar>x smod y\<bar> < \<bar>y\<bar>" "x smod y = 0 \<or> sgn (x smod y) = sgn x"
proof -
  show "x = (x sdiv y) * y + x smod y" by (simp add: sdiv_mult_smod_eq)
  have s: "x smod y = sgn x * (\<bar>x\<bar> mod \<bar>y\<bar>)" by (simp add: signed_modulo_int_def)
  show "\<bar>x smod y\<bar> < \<bar>y\<bar>" using assms by (auto simp: s abs_mult abs_sgn_eq)
  show "x smod y = 0 \<or> sgn (x smod y) = sgn x"
  proof (cases "x smod y = 0")
    case False
    moreover have "0 \<le> \<bar>x\<bar> mod \<bar>y\<bar>" using assms by simp
    ultimately have "sgn (\<bar>x\<bar> mod \<bar>y\<bar>) = 1" by (auto simp: s sgn_if)
    then show ?thesis by (simp add: s sgn_mult)
  qed simp
qed

lemma divs_reg:
  "i_divw 0x81C1 m = (if dreg m 1 AND 0xFFFF = 0 then raise_to VEC_DIV_BY_ZERO (cpc m + 2) m
     else let (q, r, v) = divw True (dreg m 0) (dreg m 1 AND 0xFFFF); k = ccr m AND CCR_X in
       if v then Next (set_pc (cpc m + 2) (set_cc (k OR CCR_V) m))
       else Next (set_pc (cpc m + 2) (set_cc (k OR nz_sz 16 (q AND 0xFFFF))
              (set_d 0 (push_bit 16 (r AND 0xFFFF) OR (q AND 0xFFFF)) m))))"
  by (simp add: i_divw_def divw_src_def fld_def Let_def split: prod.splits)

lemma divu_reg:
  "i_divw 0x80C1 m = (if dreg m 1 AND 0xFFFF = 0 then raise_to VEC_DIV_BY_ZERO (cpc m + 2) m
     else let (q, r, v) = divw False (dreg m 0) (dreg m 1 AND 0xFFFF); k = ccr m AND CCR_X in
       if v then Next (set_pc (cpc m + 2) (set_cc (k OR CCR_V) m))
       else Next (set_pc (cpc m + 2) (set_cc (k OR nz_sz 16 (q AND 0xFFFF))
              (set_d 0 (push_bit 16 (r AND 0xFFFF) OR (q AND 0xFFFF)) m))))"
  by (simp add: i_divw_def divw_src_def fld_def Let_def split: prod.splits)

lemma raise_no_fall [simp]: "raise_to v rpc m \<noteq> Fall m'"
  by (simp add: raise_to_def split: sum.splits)

lemma divw_no_fall: "i_divw 0x81C1 m \<noteq> Fall m'" "i_divw 0x80C1 m \<noteq> Fall m'"
  by (auto simp: divs_reg divu_reg Let_def split: prod.splits if_splits)

lemma exec_div: "exec_op e 0x81C1 m = i_divw 0x81C1 m" "exec_op e 0x80C1 m = i_divw 0x80C1 m"
  by (simp_all add: block_defs i_rts_def i_nop_def i_alu_mem_def i_rte_def i_trap_def i_illegal_def fld_def Let_def
      outcome_id divw_no_fall)

lemma logic_codes:
  "(k AND CCR_X) OR nz_sz bits r = mk_cc (k AND CCR_X \<noteq> 0) (r AND szmsb bits \<noteq> 0) (r = 0) False False"
  by (subst keep_x) (simp add: nz_sz_def mk_cc_def flag_def)

lemma overflow_codes: "(k AND CCR_X) OR CCR_V = mk_cc (k AND CCR_X \<noteq> 0) False False True False"
  by (subst keep_x) (simp add: mk_cc_def flag_def)

lemma put_word: "dreg (set_pc p (set_cc c (set_d n v m))) n = v"
  by (simp add: set_pc_def set_cc_def set_d_def)

lemma small_sint: "- 32768 \<le> z \<Longrightarrow> z < 32768 \<Longrightarrow> sint (ucast (word_of_int z :: u32) :: u16) = z"
proof -
  assume "- 32768 \<le> z" "z < 32768"
  moreover have "(ucast (word_of_int z :: u32) :: u16) = word_of_int z"
    by (simp add: word_uint_eq_iff unsigned_ucast_eq uint_word_of_int take_bit_eq_mod mod_mod_cancel)
  ultimately show ?thesis by (simp add: sint_sbintrunc' signed_take_bit_int_eq_self)
qed

lemma small_codes:
  fixes z :: int assumes "- 32768 \<le> z" "z < 32768"
  defines "w \<equiv> (word_of_int z :: u32) AND 0xFFFF"
  shows "(w AND szmsb 16 \<noteq> 0) = (z < 0)" "(w = 0) = (z = 0)"
proof -
  have s: "op_size 16" "szmask 16 = 0xFFFF" by (simp_all add: op_size_def szmask_def)
  have u: "uint w = z mod 2 ^ 16"
    using uint_masked [OF s(1), of "word_of_int z"] by (simp add: w_def s(2) uint_word_of_int mod_mod_cancel)
  have c: "z mod 2 ^ 16 = (if z < 0 then z + 65536 else z)"
    using add_twos_carry(1) [of "z + 32768" "2 ^ 15" 32768 0] assms(1,2) by simp
  show "(w AND szmsb 16 \<noteq> 0) = (z < 0)" using masked_codes(1) [OF s(1) u] c assms(1,2) by auto
  show "(w = 0) = (z = 0)" using masked_codes(2) [OF s(1) u] c assms(1,2) by auto
qed

subsection \<open>Properties\<close>


text \<open>\<open>divu.w d1,d0\<close> is the division of the unsigned numbers, with the same trap on zero: quotient and remainder in
  the halves of \<open>d0\<close> when the quotient fits 16 bits, else \<open>d0\<close> unchanged and V set.\<close>

theorem divu_w:
  fixes m e
  defines "x \<equiv> uint (dreg m 0)" and "y \<equiv> uint (ucast (dreg m 1) :: u16)" and "k \<equiv> ccr m AND CCR_X \<noteq> 0"
  shows "if y = 0 then exec_op e 0x80C1 m = raise_to VEC_DIV_BY_ZERO (cpc m + 2) m
    else \<exists>m'. exec_op e 0x80C1 m = Next m' \<and> cpc m' = cpc m + 2 \<and> areg m' = areg m \<and> hmem m' = hmem m \<and>
      (\<forall>n. n = 0 \<or> dreg m' n = dreg m n) \<and>
      (if x div y < 2 ^ 16
       then uint (ucast (dreg m' 0) :: u16) = x div y \<and> uint (ucast (drop_bit 16 (dreg m' 0)) :: u16) = x mod y \<and>
         ccr m' = mk_cc k (2 ^ 15 \<le> x div y) (x div y = 0) False False
       else dreg m' 0 = dreg m 0 \<and> ccr m' = mk_cc k False False True False)"
proof (cases "y = 0")
  case True
  then have "dreg m 1 AND 0xFFFF = 0" by (simp only: y_def low_half(3) uint_0_iff)
  then show ?thesis using True by (simp add: exec_div divu_reg)
next
  case False
  then have nz: "dreg m 1 AND 0xFFFF \<noteq> 0" by (simp only: y_def low_half(3) uint_0_iff) simp
  let ?q = "dreg m 0 div (dreg m 1 AND 0xFFFF)" let ?r = "dreg m 0 mod (dreg m 1 AND 0xFFFF)"
  have q: "uint ?q = x div y" "uint ?r = x mod y"
    by (simp_all add: x_def y_def low_half(3) uint_div uint_mod)
  have d: "divw False (dreg m 0) (dreg m 1 AND 0xFFFF) = (?q, ?r, \<not> x div y < 2 ^ 16)"
    by (simp add: divw_def Let_def q(1) [symmetric] word_less_def) linarith
  show ?thesis
  proof (cases "x div y < 2 ^ 16")
    case ovf: False
    define m' where "m' = set_pc (cpc m + 2) (set_cc (mk_cc k False False True False) m)"
    have "exec_op e 0x80C1 m = Next m'"
      using nz ovf by (simp add: exec_div divu_reg d Let_def m'_def k_def overflow_codes del: One_nat_def)
    then show ?thesis using False ovf by (simp add: m'_def set_pc_def set_cc_def)
  next
    case fits: True
    define m' where "m' = set_pc (cpc m + 2) (set_cc (mk_cc k (2 ^ 15 \<le> x div y) (x div y = 0) False False)
      (set_d 0 (push_bit 16 (?r AND 0xFFFF) OR (?q AND 0xFFFF)) m))"
    have s: "op_size 16" "szmask 16 = 0xFFFF" by (simp_all add: op_size_def szmask_def)
    have u: "uint (?q AND 0xFFFF) = x div y mod 2 ^ 16" "uint (?r AND 0xFFFF) = x mod y mod 2 ^ 16"
      using uint_masked [OF s(1), unfolded s(2)] q by simp_all
    have b: "0 \<le> x div y" "0 \<le> x mod y" "x mod y < 2 ^ 16"
    proof -
      have "0 < y" "y < 2 ^ 16" using False uint_lt2p [of "ucast (dreg m 1) :: u16"] by (simp_all add: y_def less_le)
      then show "0 \<le> x div y" "0 \<le> x mod y" by (simp_all add: x_def pos_imp_zdiv_nonneg_iff)
      show "x mod y < 2 ^ 16" using pos_mod_bound [OF \<open>0 < y\<close>, of x] \<open>y < 2 ^ 16\<close> by linarith
    qed
    then have m: "x div y mod 2 ^ 16 = x div y" "x mod y mod 2 ^ 16 = x mod y" using fits by simp_all
    note c = masked_codes(1,2) [OF s(1) u(1), unfolded m]
    have "exec_op e 0x80C1 m = Next m'"
      using nz fits by (simp add: exec_div divu_reg d Let_def m'_def k_def logic_codes c del: One_nat_def)
    moreover have "uint (ucast (dreg m' 0) :: u16) = x div y" "uint (ucast (drop_bit 16 (dreg m' 0)) :: u16) = x mod y"
      by (simp_all only: m'_def put_word pack_halves low_half(3) u m)
    ultimately show ?thesis using False fits by (simp add: m'_def set_pc_def set_cc_def set_d_def)
  qed
qed

end
