(* ===== verification/M68kCalls.thy ===== *)
theory M68kCalls
  imports M68kWide
begin

text \<open>
  The disciplines of the stack in the reference interpreter: an exception and the RTE that returns from it, a call and
  its RTS, LINK and UNLK, and a MOVEM push and the load that restores the registers. Each round
  trip holds for every state in between that leaves the saved bytes and the stack pointer alone.
\<close>

subsection \<open>Saved bytes\<close>

lemma be16_wr [simp]: "be16 (wr_be16 b p v) p = v"
proof -
  have "be16 (wr_be16 b p v) p = push_bit 8 (ucast (ucast (drop_bit 8 v) :: u8)) OR ucast (ucast v :: u8)"
    by (simp add: be16_def wr_be16_def)
  also have "\<dots> = v"
    by (rule bit_eqI) (auto simp: bit_simps)
  finally show ?thesis .
qed

lemma be16_cong: "b p = b' p \<Longrightarrow> b (p + 1) = b' (p + 1) \<Longrightarrow> be16 b p = be16 b' p"
  by (simp add: be16_def)

lemma read_frame [simp]: "be16 (push_frame b p sr rpc) p = sr" "sb_read_be32 (push_frame b p sr rpc) (p + 2) = rpc"
proof -
  have "be16 (push_frame b p sr rpc) p = be16 (wr_be16 b p sr) p"
    by (rule be16_cong) (simp_all add: push_frame_def sb_write_outside)
  then show "be16 (push_frame b p sr rpc) p = sr" by simp
qed (simp add: push_frame_def)

subsection \<open>The status register\<close>

lemma ccr_bits: "mk_cc (c AND CCR_X \<noteq> 0) (c AND CCR_N \<noteq> 0) (c AND CCR_Z \<noteq> 0) (c AND CCR_V \<noteq> 0) (c AND CCR_C \<noteq> 0) = c AND 0x1F"
proof -
  have f: "flag (c AND 2 ^ n \<noteq> 0) (2 ^ n) = c AND 2 ^ n" for n
    by (simp add: and_exp flag_def)
  have d: "c AND 0x1F = (c AND 0x10) OR (c AND 0x08) OR (c AND 0x04) OR (c AND 0x01) OR (c AND 0x02)"
    by (simp flip: bit.conj_disj_distrib)
  show ?thesis
    using f [of 0] f [of 1] f [of 2] f [of 3] f [of 4] unfolding d by (simp add: mk_cc_def ccr_defs)
qed

lemma pack_bits:
  fixes h :: u16 and b0 b1 b2 b3 b4 :: bool
  defines "w \<equiv> push_bit 8 h OR ((if b0 then 1 else 0) OR (if b1 then 2 else 0) OR (if b2 then 4 else 0) OR
    (if b3 then 8 else 0) OR (if b4 then 0x10 else 0))"
  shows "(w AND 1 \<noteq> 0) = b0" "(w AND 2 \<noteq> 0) = b1" "(w AND 4 \<noteq> 0) = b2" "(w AND 8 \<noteq> 0) = b3" "(w AND 0x10 \<noteq> 0) = b4"
    "drop_bit 8 w AND 0xFF = h AND 0xFF"
proof -
  have z: "push_bit 8 h AND k = 0" if "k = 1 \<or> k = 2 \<or> k = 4 \<or> k = 8 \<or> k = 0x10" for k
  proof -
    have "\<not> bit (push_bit 8 h) n" if "n < 8" for n using that by (simp add: bit_simps)
    then have "push_bit 8 h AND 2 ^ n = 0" if "n < 8" for n using that by (simp add: and_exp)
    from this [of 0] this [of 1] this [of 2] this [of 3] this [of 4] that show ?thesis by auto
  qed
  show "(w AND 1 \<noteq> 0) = b0" "(w AND 2 \<noteq> 0) = b1" "(w AND 4 \<noteq> 0) = b2" "(w AND 8 \<noteq> 0) = b3" "(w AND 0x10 \<noteq> 0) = b4"
    by (cases b0; cases b1; cases b2; cases b3; cases b4; simp add: w_def bit.conj_disj_distrib2 z)+
  have "drop_bit 8 (push_bit 8 h) AND mask 8 = h AND mask 8"
    by (rule bit_eqI) (auto simp: bit_simps)
  then have "drop_bit 8 (push_bit 8 h) AND 0xFF = h AND 0xFF" by (simp add: mask_eq_exp_minus_1)
  then show "drop_bit 8 w AND 0xFF = h AND 0xFF"
    by (cases b0; cases b1; cases b2; cases b3; cases b4; simp add: w_def drop_bit_or)
qed


lemma flags_order: "flag c CCR_C OR flag v CCR_V OR flag z CCR_Z OR flag n CCR_N OR flag x CCR_X = mk_cc x n z v c"
  by (cases c; cases v; cases z; cases n; cases x; simp add: mk_cc_def flag_def ccr_defs)

lemma unpack_pack:
  "iunpack_sr (j5d_pack_sr m) m' = m'\<lparr>ccr := ccr m AND 0x1F, sr_high := sr_high m AND 0xFF\<rparr>"
proof -
  have "ccr (iunpack_sr (j5d_pack_sr m) m') = mk_cc (ccr m AND CCR_X \<noteq> 0) (ccr m AND CCR_N \<noteq> 0) (ccr m AND CCR_Z \<noteq> 0)
      (ccr m AND CCR_V \<noteq> 0) (ccr m AND CCR_C \<noteq> 0)"
    by (simp only: iunpack_sr_def j5d_pack_sr_def pack_bits flags_order) simp
  then have "ccr (iunpack_sr (j5d_pack_sr m) m') = ccr m AND 0x1F" by (simp only: ccr_bits)
  moreover have "sr_high (iunpack_sr (j5d_pack_sr m) m') = sr_high m AND 0xFF"
    by (simp only: iunpack_sr_def j5d_pack_sr_def pack_bits) simp
  ultimately show ?thesis by (simp add: iunpack_sr_def)
qed

subsection \<open>Exceptions\<close>

text \<open>The address register \<open>r\<close>, the \<open>n\<close> bytes it points to and the region are the same in \<open>m\<close> and \<open>m'\<close>.\<close>

definition saved :: "nat \<Rightarrow> nat \<Rightarrow> m68k \<Rightarrow> m68k \<Rightarrow> bool" where
  "saved r n m m' \<longleftrightarrow> org m' = org m \<and> msz m' = msz m \<and> isp m' = isp m \<and> areg m' r = areg m r \<and>
     (\<forall>i < n. hmem m' (hoff m (areg m r) + i) = hmem m (hoff m (areg m r) + i))"

lemma savedD:
  assumes "saved r n m m'"
  shows "areg m' r = areg m r" "in_box m' a k = in_box m a k" "hoff m' a = hoff m a" "isp m' = isp m"
  using assms by (simp_all add: saved_def in_box_def hoff_def)

lemma saved_be32:
  assumes "saved r n m m'" and "k + 4 \<le> n"
  shows "sb_read_be32 (hmem m') (hoff m (areg m r) + k) = sb_read_be32 (hmem m) (hoff m (areg m r) + k)"
proof (rule read_cong)
  fix a assume "hoff m (areg m r) + k \<le> a" "a < hoff m (areg m r) + k + 4"
  then obtain i where "a = hoff m (areg m r) + i" "i < n" using assms(2)
    by (metis add.assoc add_less_cancel_left le_add1 le_trans less_le_trans nat_le_iff_add)
  then show "hmem m' a = hmem m a" using assms(1) by (simp add: saved_def)
qed

lemma saved_be16:
  "saved r n m m' \<Longrightarrow> 2 \<le> n \<Longrightarrow> be16 (hmem m') (hoff m (areg m r)) = be16 (hmem m) (hoff m (areg m r))"
proof -
  assume "saved r n m m'" "2 \<le> n"
  then have "hmem m' (hoff m (areg m r) + i) = hmem m (hoff m (areg m r) + i)" if "i < 2" for i
    using that by (simp add: saved_def)
  from this [of 0] this [of 1] show ?thesis by (intro be16_cong) simp_all
qed

lemma raise_frame:
  assumes "raise_to v rpc m = Next m1"
  defines "s \<equiv> areg m 7 - 6"
  shows "in_box m s 6" "areg m1 = (areg m)(7 := s)" "dreg m1 = dreg m" "org m1 = org m" "msz m1 = msz m"
    "hmem m1 = push_frame (hmem m) (hoff m s) (j5d_pack_sr m) rpc" "iread_vector m v = Some (cpc m1)"
    "sr_high m1 = sr_high m OR 0x20"
  using assms by (auto simp: raise_to_def iraise_def Let_def set_a_def set_pc_def SR_S_def split: option.splits if_splits)

subsection \<open>Calls and frames\<close>

lemma exec_rte: "exec_op e 0x4E73 m = i_rte 0x4E73 m"
  by (simp add: run_defs)

lemma jsr_frame:
  assumes "jsr_to msg target ret m = Next m1"
  defines "s \<equiv> areg m 7 - 4"
  shows "in_box m s 4" "areg m1 = (areg m)(7 := s)" "dreg m1 = dreg m" "ccr m1 = ccr m" "cpc m1 = target"
    "org m1 = org m" "msz m1 = msz m" "isp m1 = isp m" "hmem m1 = sb_write_be32 (hmem m) (hoff m s) ret"
  using assms by (auto simp: jsr_to_def Let_def wrm_def mem_wr_def mem_wr32_def set_pc_def set_a_def split: if_splits)

lemma link_frame:
  assumes "i_link op m = Next m1" and "op AND 0xFFF8 = 0x4E50"
  defines "s \<equiv> areg m 7 - 4" and "n \<equiv> fld 0 op"
  shows "in_box m s 4" "areg m1 = (areg m)(n := s, 7 := s + sxw m 2)" "dreg m1 = dreg m"
    "org m1 = org m" "msz m1 = msz m" "isp m1 = isp m" "hmem m1 = sb_write_be32 (hmem m) (hoff m s) (areg m n)"
  using assms by (auto simp: i_link_def Let_def wrm_def mem_wr_def mem_wr32_def adv_def set_pc_def set_a_def split: if_splits)

lemma saved_refl [simp]: "saved r n m m"
  by (simp add: saved_def)

text \<open>Machines for the examples: a region with a vector table, and one with a stack below the initial stack pointer.\<close>

definition vector_m68k :: m68k where
  "vector_m68k = demo_m68k\<lparr>org := VBR, msz := 0x400, areg := (\<lambda>_. VBR + 0x400)\<rparr>"

definition stack_m68k :: m68k where
  "stack_m68k = demo_m68k\<lparr>areg := (\<lambda>_. 0x1040)\<rparr>"

subsection \<open>Properties\<close>

text \<open>C17. An exception is transparent to the code it interrupts: it enters the handler of its vector in supervisor
  state, and in every state in which the handler executes RTE with the stack pointer and the frame intact, control
  returns to the saved address with the stack pointer, the condition codes and the system byte of the moment of
  the exception, whatever the handler did to the registers and the rest of the memory.\<close>

theorem exception_returns:
  assumes "raise_to v rpc m = Next m1" and "saved 7 6 m1 m'"
  shows "iread_vector m v = Some (cpc m1) \<and> sr_high m1 AND 0x20 \<noteq> 0 \<and> dreg m1 = dreg m \<and>
    (\<exists>m2. exec_op e 0x4E73 m' = Next m2 \<and> cpc m2 = rpc \<and> areg m2 = (areg m')(7 := areg m 7) \<and> dreg m2 = dreg m' \<and>
      ccr m2 = ccr m AND 0x1F \<and> sr_high m2 = sr_high m AND 0xFF \<and> hmem m2 = hmem m')"
proof -
  let ?s = "areg m 7 - 6"
  note f = raise_frame [OF assms(1)]
  have a: "areg m1 7 = ?s" by (simp add: f)
  have b: "in_box m' (areg m' 7) 6" using savedD [OF assms(2)] f(1) by (simp add: a in_box_def f)
  have h: "hoff m' (areg m' 7) = hoff m1 (areg m1 7)" "hoff m1 x = hoff m x" for x
    using savedD [OF assms(2)] by (simp_all add: a hoff_def f)
  have sr: "be16 (hmem m') (hoff m' (areg m' 7)) = j5d_pack_sr m"
    using saved_be16 [OF assms(2)] by (simp add: h f)
  have rp: "sb_read_be32 (hmem m') (hoff m' (areg m' 7) + 2) = rpc"
    using saved_be32 [OF assms(2), of 2] read_frame(2) [of "hmem m" "hoff m ?s" "j5d_pack_sr m" rpc] by (simp add: h f)
  have "exec_op e 0x4E73 m' = Next (set_pc rpc (iunpack_sr (j5d_pack_sr m) (set_a 7 (areg m' 7 + 6) m')))"
    unfolding exec_rte i_rte_def Let_def sr rp using b by simp
  moreover have "areg m' 7 + 6 = areg m 7" using savedD(1) [OF assms(2)] by (simp add: a)
  moreover have "sr_high m1 AND 0x20 \<noteq> 0" by (simp add: f bit.conj_disj_distrib2 bit.conj_disj_distrib)
  ultimately show ?thesis using f(3,7) by (simp add: unpack_pack set_pc_def set_a_def)
qed

theorem exception_returns_witness:
  "\<exists>m1 m2. raise_to 32 7 vector_m68k = Next m1 \<and> exec_op plain_env 0x4E73 m1 = Next m2 \<and> cpc m2 = 7"
proof -
  obtain m1 where m1: "raise_to 32 7 vector_m68k = Next m1"
    by (simp add: raise_to_def iraise_def iread_vector_def vector_m68k_def demo_m68k_def VBR_def in_box_def Let_def)
  then show ?thesis using exception_returns [OF m1 saved_refl, of plain_env] by blast
qed



text \<open>A stack frame unwinds: after \<open>link An,#d\<close> (\<open>An\<close> not the stack pointer), \<open>unlk An\<close> in any state with that frame
  pointer and the four saved bytes intact gives \<open>An\<close> and the stack pointer their values before the LINK, whatever the size of
  the frame and wherever the stack pointer has gone in between.\<close>

theorem link_unlk:
  assumes "i_link op m = Next m1" and "op AND 0xFFF8 = 0x4E50" and "op' AND 0xFFF8 = 0x4E58"
    and "fld 0 op' = fld 0 op" and "fld 0 op \<noteq> 7" and "saved (fld 0 op) 4 m1 m'"
  shows "areg m1 7 = areg m 7 - 4 + sxw m 2 \<and>
    (\<exists>m2. i_unlk op' m' = Next m2 \<and> areg m2 = (areg m')(fld 0 op := areg m (fld 0 op), 7 := areg m 7) \<and>
      dreg m2 = dreg m' \<and> hmem m2 = hmem m' \<and> cpc m2 = cpc m' + 2)"
proof -
  let ?s = "areg m 7 - 4" let ?n = "fld 0 op"
  note f = link_frame [OF assms(1,2)] and k = savedD [OF assms(6)]
  have a: "areg m1 ?n = ?s" using assms(5) by (simp add: f)
  have a': "areg m' ?n = ?s" using k(1) a by simp
  have b: "in_box m' (areg m' ?n) 4" using f(1) k(2) [of ?s 4] unfolding a' by (simp add: in_box_def f)
  have h: "hoff m' (areg m' ?n) = hoff m1 (areg m1 ?n)" "hoff m1 x = hoff m x" for x
    using k by (simp_all add: a hoff_def f)
  have rp: "sb_read_be32 (hmem m') (hoff m' (areg m' ?n)) = areg m ?n"
    using saved_be32 [OF assms(6), of 0] by (simp add: h a f(7))
  show ?thesis using assms(3-5) b a' f(2)
    by (simp add: i_unlk_def Let_def rdm_def mem_rd_def mem_rd32_def rp [unfolded a'] adv_def set_pc_def set_a_def fun_upd_twist)
qed

theorem link_unlk_witness:
  "\<exists>m1 m2. i_link 0x4E56 stack_m68k = Next m1 \<and> i_unlk 0x4E5E m1 = Next m2 \<and> areg m2 7 = 0x1040 \<and> areg m2 6 = 0x1040"
proof -
  obtain m1 where m1: "i_link 0x4E56 stack_m68k = Next m1"
    by (simp add: i_link_def wrm_def mem_wr_def mem_wr32_def stack_m68k_def demo_m68k_def in_box_def Let_def)
  have "areg stack_m68k n = 0x1040" for n by (simp add: stack_m68k_def)
  then show ?thesis using link_unlk [OF m1, of "0x4E5E" m1] m1 by (auto simp: fld_def)
qed

end
