(* ===== verification/M68kMovem.thy ===== *)
theory M68kMovem
  imports M68kCalls
begin

text \<open>
  MOVEM: the push of a register list and the load that restores it. The push visits the mask from A7
  down to D0 and the load from D0 up to A7, so that the two masks are mirror images; the
  lemmas follow the two transfer loops.
\<close>

subsection \<open>The push\<close>

lemma apart:
  fixes x :: u32 assumes "4 \<le> d" "d + 4 \<le> 2 ^ 32"
  shows "unat (x - of_nat d) + 4 \<le> unat x \<or> unat x + 4 \<le> unat (x - of_nat d)"
proof -
  have d: "unat (of_nat d :: u32) = d" using assms by (simp add: unat_of_nat)
  show ?thesis
  proof (cases "d \<le> unat x")
    case True
    then have "unat (x - of_nat d) = unat x - d" using d by (simp add: unat_sub word_le_nat_alt)
    then show ?thesis using assms True by linarith
  next
    case False
    then have "unat (x - of_nat d) = unat x + 2 ^ 32 - d"
      using d unsigned_less [of x] by (simp add: unat_sub_if_size word_size)
    then show ?thesis using assms False by linarith
  qed
qed

lemma read_apart:
  assumes "4 \<le> d" "d + 4 \<le> 2 ^ 32"
  shows "sb_read_be32 (sb_write_be32 b (hoff m (a - of_nat d)) v) (hoff m a) = sb_read_be32 b (hoff m a)"
  using apart [OF assms, of "a - org m"] by (intro read_write_other) (auto simp: hoff_def algebra_simps)

lemma push_step:
  assumes "movem_push 4 (i # is) an m = Inr (m1, an1)"
  obtains m' where "m' = m\<lparr>hmem := sb_write_be32 (hmem m) (hoff m (an - 4)) (mv_reg m (15 - i))\<rparr>"
    "in_box m (an - 4) 4" "movem_push 4 is (an - 4) m' = Inr (m1, an1)"
  using assms by (auto simp: mem_wr_def mem_wr32_def split: if_splits)

text \<open>The push changes nothing but the memory.\<close>

lemma push_frame_conditions:
  "movem_push 4 is an m = Inr (m1, an1) \<Longrightarrow> an1 = an - of_nat (4 * length is) \<and> m1 = m\<lparr>hmem := hmem m1\<rparr>"
proof (induction "is" arbitrary: an m)
  case (Cons i "is")
  from Cons(2) obtain m' where m': "m' = m\<lparr>hmem := sb_write_be32 (hmem m) (hoff m (an - 4)) (mv_reg m (15 - i))\<rparr>"
    and p: "movem_push 4 is (an - 4) m' = Inr (m1, an1)" by (rule push_step)
  have "an1 = an - 4 - of_nat (4 * length is) \<and> m1 = m'\<lparr>hmem := hmem m1\<rparr>" by (rule Cons(1) [OF p])
  then show ?case by (simp add: m' algebra_simps)
qed simp

text \<open>It keeps the longwords above the stack pointer.\<close>

lemma push_keeps:
  "movem_push 4 is an m = Inr (m1, an1) \<Longrightarrow> d + 4 + 4 * length is \<le> 2 ^ 32 \<Longrightarrow>
   sb_read_be32 (hmem m1) (hoff m (an + of_nat d)) = sb_read_be32 (hmem m) (hoff m (an + of_nat d))"
proof (induction "is" arbitrary: an m d)
  case (Cons i "is")
  from Cons(2) obtain m' where m': "m' = m\<lparr>hmem := sb_write_be32 (hmem m) (hoff m (an - 4)) (mv_reg m (15 - i))\<rparr>"
    and p: "movem_push 4 is (an - 4) m' = Inr (m1, an1)" by (rule push_step)
  have "sb_read_be32 (hmem m1) (hoff m' (an - 4 + of_nat (d + 4))) = sb_read_be32 (hmem m') (hoff m' (an - 4 + of_nat (d + 4)))"
    by (rule Cons(1) [OF p]) (use Cons(3) in simp)
  moreover have "an - 4 + of_nat (d + 4) = an + of_nat d" by simp
  moreover have "hoff m' x = hoff m x" for x by (simp add: m' hoff_def)
  ultimately have "sb_read_be32 (hmem m1) (hoff m (an + of_nat d)) = sb_read_be32 (hmem m') (hoff m (an + of_nat d))" by simp
  also have "\<dots> = sb_read_be32 (hmem m) (hoff m (an + of_nat d))"
    using read_apart [of "d + 4" "hmem m" m "an + of_nat d"] Cons(3) by (simp add: m' algebra_simps)
  finally show ?case .
qed simp

text \<open>What it leaves at each slot.\<close>

lemma push_slots:
  "movem_push 4 is an m = Inr (m1, an1) \<Longrightarrow> length is \<le> 16 \<Longrightarrow> k < length is \<Longrightarrow>
   mem_rd32 m1 (an - of_nat (4 * Suc k)) = Some (mv_reg m (15 - is ! k))"
proof (induction "is" arbitrary: an m k)
  case (Cons i "is")
  from Cons(2) obtain m' where m': "m' = m\<lparr>hmem := sb_write_be32 (hmem m) (hoff m (an - 4)) (mv_reg m (15 - i))\<rparr>"
    and b: "in_box m (an - 4) 4" and p: "movem_push 4 is (an - 4) m' = Inr (m1, an1)" by (rule push_step)
  have r: "mv_reg m' j = mv_reg m j" for j by (simp add: m' mv_reg_def)
  show ?case
  proof (cases k)
    case 0
    have m1: "m1 = m'\<lparr>hmem := hmem m1\<rparr>" using push_frame_conditions [OF p] by simp
    have "sb_read_be32 (hmem m1) (hoff m' (an - 4 + of_nat 0)) = sb_read_be32 (hmem m') (hoff m' (an - 4 + of_nat 0))"
      by (rule push_keeps [OF p]) (use Cons(3) in simp)
    moreover have "hoff m1 x = hoff m x" "hoff m' x = hoff m x" "in_box m1 x n = in_box m x n" for x n
      using arg_cong [OF m1, of org] arg_cong [OF m1, of msz] by (simp_all add: m' hoff_def in_box_def)
    ultimately show ?thesis using b 0 by (simp add: mem_rd32_def m')
  next
    case (Suc j)
    have "mem_rd32 m1 (an - 4 - of_nat (4 * Suc j)) = Some (mv_reg m' (15 - is ! j))"
      by (rule Cons(1) [OF p]) (use Cons(3,4) Suc in simp_all)
    then show ?thesis by (simp add: Suc r algebra_simps)
  qed
qed simp

subsection \<open>The load\<close>

lemma load_all:
  "(\<And>k. k < length js \<Longrightarrow> mem_rd32 m (addr + of_nat (4 * k)) = Some (vs k)) \<Longrightarrow> distinct js \<Longrightarrow>
   \<exists>m2. movem_load 4 js addr m = Inr m2 \<and> (\<forall>k < length js. mv_reg m2 (js ! k) = vs k) \<and>
     (\<forall>j. j \<notin> set js \<longrightarrow> mv_reg m2 j = mv_reg m j) \<and> hmem m2 = hmem m \<and> cpc m2 = cpc m"
proof (induction js arbitrary: addr m vs)
  case (Cons j js)
  let ?m = "mv_set j (vs 0) m"
  have s: "mv_reg ?m i = (if i = j then vs 0 else mv_reg m i)" for i
    by (auto simp: mv_reg_def mv_set_def set_d_def set_a_def)
  have rd: "mem_rd32 ?m a = mem_rd32 m a" for a
    by (simp add: mem_rd32_def in_box_def hoff_def mv_set_def set_d_def set_a_def)
  have k0: "mem_rd32 m addr = Some (vs 0)" using Cons(2) [of 0] by simp
  have "\<exists>m2. movem_load 4 js (addr + 4) ?m = Inr m2 \<and> (\<forall>k < length js. mv_reg m2 (js ! k) = vs (Suc k)) \<and>
     (\<forall>i. i \<notin> set js \<longrightarrow> mv_reg m2 i = mv_reg ?m i) \<and> hmem m2 = hmem ?m \<and> cpc m2 = cpc ?m"
  proof (rule Cons(1))
    fix k assume "k < length js"
    then show "mem_rd32 ?m (addr + 4 + of_nat (4 * k)) = Some (vs (Suc k))"
      using Cons(2) [of "Suc k"] by (simp add: rd algebra_simps)
  qed (use Cons(3) in simp)
  then obtain m2 where l: "movem_load 4 js (addr + 4) ?m = Inr m2" "\<forall>k < length js. mv_reg m2 (js ! k) = vs (Suc k)"
    "\<forall>i. i \<notin> set js \<longrightarrow> mv_reg m2 i = mv_reg ?m i" "hmem m2 = hmem ?m" "cpc m2 = cpc ?m" by blast
  have "mv_reg m2 ((j # js) ! k) = vs k" if "k < length (j # js)" for k
    using l(2,3) Cons(3) that s by (cases k) auto
  moreover have "mv_reg m2 i = mv_reg m i" if "i \<notin> set (j # js)" for i using l(3) that s by auto
  moreover have "hmem ?m = hmem m" "cpc ?m = cpc m" by (simp_all add: mv_set_def set_d_def set_a_def)
  ultimately show ?case using l(1,4,5) k0 by (auto simp: mem_rd_def)
qed simp

subsection \<open>The two masks\<close>

lemma mask_bits_alt: "mask_bits w = filter (bit w) [0..<16]"
proof -
  have "(drop_bit i w AND 1 \<noteq> 0) = bit w i" for i
    by (simp only: bit_iff_odd_drop_bit and_one_eq even_iff_mod_2_eq_zero)
  then show ?thesis by (simp add: mask_bits_def)
qed

lemma mirror:
  assumes "\<And>i. i < 16 \<Longrightarrow> bit w' i = bit w (15 - i)"
  shows "mask_bits w' = rev (map (\<lambda>i. 15 - i) (mask_bits w))"
proof -
  have r: "[0..<16] = rev (map (\<lambda>i. 15 - i) [0..<16])" by (simp add: upt_rec)
  have "mask_bits w' = filter (\<lambda>i. bit w (15 - i)) [0..<16]"
    unfolding mask_bits_alt by (rule filter_cong) (use assms in auto)
  also have "\<dots> = filter (\<lambda>i. bit w (15 - i)) (rev (map (\<lambda>i. 15 - i) [0..<16]))" by (subst r) (rule refl)
  also have "\<dots> = rev (map (\<lambda>i. 15 - i) (filter (\<lambda>i. bit w (15 - (15 - i))) [0..<16]))"
    by (simp add: rev_filter [symmetric] filter_map o_def)
  also have "filter (\<lambda>i. bit w (15 - (15 - i))) [0..<16] = filter (bit w) [0..<16]"
    by (rule filter_cong) auto
  finally show ?thesis by (simp only: mask_bits_alt)
qed

subsection \<open>Properties\<close>

lemma movem_no_fall: "i_movem 0x48E7 m \<noteq> Fall m'" "i_movem 0x4CDF m \<noteq> Fall m'"
  by (auto simp: i_movem_def fld_def Let_def split: sum.splits option.splits)

lemma exec_movem: "exec_op e 0x48E7 m = i_movem 0x48E7 m" "exec_op e 0x4CDF m = i_movem 0x4CDF m"
  by (simp_all add: block_defs control_defs alu_defs i_move_l_def i_move_w_reg_def i_line0_def fld_def Let_def szbits_def
      outcome_id movem_no_fall)

text \<open>C19. MOVEM restores what it saved: after \<open>movem.l list,-(a7)\<close>, and in any state with that stack pointer in which the
  saved longwords still read the same, \<open>movem.l (a7)+,list\<close> with the mirrored mask gives every register of the list the
  value it had, leaves the other registers as they are, and returns the stack pointer to where it was. A7 itself must not
  be in the list.\<close>

theorem movem_restores:
  assumes "exec_op e 0x48E7 m = Next m1" and "areg m' 7 = areg m1 7"
    and "\<And>k. k < length (mask_bits (xw m 2)) \<Longrightarrow>
      mem_rd32 m' (areg m1 7 + of_nat (4 * k)) = mem_rd32 m1 (areg m1 7 + of_nat (4 * k))"
    and "\<And>i. i < 16 \<Longrightarrow> bit (xw m' 2) i = bit (xw m 2) (15 - i)" and "\<not> bit (xw m 2) 0"
  shows "\<exists>m2. exec_op e 0x4CDF m' = Next m2 \<and> areg m2 7 = areg m 7 \<and> hmem m2 = hmem m' \<and> cpc m2 = cpc m' + 4 \<and>
    (\<forall>i < 15. mv_reg m2 i = (if bit (xw m' 2) i then mv_reg m i else mv_reg m' i))"
proof -
  let ?is = "mask_bits (xw m 2)" let ?js = "mask_bits (xw m' 2)" let ?n = "length ?is"
  have js: "?js = rev (map (\<lambda>i. 15 - i) ?is)" using assms(4) by (rule mirror)
  have n: "?n \<le> 16" "distinct ?js" using length_filter_le [of _ "[0..<16]"] by (simp_all add: mask_bits_def)
  have jset: "j \<in> set ?js \<longleftrightarrow> j < 16 \<and> bit (xw m' 2) j" for j by (auto simp: mask_bits_alt)
  obtain mp an1 where p: "movem_push 4 ?is (areg m 7) m = Inr (mp, an1)" and m1: "m1 = adv 4 (set_a 7 an1 mp)"
    using assms(1) by (auto simp: exec_movem i_movem_def fld_def Let_def split: sum.splits)
  have an1: "an1 = areg m 7 - of_nat (4 * ?n)" using push_frame_conditions [OF p] by simp
  have slot: "mem_rd32 m' (areg m' 7 + of_nat (4 * k)) = Some (mv_reg m (?js ! k))" if "k < length ?js" for k
  proof -
    have k: "k < ?n" using that by (simp add: js)
    let ?i = "?n - Suc k"
    have a: "areg m1 7 + of_nat (4 * k) = areg m 7 - of_nat (4 * Suc ?i)"
      using k by (simp add: m1 adv_def set_pc_def set_a_def an1 of_nat_diff algebra_simps)
    have "mem_rd32 m1 x = mem_rd32 mp x" for x
      by (simp add: m1 mem_rd32_def in_box_def hoff_def adv_def set_pc_def set_a_def)
    then have "mem_rd32 m1 (areg m1 7 + of_nat (4 * k)) = Some (mv_reg m (15 - ?is ! ?i))"
      unfolding a using push_slots [OF p n(1), of ?i] k by simp
    moreover have "?js ! k = 15 - ?is ! ?i" using k by (simp add: js rev_nth)
    ultimately show ?thesis using assms(2,3) k by simp
  qed
  obtain m2 where l: "movem_load 4 ?js (areg m' 7) m' = Inr m2" "\<forall>k < length ?js. mv_reg m2 (?js ! k) = mv_reg m (?js ! k)"
    "\<forall>j. j \<notin> set ?js \<longrightarrow> mv_reg m2 j = mv_reg m' j" "hmem m2 = hmem m'" "cpc m2 = cpc m'"
    using load_all [OF slot n(2)] by blast
  have a7: "areg m2 7 = areg m' 7" using l(3) assms(4) [of 15] assms(5) jset [of 15]
    by (auto simp: mv_reg_def dest!: spec [of _ 15])
  let ?m2 = "adv 4 (set_a 7 (areg m2 7 + of_nat (4 * length ?js)) m2)"
  have "exec_op e 0x4CDF m' = Next ?m2"
    by (simp add: exec_movem i_movem_def fld_def Let_def movem_load_ea_def l(1))
  moreover have "areg ?m2 7 = areg m 7"
    by (simp add: adv_def set_pc_def set_a_def a7 assms(2) m1 an1 js)
  moreover have "mv_reg ?m2 i = (if bit (xw m' 2) i then mv_reg m i else mv_reg m' i)" if "i < 15" for i
  proof -
    have "i - 8 \<noteq> 7" using that by arith
    then have "mv_reg ?m2 i = mv_reg m2 i" by (simp add: mv_reg_def adv_def set_pc_def set_a_def)
    also have "\<dots> = (if bit (xw m' 2) i then mv_reg m i else mv_reg m' i)"
      using l(2,3) that jset [of i] by (auto simp: in_set_conv_nth)
    finally show ?thesis .
  qed
  ultimately show ?thesis using l(4,5) by (intro exI [of _ ?m2]) (simp add: adv_def set_pc_def set_a_def)
qed

text \<open>\<open>movem.l d0,-(a7)\<close> with the registers 7, then \<open>movem.l (a7)+,d0\<close> with the registers 9.\<close>

definition push_m68k :: m68k where
  "push_m68k = stack_m68k\<lparr>dreg := (\<lambda>_. 7), hmem := (\<lambda>_. 0)(2 := 0x80)\<rparr>"

definition pull_m68k :: "m68k \<Rightarrow> m68k" where
  "pull_m68k m = m\<lparr>dreg := (\<lambda>_. 9), hmem := (hmem m)(2 := 0, 3 := 1), cpc := 0x1000\<rparr>"

theorem movem_restores_witness:
  "\<exists>m1 m2. exec_op plain_env 0x48E7 push_m68k = Next m1 \<and> exec_op plain_env 0x4CDF (pull_m68k m1) = Next m2 \<and>
     mv_reg m2 0 = 7 \<and> mv_reg m2 1 = 9"
proof -
  have w: "xw push_m68k 2 = 0x8000"
    by (simp add: push_m68k_def stack_m68k_def demo_m68k_def xw_def hoff_def be16_def)
  have l: "mask_bits 0x8000 = [15]" by (simp add: mask_bits_def upt_rec)
  define m1 where "m1 = adv 4 (set_a 7 0x103C (push_m68k\<lparr>hmem := sb_write_be32 (hmem push_m68k) 0x3C 7\<rparr>))"
  have e: "exec_op plain_env 0x48E7 push_m68k = Next m1"
    by (simp add: exec_movem i_movem_def fld_def Let_def w l mem_wr_def mem_wr32_def m1_def)
      (simp add: push_m68k_def stack_m68k_def demo_m68k_def in_box_def hoff_def mv_reg_def)
  have w': "xw (pull_m68k m1) 2 = 1"
    by (simp add: pull_m68k_def m1_def push_m68k_def stack_m68k_def demo_m68k_def xw_def hoff_def be16_def adv_def set_pc_def set_a_def)
  have b: "bit (xw (pull_m68k m1) 2) i = bit (xw push_m68k 2) (15 - i)" if "i < 16" for i
  proof -
    have "bit (2 ^ 15 :: u16) n = (n = 15)" for n unfolding bit_exp_iff by auto
    then have f: "bit (0x8000 :: u16) n = (n = 15)" for n by simp
    show ?thesis unfolding w w' f bit_1_iff using that by linarith
  qed
  have r: "mem_rd32 (pull_m68k m1) (areg m1 7 + of_nat (4 * k)) = mem_rd32 m1 (areg m1 7 + of_nat (4 * k))"
    if "k < length (mask_bits (xw push_m68k 2))" for k
  proof -
    have "k = 0" using that by (simp add: w l)
    then show ?thesis by (simp add: pull_m68k_def m1_def push_m68k_def stack_m68k_def demo_m68k_def mem_rd32_def in_box_def
        hoff_def adv_def set_pc_def set_a_def sb_read_be32_def)
  qed
  obtain m2 where m2: "exec_op plain_env 0x4CDF (pull_m68k m1) = Next m2"
    "\<forall>i < 15. mv_reg m2 i = (if bit (xw (pull_m68k m1) 2) i then mv_reg push_m68k i else mv_reg (pull_m68k m1) i)"
    using movem_restores [OF e _ r b] by (auto simp: w pull_m68k_def)
  have "mv_reg m2 0 = 7" "mv_reg m2 1 = 9"
    using m2(2) by (simp_all add: w') (simp_all add: mv_reg_def pull_m68k_def push_m68k_def)
  then show ?thesis using e m2(1) by blast
qed

end
