(* ===== verification/M68kLoop.thy ===== *)
theory M68kLoop
  imports M68kWide
begin

text \<open>
  The loop of the reference interpreter: the step cap only cuts runs short, and a counting program runs to
  its exit within a cap that is computed exactly. The last section states the encodings that an earlier block of the
  chain takes from the block written for them.
\<close>

subsection \<open>The step cap\<close>

definition capped :: "outcome \<Rightarrow> bool" where
  "capped r \<longleftrightarrow> (\<exists>m. r = IFail ''step cap exceeded (runaway/mis-decode)'' m)"

lemma loop_more:
  "\<not> capped (interp_loop e n k m) \<Longrightarrow> interp_loop e n (k + j) m = interp_loop e n k m"
proof (induction e n k m rule: interp_loop.induct)
  case (2 e n k m)
  show ?case
  proof (cases "interp_step e (n + 1) m")
    case (Next m')
    then have "interp_loop e (n + 1) (k + j) m' = interp_loop e (n + 1) k m'" using 2 by simp
    then show ?thesis using Next by simp
  qed simp_all
qed (simp add: capped_def)

subsection \<open>A counting program\<close>

text \<open>\<open>subq.l #1,d0; bne.s -4; rts\<close> at the start of a region of 64 bytes.\<close>

definition counting :: "m68k \<Rightarrow> bool" where
  "counting m \<longleftrightarrow> org m = 0x1000 \<and> msz m = 64 \<and> areg m 7 = isp m \<and> hmem m 0 = 0x53 \<and> hmem m 1 = 0x80 \<and>
     hmem m 2 = 0x66 \<and> hmem m 3 = 0xFC \<and> hmem m 4 = 0x4E \<and> hmem m 5 = 0x75"

definition count_m68k :: "u32 \<Rightarrow> m68k" where
  "count_m68k n = demo_m68k\<lparr>dreg := (\<lambda>_. n),
     hmem := (\<lambda>_. 0)(0 := 0x53, 1 := 0x80, 2 := 0x66, 3 := 0xFC, 4 := 0x4E, 5 := 0x75)\<rparr>"

lemma exec_subq: "exec_op e 0x5380 m = Next (adv 2 (put_d 32 0 (sub_l (dreg m 0) 1) m))"
  by (simp add: run_defs quick_def)

lemma exec_bne: "exec_op e 0x66FC m = Next (set_pc (if ccr m AND CCR_Z = 0 then cpc m - 2 else cpc m + 2) m)"
proof -
  have "(0xFFFFFFFE :: u32) = - 2" by simp
  then have m2: "0xFFFFFFFE + cpc m = cpc m - 2" by (simp only: uminus_add_conv_diff)
  have "exec_op e 0x66FC m = Next (set_pc (if ccr m AND CCR_Z = 0 then 0xFFFFFFFE + cpc m else cpc m + 2) m)"
    by (simp add: run_defs branch_target_def bcc_taken_def sx8_def)
  then show ?thesis unfolding m2 .
qed

lemma plain_step:
  assumes "in_box m (cpc m) 2" and "cpc m AND 1 = 0"
  shows "interp_step plain_env s m = exec_op plain_env (xw m 0) (m\<lparr>st_pc := cpc m\<rparr>)"
  using assms by (simp add: interp_step_def plain_env_def Let_def)

lemma count_fetch:
  assumes "counting m"
  shows "cpc m = 0x1000 \<Longrightarrow> xw m 0 = 0x5380" "cpc m = 0x1002 \<Longrightarrow> xw m 0 = 0x66FC" "cpc m = 0x1004 \<Longrightarrow> xw m 0 = 0x4E75"
    "cpc m \<in> {0x1000, 0x1002, 0x1004} \<Longrightarrow> in_box m (cpc m) 2 \<and> cpc m AND 1 = 0"
  using assms by (auto simp: counting_def xw_def hoff_def be16_def in_box_def)

lemma sub_l_zero: "(snd (sub_l a b) AND CCR_Z \<noteq> 0) = (a = b)"
  unfolding sub_l_sz sized_codes(2) [OF szmask_32(5,3,3)] Let_def snd_conv mk_cc_bits
  by (rule cmp_relations(1) [OF szmask_32(5,3,3)])

lemma count_subq:
  assumes "counting m" and "cpc m = 0x1000"
  obtains m' where "interp_step plain_env s m = Next m'" "counting m'" "cpc m' = 0x1002" "dreg m' 0 = dreg m 0 - 1"
    "(ccr m' AND CCR_Z = 0) = (dreg m 0 \<noteq> 1)"
proof -
  let ?m = "adv 2 (put_d 32 0 (sub_l (dreg m 0) 1) (m\<lparr>st_pc := cpc m\<rparr>))"
  have "interp_step plain_env s m = Next ?m"
    using count_fetch [OF assms(1)] assms(2) by (simp add: plain_step exec_subq)
  moreover have "dreg ?m 0 = dreg m 0 - 1" by (simp add: sub_l_def Let_def)
  moreover have "(ccr ?m AND CCR_Z = 0) = (dreg m 0 \<noteq> 1)" using sub_l_zero [of "dreg m 0" 1] by auto
  moreover have "counting ?m" "cpc ?m = 0x1002"
    using assms by (simp_all add: counting_def adv_def set_pc_def put_d_def set_cc_def set_d_def split: prod.splits)
  ultimately show thesis using that by blast
qed

lemma count_bne:
  assumes "counting m" and "cpc m = 0x1002"
  obtains m' where "interp_step plain_env s m = Next m'" "counting m'" "dreg m' = dreg m"
    "cpc m' = (if ccr m AND CCR_Z = 0 then 0x1000 else 0x1004)"
proof -
  let ?m = "set_pc (if ccr m AND CCR_Z = 0 then 0x1000 else 0x1004) (m\<lparr>st_pc := cpc m\<rparr>)"
  have "interp_step plain_env s m = Next ?m"
    using count_fetch [OF assms(1)] assms(2) by (simp add: plain_step exec_bne)
  then show thesis using assms(1) by (intro that [of ?m]) (simp_all add: counting_def set_pc_def)
qed

lemma count_rts:
  assumes "counting m" and "cpc m = 0x1004"
  shows "\<exists>m'. interp_step plain_env s m = Exit (dreg m 0) m'"
  using count_fetch [OF assms(1)] assms by (simp add: plain_step exec_rts i_rts_def counting_def)

lemma count_loop:
  "counting m \<Longrightarrow> cpc m = 0x1000 \<Longrightarrow> unat (dreg m 0) = Suc n \<Longrightarrow>
   if 2 * n + 3 \<le> k then \<exists>m'. interp_loop plain_env s k m = Exit 0 m' else capped (interp_loop plain_env s k m)"
proof (induction n arbitrary: m s k)
  case 0
  then have one: "dreg m 0 = 1" by (simp add: word_unat_eq_iff)
  obtain m1 where m1: "interp_step plain_env (s + 1) m = Next m1" "counting m1" "cpc m1 = 0x1002" "dreg m1 0 = dreg m 0 - 1"
    "(ccr m1 AND CCR_Z = 0) = (dreg m 0 \<noteq> 1)" by (rule count_subq [OF 0(1,2)])
  obtain m2 where m2: "interp_step plain_env (s + 2) m1 = Next m2" "counting m2" "dreg m2 = dreg m1"
    "cpc m2 = (if ccr m1 AND CCR_Z = 0 then 0x1000 else 0x1004)" by (rule count_bne [OF m1(2,3)])
  have c2: "cpc m2 = 0x1004" "dreg m2 0 = 0" using m2(3,4) m1(4,5) one by simp_all
  obtain m3 where m3: "interp_step plain_env (s + 3) m2 = Exit 0 m3"
    using count_rts [OF m2(2) c2(1), of "s + 3"] unfolding c2 by blast
  consider "k = 0" | "k = Suc 0" | "k = Suc (Suc 0)" | "k = Suc (Suc (Suc (k - 3)))" by linarith
  then show ?case
  proof cases
    case 4
    then obtain j where "k = Suc (Suc (Suc j))" by blast
    then show ?thesis using m1(1) m2(1) m3 by (simp add: numeral_eq_Suc)
  qed (use m1(1) m2(1) in \<open>simp_all add: numeral_eq_Suc capped_def\<close>)
next
  case (Suc n)
  then have ne: "dreg m 0 \<noteq> 1" by auto
  obtain m1 where m1: "interp_step plain_env (s + 1) m = Next m1" "counting m1" "cpc m1 = 0x1002" "dreg m1 0 = dreg m 0 - 1"
    "(ccr m1 AND CCR_Z = 0) = (dreg m 0 \<noteq> 1)" by (rule count_subq [OF Suc(2,3)])
  obtain m2 where m2: "interp_step plain_env (s + 2) m1 = Next m2" "counting m2" "dreg m2 = dreg m1"
    "cpc m2 = (if ccr m1 AND CCR_Z = 0 then 0x1000 else 0x1004)" by (rule count_bne [OF m1(2,3)])
  have c2: "cpc m2 = 0x1000" "dreg m2 0 = dreg m 0 - 1" using m2(3,4) m1(4,5) ne by simp_all
  have "unat (dreg m 0 - 1) = Suc n" using Suc(4) by (simp add: unat_sub word_le_nat_alt)
  then have IH: "if 2 * n + 3 \<le> j then \<exists>m'. interp_loop plain_env (s + 2) j m2 = Exit 0 m' else capped (interp_loop plain_env (s + 2) j m2)" for j
    using Suc(1) [OF m2(2) c2(1), of j "s + 2"] by (simp add: c2)
  consider "k = 0" | "k = Suc 0" | "k = Suc (Suc (k - 2))" by linarith
  then show ?case
  proof cases
    case 3
    then obtain j where j: "k = Suc (Suc j)" by blast
    then have "interp_loop plain_env s k m = interp_loop plain_env (s + 2) j m2" using m1(1) m2(1)
      by (simp add: numeral_eq_Suc)
    then show ?thesis using IH [of j] j by (auto split: if_splits)
  qed (use m1(1) m2(1) in \<open>simp_all add: numeral_eq_Suc capped_def\<close>)
qed

lemma count_run:
  assumes "n \<noteq> 0"
  shows "if 2 * unat n + 1 \<le> cap then \<exists>m'. j5d_interp_run cap plain_env 0x1000 libbase (count_m68k n) = Exit 0 m'
    else capped (j5d_interp_run cap plain_env 0x1000 libbase (count_m68k n))"
proof -
  let ?m = "interp_start 0x1000 libbase (count_m68k n)"
  have "counting ?m" "cpc ?m = 0x1000" "dreg ?m 0 = n"
    by (simp_all add: counting_def interp_start_def count_m68k_def demo_m68k_def Let_def set_a_def set_pc_def)
  moreover obtain j where j: "unat n = Suc j" using assms by (metis not0_implies_Suc unat_eq_zero)
  ultimately show ?thesis
    using count_loop [of ?m j cap 0] by (simp add: j5d_interp_run_def)
qed

subsection \<open>Properties\<close>





subsection \<open>Encodings taken by another block\<close>

lemma negx_32:
  "i_negx 0x4080 m = Next (adv 2 (put_d 32 0 (- dreg m 0 - xbit m,
     sized_x_ccr (- dreg m 0 - xbit m) 32 (dreg m 0 + xbit m \<noteq> 0)
       (dreg m 0 AND (- dreg m 0 - xbit m) AND 0x80000000 \<noteq> 0) (ccr m)) m))"
proof -
  have "(ucast (0 - ucast (dreg m 0) - ucast (xbit m) :: u64) :: u32) = - dreg m 0 - xbit m"
    by (rule word_uint_eqI) (simp add: unsigned_ucast_eq uint_word_ariths uint_ucast64 take_bit_eq_mod mod_simps mod_mod_cancel)
  then show ?thesis by (simp add: i_negx_def fld_def szbits_def Let_def szmask_32)
qed

lemma exec_negx: "exec_op e 0x4080 m = i_negx 0x4080 m" "exec_op e 0x40C0 m = i_negx 0x4080 m"
  by (simp_all add: run_defs)

text \<open>NEGX.L loses its borrow in one case: C and X are set exactly when \<open>0 - d0 - X\<close> borrows, except for
  \<open>d0 = 0xFFFFFFFF\<close> with X set, where the 32-bit test \<open>a + xin != 0\<close> wraps, so that the borrow of the next longword of
  a multi-precision negation is lost.\<close>

theorem negx_borrow:
  fixes m e
  defines "b \<equiv> 0 - uint (dreg m 0) - uint (xbit m) < 0" and "w \<equiv> dreg m 0 = 0xFFFFFFFF \<and> xbit m = 1"
  shows "\<exists>m1. exec_op e 0x4080 m = Next m1 \<and> dreg m1 0 = 0 - dreg m 0 - xbit m \<and>
    (ccr m1 AND CCR_C \<noteq> 0) = (b \<and> \<not> w) \<and> (ccr m1 AND CCR_X \<noteq> 0) = (b \<and> \<not> w)"
proof -
  have "(dreg m 0 + xbit m \<noteq> 0) = (b \<and> \<not> w)"
  proof (cases "xbit m = 1")
    case True
    have "(dreg m 0 + 1 = 0) = (dreg m 0 = - 1)" by (simp add: add_eq_0_iff2)
    moreover have "- 1 < uint (dreg m 0)" using uint_ge_0 [of "dreg m 0"] by linarith
    moreover have "(0xFFFFFFFF :: u32) = - 1" by simp
    then have "(dreg m 0 = 0xFFFFFFFF) = (dreg m 0 = - 1)" by (rule arg_cong)
    ultimately show ?thesis unfolding b_def w_def True by simp
  next
    case False
    then have x: "xbit m = 0" by (simp add: xbit_def split: if_splits)
    have "(dreg m 0 \<noteq> 0) = (0 < uint (dreg m 0))" using uint_ge_0 [of "dreg m 0"] by (auto simp: less_le uint_0_iff)
    then show ?thesis by (simp add: x b_def w_def)
  qed
  then show ?thesis unfolding exec_negx negx_32 sized_x_mk_cc by simp
qed

text \<open>Four families of encodings are executed by an earlier block that does not check their size or mode field:
  \<open>adda.l d0,a0\<close> (D1C0) runs as \<open>addx.l d0,d0\<close> and \<open>suba.l d0,a0\<close> (91C0) as \<open>subx.l d0,d0\<close>, leaving \<open>a0\<close> unchanged and
  adding or subtracting into \<open>d0\<close>; \<open>move.w sr,d0\<close> (40C0) runs as \<open>negx.l d0\<close>; and \<open>muls.w (a0),d1\<close> (C3D0) multiplies
  by \<open>d0\<close> without reading memory.\<close>

theorem shadowed_encodings:
  "exec_op e 0xD1C0 m = exec_op e 0xD180 m \<and> exec_op e 0x91C0 m = exec_op e 0x9180 m \<and>
   exec_op e 0x40C0 m = exec_op e 0x4080 m \<and> exec_op e 0xC3D0 m = exec_op e 0xC3C0 m \<and>
   (\<exists>m1. exec_op e 0xD1C0 m = Next m1 \<and> areg m1 = areg m \<and> dreg m1 0 = 2 * dreg m 0 + xbit m) \<and>
   (\<exists>m1. exec_op e 0x91C0 m = Next m1 \<and> areg m1 = areg m \<and> dreg m1 0 = - xbit m) \<and>
   (\<exists>m1. exec_op e 0xC3D0 m = Next m1 \<and> areg m1 = areg m \<and>
      dreg m1 1 = sx16 (ucast (dreg m 1)) * sx16 (ucast (dreg m 0)))"
proof -
  have "exec_op e 0xD1C0 m = i_addx 0xD180 m" "exec_op e 0xD180 m = i_addx 0xD180 m"
    "exec_op e 0x91C0 m = i_subx 0x9180 m" "exec_op e 0x9180 m = i_subx 0x9180 m"
    "exec_op e 0xC3D0 m = i_muls_w 0xC3C0 m" "exec_op e 0xC3C0 m = i_muls_w 0xC3C0 m"
    by (simp_all add: run_defs)
  moreover have "\<exists>m1. i_addx 0xD180 m = Next m1 \<and> areg m1 = areg m \<and> dreg m1 0 = 2 * dreg m 0 + xbit m"
  proof -
    have "(ucast (ucast (dreg m 0) + ucast (dreg m 0) + ucast (xbit m) :: u64) :: u32) = 2 * dreg m 0 + xbit m"
      by (rule word_uint_eqI) (simp add: unsigned_ucast_eq uint_word_ariths uint_ucast64 take_bit_eq_mod mod_simps mod_mod_cancel)
    then show ?thesis by (simp add: i_addx_def fld_def szbits_def Let_def szmask_32)
  qed
  moreover have "\<exists>m1. i_subx 0x9180 m = Next m1 \<and> areg m1 = areg m \<and> dreg m1 0 = - xbit m"
  proof -
    have "(ucast (ucast (dreg m 0) - ucast (dreg m 0) - ucast (xbit m) :: u64) :: u32) = - xbit m"
      by (rule word_uint_eqI) (simp add: unsigned_ucast_eq uint_word_ariths uint_ucast64 take_bit_eq_mod mod_simps mod_mod_cancel)
    then show ?thesis by (simp add: i_subx_def fld_def szbits_def Let_def szmask_32)
  qed
  moreover have "\<exists>m1. i_muls_w 0xC3C0 m = Next m1 \<and> areg m1 = areg m \<and> dreg m1 1 = sx16 (ucast (dreg m 1)) * sx16 (ucast (dreg m 0))"
    by (simp add: i_muls_w_def fld_def Let_def set_cc_def set_d_def adv_def set_pc_def)
  ultimately show ?thesis by (simp only: exec_negx)
qed

end
